(* ===== verification/C_Prelude.thy ===== *)
theory C_Prelude
  imports Main "HOL-Library.Word" "HOL-Library.Multiset"
begin

text \<open>
  Shared vocabulary of the development: the faults a C program can run into, results that
  carry a fault, checked \<open>int\<close> arithmetic, arrays with bounds, and the generic
  list lemmas the components use.

  A model returns \<open>Inl f\<close> where the C standard gives the program no behaviour (an access
  outside an array, a null or dangling pointer, a signed overflow, a value that was never
  returned) and \<open>Inr x\<close> otherwise. Error returns that the code itself makes are ordinary
  values of the model.
\<close>

section \<open>Faults and results\<close>

datatype fault =
    NullDeref       \<comment> \<open>a null pointer is dereferenced\<close>
  | BadPointer      \<comment> \<open>a pointer to no live object is dereferenced\<close>
  | OutOfBounds     \<comment> \<open>an array is read or written outside its length\<close>
  | Uninit          \<comment> \<open>a pointer or object that was never given a value is used\<close>
  | SignedOverflow  \<comment> \<open>an \<open>int\<close> leaves its range\<close>
  | NoReturnValue   \<comment> \<open>the caller uses the value of a \<open>return;\<close> without one\<close>
  | OutOfFuel       \<comment> \<open>the loop did not end within the fuel given to the model\<close>

type_synonym 'a res = "fault + 'a"

definition bindE :: "'a res \<Rightarrow> ('a \<Rightarrow> 'b res) \<Rightarrow> 'b res" where
  "bindE m f = (case m of Inl e \<Rightarrow> Inl e | Inr x \<Rightarrow> f x)"

definition is_ok :: "'a res \<Rightarrow> bool" where
  "is_ok m = (case m of Inl _ \<Rightarrow> False | Inr _ \<Rightarrow> True)"

section \<open>The type int\<close>

text \<open>\<open>int\<close> has 32 bits on the platforms the programs are built for.\<close>

definition INT_MAX :: int where
  "INT_MAX = 2147483647"

definition INT_MIN :: int where
  "INT_MIN = -2147483648"

definition in_int :: "int \<Rightarrow> bool" where
  "in_int x = (INT_MIN \<le> x \<and> x \<le> INT_MAX)"

definition c_int :: "int \<Rightarrow> int res" where
  "c_int x = (if in_int x then Inr x else Inl SignedOverflow)"

section \<open>Arrays\<close>

definition aget :: "'a list \<Rightarrow> int \<Rightarrow> 'a res" where
  "aget xs i = (if 0 \<le> i \<and> i < int (length xs) then Inr (xs ! nat i) else Inl OutOfBounds)"

definition aset :: "'a list \<Rightarrow> int \<Rightarrow> 'a \<Rightarrow> 'a list res" where
  "aset xs i v = (if 0 \<le> i \<and> i < int (length xs) then Inr (xs[nat i := v]) else Inl OutOfBounds)"

text \<open>
  The loop \<open>for (int j = i; j < count - 1; j++) xs[j] = xs[j + 1];\<close> that closes the gap left
  by the element at \<open>i\<close>.
\<close>

function shift_left :: "'a list \<Rightarrow> int \<Rightarrow> int \<Rightarrow> 'a list res" where
  "shift_left cs j n =
     (if j < n - 1 then bindE (aget cs (j + 1)) (\<lambda>c. bindE (aset cs j c) (\<lambda>cs. shift_left cs (j + 1) n))
      else Inr cs)"
  by pat_completeness auto
termination by (relation "measure (\<lambda>(cs, j, n). nat (n - j))") auto

section \<open>Loops\<close>

text \<open>
  \<open>do_while\<close> runs the body of a loop until it asks to leave. The body returns the next
  state and whether the loop goes round again; \<open>fuel\<close> bounds the number of rounds.
\<close>

fun do_while :: "nat \<Rightarrow> ('s \<Rightarrow> ('s \<times> bool) res) \<Rightarrow> 's \<Rightarrow> 's res" where
  "do_while 0 body s = Inl OutOfFuel"
| "do_while (Suc fuel) body s =
     bindE (body s) (\<lambda>(s', again). if again then do_while fuel body s' else Inr s')"

text \<open>
  The same with a body that depends on the number of the round: the values its uninitialised
  locals happen to have, and whether its calls fail, differ from round to round.
\<close>

fun rounds :: "nat \<Rightarrow> (nat \<Rightarrow> 's \<Rightarrow> ('s \<times> bool) res) \<Rightarrow> 's \<Rightarrow> 's res" where
  "rounds 0 body s = Inl OutOfFuel"
| "rounds (Suc fuel) body s =
     bindE (body 0 s) (\<lambda>(s', again). if again then rounds fuel (\<lambda>k. body (Suc k)) s' else Inr s')"

section \<open>Lemmas\<close>

named_theorems c_arith \<open>definitions of the ranges of C integers\<close>

lemma bindE_simps [simp]:
  "bindE (Inr x) f = f x"
  "bindE (Inl e) f = Inl e"
  by (simp_all add: bindE_def)

lemma bindE_eq_Inr [simp]: "bindE m f = Inr y \<longleftrightarrow> (\<exists>x. m = Inr x \<and> f x = Inr y)"
  by (cases m) auto

lemma bindE_eq_Inl: "bindE m f = Inl e \<longleftrightarrow> m = Inl e \<or> (\<exists>x. m = Inr x \<and> f x = Inl e)"
  by (cases m) auto

lemma bindE_assoc: "bindE (bindE m f) g = bindE m (\<lambda>x. bindE (f x) g)"
  by (cases m) auto

lemma bindE_cong: "m = m' \<Longrightarrow> (\<And>x. m' = Inr x \<Longrightarrow> f x = g x) \<Longrightarrow> bindE m f = bindE m' g"
  by (cases m') auto

lemma is_ok_simps [simp]: "is_ok (Inr x)" "\<not> is_ok (Inl e)"
  by (simp_all add: is_ok_def)

lemma is_ok_iff: "is_ok m \<longleftrightarrow> (\<exists>x. m = Inr x)"
  by (cases m) auto

lemma is_ok_bindE: "is_ok (bindE m f) \<longleftrightarrow> (\<exists>x. m = Inr x \<and> is_ok (f x))"
  by (cases m) auto

declare INT_MAX_def [c_arith] INT_MIN_def [c_arith] in_int_def [c_arith]

lemma c_int_eq_Inr [simp]: "c_int x = Inr y \<longleftrightarrow> in_int x \<and> y = x"
  by (auto simp: c_int_def)

lemma aget_nth [simp]: "i < length xs \<Longrightarrow> aget xs (int i) = Inr (xs ! i)"
  by (simp add: aget_def)

lemma aget_eq_Inr: "aget xs i = Inr v \<longleftrightarrow> 0 \<le> i \<and> nat i < length xs \<and> v = xs ! nat i"
  by (auto simp: aget_def)

lemma aset_nth [simp]: "i < length xs \<Longrightarrow> aset xs (int i) v = Inr (xs[i := v])"
  by (simp add: aset_def)

lemma aset_eq_Inr: "aset xs i v = Inr ys \<longleftrightarrow> 0 \<le> i \<and> nat i < length xs \<and> ys = xs[nat i := v]"
  by (auto simp: aset_def)

lemma aset_length: "aset xs i v = Inr ys \<Longrightarrow> length ys = length xs"
  by (auto simp: aset_eq_Inr)

declare shift_left.simps [simp del]

text \<open>The shift loop overwrites the element at \<open>j\<close> with the ones behind it.\<close>

lemma shift_left_take:
  "0 \<le> j \<Longrightarrow> j < n \<Longrightarrow> n \<le> int (length cs) \<Longrightarrow>
    \<exists>cs'. shift_left cs j n = Inr cs' \<and> length cs' = length cs \<and> set cs' \<subseteq> set cs
      \<and> take (nat (n - 1)) cs' = take (nat j) cs @ take (nat (n - 1 - j)) (drop (nat j + 1) cs)"
proof (induction cs j n rule: shift_left.induct)
  case (1 cs j n)
  show ?case
  proof (cases "j < n - 1")
    case False
    with 1 have "n - 1 = j" by simp
    with False show ?thesis by (simp add: shift_left.simps [of cs j n])
  next
    case True
    let ?c = "cs ! nat (j + 1)"
    let ?C = "cs[nat j := ?c]"
    have get: "aget cs (j + 1) = Inr ?c" and set: "aset cs j ?c = Inr ?C"
      using True 1 by (auto simp: aget_def aset_def)
    have step: "shift_left cs j n = shift_left ?C (j + 1) n"
      using True by (simp add: shift_left.simps [of cs j n] get set)
    from 1(1) [OF True, of ?C] 1(2,3,4) True obtain cs' where
      C: "shift_left ?C (j + 1) n = Inr cs'" "length cs' = length cs" "set cs' \<subseteq> set ?C"
      and t: "take (nat (n - 1)) cs' = take (nat (j + 1)) ?C @ take (nat (n - 1 - (j + 1))) (drop (nat (j + 1) + 1) ?C)"
      by auto
    have len: "nat j < length cs" "nat (j + 1) < length cs" "nat (j + 1) = Suc (nat j)" using True 1 by auto
    have "set ?C \<subseteq> insert ?c (set cs)" by (rule set_update_subset_insert)
    with C(3) len(2) have sub: "set cs' \<subseteq> set cs" by auto
    have k: "nat (n - 1 - j) = Suc (nat (n - 1 - (j + 1)))" using True by simp
    have "take (nat (j + 1)) ?C = take (nat j) cs @ [?c]"
      using len by (simp add: take_Suc_conv_app_nth)
    moreover have "drop (nat j + 1) cs = ?c # drop (nat (j + 1) + 1) cs"
      using len Cons_nth_drop_Suc [of "Suc (nat j)" cs] by simp
    ultimately have "take (nat (n - 1)) cs' = take (nat j) cs @ take (nat (n - 1 - j)) (drop (nat j + 1) cs)"
      using t len(3) k by simp
    with step C(1,2) sub show ?thesis by auto
  qed
qed

subsection \<open>Lists\<close>

lemma length_takeWhile_less: "x \<in> set xs \<Longrightarrow> \<not> P x \<Longrightarrow> length (takeWhile P xs) < length xs"
  by (induction xs) auto

lemma takeWhile_until [simp]: "c \<notin> set l \<Longrightarrow> takeWhile (\<lambda>x. x \<noteq> c) (l @ c # r) = l"
  by (induction l) auto

lemma takeWhile_absent [simp]: "c \<notin> set l \<Longrightarrow> takeWhile (\<lambda>x. x \<noteq> c) l = l"
  by (induction l) auto

lemma dropWhile_until [simp]: "c \<notin> set l \<Longrightarrow> dropWhile (\<lambda>x. x \<noteq> c) (l @ c # r) = c # r"
  by (induction l) auto

lemma dropWhile_absent [simp]: "c \<notin> set l \<Longrightarrow> dropWhile (\<lambda>x. x \<noteq> c) l = []"
  by (induction l) auto

lemma find_append: "find P (xs @ ys) = (case find P xs of None \<Rightarrow> find P ys | Some x \<Rightarrow> Some x)"
  by (induction xs) auto

subsection \<open>Loops that keep an invariant\<close>

locale loop_invariant =
  fixes body :: "nat \<Rightarrow> 's \<Rightarrow> ('s \<times> bool) res"
    and inv :: "'s \<Rightarrow> bool"
  assumes body_inv: "inv s \<Longrightarrow> body k s = Inr (s', again) \<Longrightarrow> inv s'"
begin

lemma rounds_from: "rounds fuel (\<lambda>k. body (i + k)) s = Inr s' \<Longrightarrow> inv s \<Longrightarrow> inv s'"
proof (induction fuel arbitrary: i s)
  case 0
  then show ?case by simp
next
  case (Suc fuel)
  then obtain t again where b: "body i s = Inr (t, again)"
    and rest: "(if again then rounds fuel (\<lambda>k. body (i + Suc k)) t else Inr t) = Inr s'"
    by auto
  from b Suc.prems(2) have "inv t" by (rule body_inv [rotated])
  with rest Suc.IH [of "Suc i" t] show ?case by (simp split: if_splits)
qed

lemma loop_keeps_inv: "rounds fuel body s = Inr s' \<Longrightarrow> inv s \<Longrightarrow> inv s'"
  using rounds_from [of fuel 0] by simp

end

lemma do_while_rounds: "do_while fuel body s = rounds fuel (\<lambda>_. body) s"
  by (induction fuel arbitrary: s) (auto intro!: bindE_cong)

lemma rounds_fuel_mono:
  "rounds fuel body s = Inr s' \<Longrightarrow> rounds (fuel + k) body s = Inr s'"
proof (induction fuel arbitrary: body s)
  case 0
  then show ?case by simp
next
  case (Suc fuel)
  then obtain t again where b: "body 0 s = Inr (t, again)"
    and rest: "(if again then rounds fuel (\<lambda>k. body (Suc k)) t else Inr t) = Inr s'"
    by auto
  with Suc.IH show ?case by (simp split: if_splits)
qed

lemma do_while_fuel_mono:
  "do_while fuel body s = Inr s' \<Longrightarrow> do_while (fuel + k) body s = Inr s'"
  by (simp only: do_while_rounds rounds_fuel_mono)

lemma rounds_stuck:
  assumes "\<And>k s. P s \<Longrightarrow> \<exists>s'. body k s = Inr (s', True) \<and> P s'"
    and "P s"
  shows "rounds fuel body s = Inl OutOfFuel"
  using assms
proof (induction fuel arbitrary: body s)
  case 0
  then show ?case by simp
next
  case (Suc fuel)
  from Suc.prems obtain s' where "body 0 s = Inr (s', True)" and "P s'" by blast
  moreover from this Suc.prems(1) have "rounds fuel (\<lambda>k. body (Suc k)) s' = Inl OutOfFuel"
    by (intro Suc.IH)
  ultimately show ?case by simp
qed

end
