(* ===== verification/C_Stdio.thy ===== *)
theory C_Stdio
  imports C_Prelude
begin

text \<open>
  The parts of the C library the programs call: character buffers holding
  NUL-terminated strings (\<open>strcpy\<close>-style writes, \<open>strncpy\<close>, \<open>strcspn\<close>, \<open>strtok\<close>,
  \<open>atoi\<close>), decimal output (\<open>%d\<close>), and console input and output (\<open>scanf\<close>,
  \<open>getchar\<close>, \<open>fgets\<close>, \<open>printf\<close>). A buffer \<open>char b[n]\<close> is a list of exactly
  \<open>n\<close> characters; writes outside it and reads that run past its end are faults.
  Standard input is the list of characters still to be read, standard output the list of
  characters written so far.
\<close>

section \<open>Characters\<close>

definition NUL :: char where
  "NUL = CHR 0x00"

definition NL :: char where
  "NL = CHR 0x0A"

definition isspace :: "char \<Rightarrow> bool" where
  "isspace c = (c \<in> {CHR '' '', CHR 0x09, CHR 0x0A, CHR 0x0B, CHR 0x0C, CHR 0x0D})"

definition isdigit :: "char \<Rightarrow> bool" where
  "isdigit c = (48 \<le> (of_char c :: nat) \<and> (of_char c :: nat) \<le> 57)"

definition digit_val :: "char \<Rightarrow> nat" where
  "digit_val c = of_char c - 48"

definition digit_char :: "nat \<Rightarrow> char" where
  "digit_char d = char_of (48 + d)"

section \<open>Decimal numbers\<close>

fun show_nat :: "nat \<Rightarrow> string" where
  "show_nat n = (if n < 10 then [digit_char n] else show_nat (n div 10) @ [digit_char (n mod 10)])"

declare show_nat.simps [simp del]

definition show_int :: "int \<Rightarrow> string" where
  "show_int x = (if x < 0 then CHR ''-'' # show_nat (nat (- x)) else show_nat (nat x))"

definition dec_val :: "string \<Rightarrow> nat" where
  "dec_val s = foldl (\<lambda>a c. 10 * a + digit_val c) 0 s"

text \<open>
  The integer conversion of \<open>scanf\<close>, \<open>sscanf\<close> and \<open>atoi\<close>: skip white space, take
  an optional sign and the longest run of digits. The second component is the unread rest.
\<close>

definition scan_sign :: "string \<Rightarrow> bool \<times> string" where
  "scan_sign s = (case s of [] \<Rightarrow> (False, [])
     | c # cs \<Rightarrow> if c = CHR ''-'' then (True, cs) else if c = CHR ''+'' then (False, cs) else (False, s))"

definition scan_int :: "string \<Rightarrow> int option \<times> string" where
  "scan_int s =
     (let (neg, s2) = scan_sign (dropWhile isspace s);
          ds = takeWhile isdigit s2;
          v = int (dec_val ds)
      in (if ds = [] then None else Some (if neg then - v else v), dropWhile isdigit s2))"

definition atoi :: "string \<Rightarrow> int res" where
  "atoi s = (case fst (scan_int s) of None \<Rightarrow> Inr 0 | Some v \<Rightarrow> c_int v)"

section \<open>Buffers and strings\<close>

type_synonym cbuf = "char list"

definition cstr :: "cbuf \<Rightarrow> string res" where
  "cstr b = (if NUL \<in> set b then Inr (takeWhile (\<lambda>c. c \<noteq> NUL) b) else Inl OutOfBounds)"

definition put_str :: "cbuf \<Rightarrow> string \<Rightarrow> cbuf res" where
  "put_str b s = (if length s < length b then Inr (s @ NUL # drop (Suc (length s)) b) else Inl OutOfBounds)"

definition strncpy :: "cbuf \<Rightarrow> cbuf \<Rightarrow> nat \<Rightarrow> cbuf res" where
  "strncpy dst src n =
     (let s = take n (takeWhile (\<lambda>c. c \<noteq> NUL) src)
      in if n \<le> length dst \<and> (n \<le> length src \<or> NUL \<in> set src)
         then Inr (s @ replicate (n - length s) NUL @ drop n dst) else Inl OutOfBounds)"

definition strcspn :: "cbuf \<Rightarrow> string \<Rightarrow> int res" where
  "strcspn b reject = bindE (cstr b) (\<lambda>s. Inr (int (length (takeWhile (\<lambda>c. c \<notin> set reject) s))))"

definition strtok :: "string \<Rightarrow> string \<Rightarrow> (string \<times> string) option" where
  "strtok s delim =
     (let s1 = dropWhile (\<lambda>c. c \<in> set delim) s
      in if s1 = [] then None
         else Some (takeWhile (\<lambda>c. c \<notin> set delim) s1, drop 1 (dropWhile (\<lambda>c. c \<notin> set delim) s1)))"

section \<open>Console input and output\<close>

record io =
  stdin :: string
  stdout :: string

definition printf :: "string \<Rightarrow> io \<Rightarrow> io" where
  "printf s w = w\<lparr>stdout := stdout w @ s\<rparr>"

definition getchar :: "io \<Rightarrow> io" where
  "getchar w = w\<lparr>stdin := drop 1 (stdin w)\<rparr>"

fun get_line :: "nat \<Rightarrow> string \<Rightarrow> string \<times> string" where
  "get_line 0 s = ([], s)"
| "get_line (Suc n) [] = ([], [])"
| "get_line (Suc n) (c # cs) =
     (if c = NL then ([c], cs) else (let (l, r) = get_line n cs in (c # l, r)))"

text \<open>
  \<open>fgets(buf, n, stdin)\<close>: the flag says whether anything was read; at end of input the
  buffer keeps what it held.
\<close>

definition fgets :: "cbuf \<Rightarrow> nat \<Rightarrow> io \<Rightarrow> (bool \<times> cbuf \<times> io) res" where
  "fgets buf n w =
     (if stdin w = [] then Inr (False, buf, w)
      else let (l, r) = get_line (n - 1) (stdin w)
           in bindE (put_str buf l) (\<lambda>b. Inr (True, b, w\<lparr>stdin := r\<rparr>)))"

text \<open>
  One \<open>scanf\<close> conversion at a time. The first argument is what the variable holds
  before the call; a failed conversion leaves it as it is.
\<close>

definition scanf_d :: "int \<Rightarrow> io \<Rightarrow> (int \<times> io) res" where
  "scanf_d x w =
     (case scan_int (stdin w) of
        (None, r) \<Rightarrow> Inr (x, w\<lparr>stdin := r\<rparr>)
      | (Some v, r) \<Rightarrow> bindE (c_int v) (\<lambda>v. Inr (v, w\<lparr>stdin := r\<rparr>)))"

definition scanf_s :: "cbuf \<Rightarrow> io \<Rightarrow> (cbuf \<times> io) res" where
  "scanf_s buf w =
     (let s = dropWhile isspace (stdin w);
          word = takeWhile (\<lambda>c. \<not> isspace c) s;
          w' = w\<lparr>stdin := dropWhile (\<lambda>c. \<not> isspace c) s\<rparr>
      in if word = [] then Inr (buf, w') else bindE (put_str buf word) (\<lambda>b. Inr (b, w')))"

definition scanf_c :: "char \<Rightarrow> io \<Rightarrow> char \<times> io" where
  "scanf_c x w =
     (case dropWhile isspace (stdin w) of
        [] \<Rightarrow> (x, w\<lparr>stdin := []\<rparr>)
      | c # cs \<Rightarrow> (c, w\<lparr>stdin := cs\<rparr>))"

text \<open>A console on which the given text will be typed.\<close>

definition console :: "string \<Rightarrow> io" where
  "console s = \<lparr>stdin = s, stdout = []\<rparr>"

section \<open>Lemmas\<close>

lemma NL_NUL [simp]: "NL \<noteq> NUL" "NUL \<noteq> NL"
  by (simp_all add: NL_def NUL_def)

subsection \<open>Buffers\<close>

lemma put_str_eq_Inr:
  "put_str b s = Inr b' \<longleftrightarrow> length s < length b \<and> b' = s @ NUL # drop (Suc (length s)) b"
  by (auto simp: put_str_def)

lemma put_str_length: "put_str b s = Inr b' \<Longrightarrow> length b' = length b"
  by (auto simp: put_str_eq_Inr)

lemma put_str_cstr: "put_str b s = Inr b' \<Longrightarrow> NUL \<notin> set s \<Longrightarrow> cstr b' = Inr s"
  by (auto simp: put_str_eq_Inr cstr_def takeWhile_append)

lemma cstr_length: "cstr b = Inr s \<Longrightarrow> length s < length b"
  by (auto simp: cstr_def split: if_splits intro: length_takeWhile_less)

lemma strncpy_eq_Inr:
  "strncpy dst src n = Inr b \<Longrightarrow> length b = length dst"
  by (auto simp: strncpy_def Let_def min_def split: if_splits)

lemma strncpy_cstr:
  assumes "cstr src = Inr s" "length s < n" "n \<le> length dst"
  shows "\<exists>b. strncpy dst src n = Inr b \<and> cstr b = Inr s \<and> length b = length dst"
proof -
  from assms(1) have nul: "NUL \<in> set src" and s: "s = takeWhile (\<lambda>c. c \<noteq> NUL) src"
    by (auto simp: cstr_def split: if_splits)
  then have "NUL \<notin> set s" by (auto dest: set_takeWhileD)
  with nul s assms(2,3) show ?thesis
    by (auto simp: strncpy_def cstr_def Let_def takeWhile_append takeWhile_eq_all_conv
        dest: set_takeWhileD)
qed

lemma strcspn_bound:
  assumes "strcspn b r = Inr k"
  shows "0 \<le> k" and "nat k < length b"
proof -
  from assms have nul: "NUL \<in> set b"
    and k: "k = int (length (takeWhile (\<lambda>c. c \<notin> set r) (takeWhile (\<lambda>c. c \<noteq> NUL) b)))"
    by (auto simp: strcspn_def cstr_def split: if_splits)
  from k show "0 \<le> k" by simp
  have "length (takeWhile (\<lambda>c. c \<notin> set r) (takeWhile (\<lambda>c. c \<noteq> NUL) b))
      \<le> length (takeWhile (\<lambda>c. c \<noteq> NUL) b)"
    by (rule length_takeWhile_le)
  also have "\<dots> < length b"
    using nul by (rule length_takeWhile_less) simp
  finally show "nat k < length b" using k by simp
qed

text \<open>Cutting a buffer at a position inside its string shortens the string to there.\<close>

lemma cstr_cut:
  assumes "cstr b = Inr s" "k \<le> length s"
  shows "cstr (b[k := NUL]) = Inr (take k s)"
proof -
  from assms(1) have nul: "NUL \<in> set b" and s: "s = takeWhile (\<lambda>c. c \<noteq> NUL) b"
    by (auto simp: cstr_def split: if_splits)
  have len: "length s < length b"
    unfolding s using nul by (rule length_takeWhile_less) simp
  with assms(2) have kb: "k < length b" by simp
  have "take k s = take k (take (length s) b)"
    by (simp add: s takeWhile_eq_take [symmetric])
  with assms(2) have pre: "take k b = take k s" by simp
  have "b[k := NUL] = take k s @ NUL # drop (Suc k) b"
    using kb pre by (simp add: upd_conv_take_nth_drop)
  moreover have "NUL \<notin> set (take k s)"
    unfolding s by (auto dest!: in_set_takeD set_takeWhileD)
  ultimately show ?thesis by (simp add: cstr_def takeWhile_append)
qed

text \<open>A NUL written beyond the end of the string changes nothing that is read from it.\<close>

lemma cstr_beyond:
  assumes "cstr b = Inr s" "length s \<le> k"
  shows "cstr (b[k := NUL]) = Inr s"
proof -
  from assms(1) have nul: "NUL \<in> set b" and s: "s = takeWhile (\<lambda>c. c \<noteq> NUL) b"
    by (auto simp: cstr_def split: if_splits)
  have len: "length s < length b"
    unfolding s using nul by (rule length_takeWhile_less) simp
  have b: "b = s @ NUL # drop (Suc (length s)) b"
    using nul len by (metis (mono_tags, lifting) Cons_nth_drop_Suc append_take_drop_id
        nth_length_takeWhile s takeWhile_eq_take)
  have nn: "NUL \<notin> set s" unfolding s by (auto dest: set_takeWhileD)
  show ?thesis
  proof (cases "k = length s")
    case True
    then show ?thesis using b nn
      by (metis (mono_tags, lifting) assms(1) list_update_id nth_append_length)
  next
    case False
    with assms(2) obtain j where k: "k = length s + Suc j"
      by (metis add_Suc_right le_eq_less_or_eq less_imp_Suc_add)
    have "b[k := NUL] = s @ NUL # (drop (Suc (length s)) b)[j := NUL]"
      by (subst b) (simp add: k list_update_append)
    with nn show ?thesis by (simp add: cstr_def takeWhile_append)
  qed
qed

lemma cstr_text: "NUL \<notin> set s \<Longrightarrow> cstr (s @ NUL # r) = Inr s"
  by (simp add: cstr_def)

text \<open>\<open>strtok\<close> on a word in front of the only separator, and on the last word.\<close>

lemma strtok_word:
  assumes "d \<notin> set t" and "t \<noteq> []"
  shows "strtok (t @ d # r) [d] = Some (t, r)" and "strtok t [d] = Some (t, [])"
proof -
  obtain c cs where t: "t = c # cs" and c: "c \<noteq> d" using assms by (cases t) auto
  have "takeWhile (\<lambda>c. c \<notin> set [d]) (t @ d # r) = t" "dropWhile (\<lambda>c. c \<notin> set [d]) (t @ d # r) = d # r"
    using assms(1) by simp_all
  then show "strtok (t @ d # r) [d] = Some (t, r)"
    using t c by (simp add: strtok_def)
  show "strtok t [d] = Some (t, [])"
    using t c assms(1) by (simp add: strtok_def takeWhile_eq_all_conv [THEN iffD2] dropWhile_eq_Nil_conv [THEN iffD2])
qed

subsection \<open>Lines\<close>

lemma get_line_newline:
  "NL \<notin> set l \<Longrightarrow> length l < n \<Longrightarrow> get_line n (l @ NL # r) = (l @ [NL], r)"
proof (induction l arbitrary: n)
  case Nil
  then show ?case by (cases n) auto
next
  case (Cons c l)
  then show ?case by (cases n) auto
qed

lemma get_line_length: "length (fst (get_line n s)) \<le> n"
  by (induction n s rule: get_line.induct) (auto split: prod.splits)

lemma fgets_ok: "n \<le> length buf \<Longrightarrow> 0 < n \<Longrightarrow> is_ok (fgets buf n w)"
proof -
  assume n: "n \<le> length buf" "0 < n"
  have "length (fst (get_line (n - 1) (stdin w))) < length buf"
    using get_line_length [of "n - 1" "stdin w"] n by linarith
  then show ?thesis
    by (auto simp: fgets_def put_str_def split: prod.splits)
qed

lemma fgets_length: "fgets buf n w = Inr (ok, buf', w') \<Longrightarrow> length buf' = length buf"
  by (auto simp: fgets_def split: if_splits prod.splits dest: put_str_length)

lemma fgets_stdout: "fgets buf n w = Inr (ok, buf', w') \<Longrightarrow> stdout w' = stdout w"
  by (auto simp: fgets_def split: if_splits prod.splits)

lemma fgets_newline:
  assumes "stdin w = l @ NL # r" "NL \<notin> set l" "Suc (length l) < n" "n \<le> length buf"
  shows "fgets buf n w = Inr (True, l @ NL # NUL # drop (Suc (Suc (length l))) buf, w\<lparr>stdin := r\<rparr>)"
  using assms by (simp add: fgets_def get_line_newline put_str_def)

lemma scanf_s_length: "scanf_s b w = Inr (b', w') \<Longrightarrow> length b' = length b"
  by (auto simp: scanf_s_def Let_def split: if_splits dest: put_str_length)

subsection \<open>Decimal numbers\<close>

lemma of_char_digit_char: "d < 10 \<Longrightarrow> (of_char (digit_char d) :: nat) = 48 + d"
  by (simp add: digit_char_def of_char_of)

lemma digit_val_digit_char [simp]: "d < 10 \<Longrightarrow> digit_val (digit_char d) = d"
  by (simp add: digit_val_def of_char_digit_char)

lemma isdigit_digit_char [simp]: "d < 10 \<Longrightarrow> isdigit (digit_char d)"
  by (simp add: isdigit_def of_char_digit_char)

lemma dec_val_Nil [simp]: "dec_val [] = 0"
  by (simp add: dec_val_def)

lemma dec_val_snoc [simp]: "dec_val (s @ [c]) = 10 * dec_val s + digit_val c"
  by (simp add: dec_val_def)

lemma dec_val_show_nat [simp]: "dec_val (show_nat n) = n"
proof (induction n rule: show_nat.induct)
  case (1 n)
  show ?case
  proof (cases "n < 10")
    case True
    then show ?thesis by (simp add: show_nat.simps [of n] dec_val_def)
  next
    case False
    with 1 show ?thesis by (simp add: show_nat.simps [of n])
  qed
qed

lemma show_nat_digits: "\<forall>c \<in> set (show_nat n). isdigit c"
proof (induction n rule: show_nat.induct)
  case (1 n)
  then show ?case by (cases "n < 10") (auto simp: show_nat.simps [of n])
qed

lemma show_nat_nonempty [simp]: "show_nat n \<noteq> []"
  by (simp add: show_nat.simps [of n])

lemma isdigit_not_space: "isdigit c \<Longrightarrow> \<not> isspace c"
  by (auto simp: isdigit_def isspace_def)

lemma isdigit_not_sign: "isdigit c \<Longrightarrow> c \<noteq> CHR ''-'' \<and> c \<noteq> CHR ''+''"
  by (auto simp: isdigit_def)

lemma isdigit_not_dot: "isdigit c \<Longrightarrow> c \<noteq> CHR ''.''"
  by (auto simp: isdigit_def)

lemma takeWhile_show_nat:
  assumes "r = [] \<or> \<not> isdigit (hd r)"
  shows "takeWhile isdigit (show_nat n @ r) = show_nat n"
    and "dropWhile isdigit (show_nat n @ r) = r"
  using assms show_nat_digits [of n] by (cases r; simp add: takeWhile_append dropWhile_append)+

lemma show_nat_hd: "\<exists>c cs. show_nat n = c # cs \<and> isdigit c"
  using show_nat_digits [of n] show_nat_nonempty [of n] by (cases "show_nat n") auto

text \<open>Reading back what \<open>%d\<close> printed gives the same number.\<close>

lemma scan_int_show_int:
  assumes "r = [] \<or> \<not> isdigit (hd r)"
  shows "scan_int (show_int x @ r) = (Some x, r)"
proof (cases "x < 0")
  case True
  then show ?thesis
    using takeWhile_show_nat [OF assms, of "nat (- x)"]
    by (simp add: scan_int_def show_int_def scan_sign_def isspace_def)
next
  case False
  obtain c cs where c: "show_nat (nat x) = c # cs" "isdigit c"
    using show_nat_hd by blast
  have "scan_sign (dropWhile isspace (show_nat (nat x) @ r)) = (False, show_nat (nat x) @ r)"
    using c isdigit_not_space [OF c(2)] isdigit_not_sign [OF c(2)]
    by (simp add: scan_sign_def)
  then show ?thesis
    using False takeWhile_show_nat [OF assms, of "nat x"] by (simp add: scan_int_def show_int_def)
qed

text \<open>Every \<open>int\<close> prints as at most eleven characters.\<close>

lemma show_nat_length: "n < 10 ^ k \<Longrightarrow> 0 < k \<Longrightarrow> length (show_nat n) \<le> k"
proof (induction k arbitrary: n)
  case 0
  then show ?case by simp
next
  case (Suc k)
  show ?case
  proof (cases "n < 10")
    case True
    then show ?thesis by (simp add: show_nat.simps [of n])
  next
    case False
    then have k: "0 < k" using Suc.prems by (cases k) auto
    have "n div 10 < 10 ^ k" using Suc.prems by (simp add: less_mult_imp_div_less)
    from Suc.IH [OF this k] False show ?thesis by (simp add: show_nat.simps [of n])
  qed
qed

lemma show_int_no_NUL: "NUL \<notin> set (show_int x)"
  using show_nat_digits [of "nat x"] show_nat_digits [of "nat (- x)"]
  by (auto simp: show_int_def NUL_def isdigit_def)

lemma show_int_length: "in_int i \<Longrightarrow> length (show_int i) \<le> 11"
proof -
  assume "in_int i"
  then have "nat i < 10 ^ 10" "nat (- i) < 10 ^ 10" by (auto simp: c_arith)
  then have "length (show_nat (nat i)) \<le> 10" "length (show_nat (nat (- i))) \<le> 10"
    by (auto intro: show_nat_length)
  then show ?thesis by (simp add: show_int_def)
qed

lemma atoi_show_int: "in_int x \<Longrightarrow> atoi (show_int x) = Inr x"
  using scan_int_show_int [of "[]" x] by (simp add: atoi_def c_int_def)

end
