(* ===== verification/Contact.thy ===== *)
theory Contact
  imports C_Stdio
begin

text \<open>
  What the three contact books of Module 2 (the array of Task 2.1, the doubly linked
  list of Tasks 4.1, 6.1 and 6.2, the search tree of Task 4.3) have in common: the structs
  \<open>Social\<close> and \<open>Contact\<close>, the dialogue that fills a contact in \<open>addContact\<close>, and the
  dialogue of \<open>editContact\<close> that rewrites the five text fields.

  An automatic variable that C leaves indeterminate is an argument of the model: a
  \<open>frame\<close> holds what the uninitialised locals of the handler happen to contain.
\<close>

section \<open>Data\<close>

definition MAX_C :: nat where
  "MAX_C = 20"

record social =
  number :: cbuf
  link :: cbuf

record contact =
  con_id :: int
  lastname :: cbuf
  firstname :: cbuf
  middlename :: cbuf
  soc :: social

record frame =
  loc_con :: contact
  loc_char :: char
  loc_int :: int
  loc_buf :: cbuf

definition put_lastname :: "cbuf \<Rightarrow> contact \<Rightarrow> contact" where
  "put_lastname b c = c\<lparr>lastname := b\<rparr>"

definition put_firstname :: "cbuf \<Rightarrow> contact \<Rightarrow> contact" where
  "put_firstname b c = c\<lparr>firstname := b\<rparr>"

definition put_middlename :: "cbuf \<Rightarrow> contact \<Rightarrow> contact" where
  "put_middlename b c = c\<lparr>middlename := b\<rparr>"

definition get_link :: "contact \<Rightarrow> cbuf" where
  "get_link c = link (soc c)"

definition put_link :: "cbuf \<Rightarrow> contact \<Rightarrow> contact" where
  "put_link b c = c\<lparr>soc := (soc c)\<lparr>link := b\<rparr>\<rparr>"

definition get_number :: "contact \<Rightarrow> cbuf" where
  "get_number c = number (soc c)"

definition put_number :: "cbuf \<Rightarrow> contact \<Rightarrow> contact" where
  "put_number b c = c\<lparr>soc := (soc c)\<lparr>number := b\<rparr>\<rparr>"

section \<open>Filling a contact\<close>

definition read_names :: "contact \<Rightarrow> io \<Rightarrow> (contact \<times> io) res" where
  "read_names c w =
     bindE (scanf_s (lastname c) (printf ''Input lastname: '' w)) (\<lambda>(b, w).
     let c = put_lastname b c in
     bindE (scanf_s (firstname c) (printf ''Input firstname: '' w)) (\<lambda>(b, w).
     let c = put_firstname b c in
     bindE (scanf_s (middlename c) (printf ''Input middlename: '' w)) (\<lambda>(b, w).
     Inr (put_middlename b c, w))))"

definition read_social :: "contact \<Rightarrow> io \<Rightarrow> (contact \<times> io) res" where
  "read_social c w =
     bindE (scanf_s (get_link c) (printf ''Input link: '' w)) (\<lambda>(b, w).
     let c = put_link b c in
     bindE (scanf_s (get_number c) (printf ''Input number: '' w)) (\<lambda>(b, w).
     Inr (put_number b c, w)))"

definition clear_social :: "contact \<Rightarrow> contact res" where
  "clear_social c =
     bindE (aset (get_link c) 0 NUL) (\<lambda>b.
     let c = put_link b c in
     bindE (aset (get_number c) 0 NUL) (\<lambda>b. Inr (put_number b c)))"

text \<open>The answer to the question is read into a \<open>char\<close> that held \<open>ch\<close> before.\<close>

definition ask_social :: "string \<Rightarrow> char \<Rightarrow> contact \<Rightarrow> io \<Rightarrow> (contact \<times> io) res" where
  "ask_social yes ch c w =
     (let (input, w) = scanf_c ch (printf ''If you want to input social data, press Y/N: '' w)
      in if input \<in> set yes then read_social c w
         else bindE (clear_social c) (\<lambda>c. Inr (c, w)))"

section \<open>Editing a contact\<close>

text \<open>
  One field: read a line into \<open>input\<close>; unless it starts with a newline, copy it into the
  field and cut the field where \<open>strcspn\<close> found the newline. \<open>scan\<close> is the buffer the
  code passes to \<open>strcspn\<close>: the field itself, or, for the first name in two of the
  programs, the last name. \<open>con\<close> is the object behind the pointer, \<open>None\<close> for a null
  pointer, which is dereferenced only when there is something to copy.
\<close>

definition edit_field ::
  "(contact \<Rightarrow> cbuf) \<Rightarrow> (cbuf \<Rightarrow> contact \<Rightarrow> contact) \<Rightarrow> (contact \<Rightarrow> cbuf) \<Rightarrow>
   contact option \<Rightarrow> cbuf \<Rightarrow> io \<Rightarrow> (contact option \<times> cbuf \<times> io) res" where
  "edit_field get put scan con input w =
     bindE (fgets input MAX_C w) (\<lambda>(_, input, w).
     bindE (aget input 0) (\<lambda>c0.
     if c0 = NL then Inr (con, input, w)
     else (case con of None \<Rightarrow> Inl NullDeref | Some c \<Rightarrow>
       bindE (strncpy (get c) input MAX_C) (\<lambda>b.
       let c = put b c in
       bindE (strcspn (scan c) [NL]) (\<lambda>k.
       bindE (aset (get c) k NUL) (\<lambda>b.
       Inr (Some (put b c), input, w)))))))"

definition edit_rest :: "contact option \<Rightarrow> cbuf \<Rightarrow> io \<Rightarrow> (contact option \<times> io) res" where
  "edit_rest con input w =
     (let w = printf (NL # ''Input new middlename(if needed): '') w in
      bindE (edit_field middlename put_middlename middlename con input w) (\<lambda>(con, input, w).
      let w = printf (NL # ''Input new link(if needed): '') w in
      bindE (edit_field get_link put_link get_link con input w) (\<lambda>(con, input, w).
      let w = printf (NL # ''Input new number(if needed): '') w in
      bindE (edit_field get_number put_number get_number con input w) (\<lambda>(con, input, w).
      Inr (con, printf (''Contact updated. '' @ [NL]) w)))))"

definition edit_fields ::
  "(contact \<Rightarrow> cbuf) \<Rightarrow> contact option \<Rightarrow> cbuf \<Rightarrow> io \<Rightarrow> (contact option \<times> io) res" where
  "edit_fields scan_first con input w =
     (let w = getchar (printf ''Input new lastname(if needed): '' w) in
      bindE (edit_field lastname put_lastname lastname con input w) (\<lambda>(con, input, w).
      let w = printf (NL # ''Input new firstname(if needed): '') w in
      bindE (edit_field firstname put_firstname scan_first con input w) (\<lambda>(con, input, w).
      edit_rest con input w)))"

section \<open>The menu\<close>

definition menu_text :: string where
  "menu_text = ''----Main Menu----'' @ [NL] @ ''1. Add Contact'' @ [NL] @ ''2. Edit Contact'' @ [NL]
     @ ''3. Delete Contact'' @ [NL] @ ''4. List Contact'' @ [NL] @ ''5. Exit'' @ [NL]"

section \<open>Well-formed contacts\<close>

text \<open>Every text field is an array of \<open>MAX\<close> characters; in a terminated contact each holds a string.\<close>

definition wf_contact :: "contact \<Rightarrow> bool" where
  "wf_contact c = (\<forall>b \<in> {lastname c, firstname c, middlename c, get_link c, get_number c}. length b = MAX_C)"

definition terminated :: "contact \<Rightarrow> bool" where
  "terminated c = (\<forall>b \<in> {lastname c, firstname c, middlename c, get_link c, get_number c}. NUL \<in> set b)"

definition wf_frame :: "frame \<Rightarrow> bool" where
  "wf_frame g = (wf_contact (loc_con g) \<and> length (loc_buf g) = MAX_C)"

definition good_line :: "string \<Rightarrow> bool" where
  "good_line l = (NL \<notin> set l \<and> NUL \<notin> set l \<and> length l < MAX_C - 1)"

text \<open>What a field holds after a line was typed for it: an empty line keeps it.\<close>

definition field_after :: "string \<Rightarrow> cbuf \<Rightarrow> cbuf \<Rightarrow> bool" where
  "field_after l old new = (if l = [] then new = old else cstr new = Inr l)"

lemmas contact_field_defs =
  put_lastname_def put_firstname_def put_middlename_def
  get_link_def put_link_def get_number_def put_number_def

section \<open>A text field of a contact\<close>

lemma wf_contact_id [simp]: "wf_contact (c\<lparr>con_id := i\<rparr>) = wf_contact c"
  by (simp add: wf_contact_def get_link_def get_number_def)

locale text_field =
  fixes get :: "contact \<Rightarrow> cbuf"
    and put :: "cbuf \<Rightarrow> contact \<Rightarrow> contact"
  assumes get_put [simp]: "get (put b c) = b"
    and put_put [simp]: "put b (put b' c) = put b c"
    and put_get [simp]: "put (get c) c = c"
    and put_id [simp]: "con_id (put b c) = con_id c"
    and get_wf: "wf_contact c \<Longrightarrow> length (get c) = MAX_C"
    and put_wf: "wf_contact c \<Longrightarrow> length b = MAX_C \<Longrightarrow> wf_contact (put b c)"
begin

lemma edit_field_wf:
  assumes "edit_field get put scan (Some c) input w = Inr (con', input', w')"
    and "wf_contact c" and "length input = MAX_C"
  shows "(\<exists>c'. con' = Some c' \<and> wf_contact c' \<and> con_id c' = con_id c) \<and> length input' = MAX_C"
  using assms get_wf put_wf
  by (auto simp: edit_field_def Let_def split: if_splits prod.splits
      dest!: fgets_length aset_length strncpy_eq_Inr)

text \<open>An empty line leaves the field as it was.\<close>

lemma edit_field_empty:
  assumes "stdin w = NL # r" and "length input = MAX_C"
  shows "edit_field get put scan con input w =
    Inr (con, NL # NUL # drop 2 input, w\<lparr>stdin := r\<rparr>)"
  using assms fgets_newline [of w "[]" r MAX_C input]
  by (simp add: edit_field_def aget_def MAX_C_def eval_nat_numeral)

text \<open>A non-empty line replaces it by the line, when the field itself is scanned.\<close>

lemma edit_field_line:
  assumes "stdin w = l @ NL # r" and "good_line l" and "l \<noteq> []"
    and "length input = MAX_C" and "wf_contact c"
  shows "\<exists>b input'. edit_field get put scan (Some c) input w =
      bindE (strcspn (scan (put b c)) [NL]) (\<lambda>k. bindE (aset b k NUL) (\<lambda>b'.
        Inr (Some (put b' c), input', w\<lparr>stdin := r\<rparr>)))
    \<and> cstr b = Inr (l @ [NL]) \<and> length b = MAX_C \<and> length input' = MAX_C"
proof -
  let ?in = "l @ NL # NUL # drop (Suc (Suc (length l))) input"
  have l: "NL \<notin> set l" "NUL \<notin> set l" "Suc (length l) < MAX_C"
    using assms(2) by (auto simp: good_line_def)
  have f: "fgets input MAX_C w = Inr (True, ?in, w\<lparr>stdin := r\<rparr>)"
    using fgets_newline [of w l r MAX_C input] assms(1,4) l by simp
  have hd: "aget ?in 0 = Inr (hd l)"
    using assms(3) by (cases l) (simp_all add: aget_def)
  have "hd l \<noteq> NL"
    using assms(3) l(1) by (cases l) auto
  note hd = hd this
  have "cstr ?in = Inr (l @ [NL])"
    using l takeWhile_until [of NUL "l @ [NL]"] by (simp add: cstr_def)
  from strncpy_cstr [OF this, of MAX_C "get c"] obtain b where
    b: "strncpy (get c) ?in MAX_C = Inr b" "cstr b = Inr (l @ [NL])" "length b = MAX_C"
    using l(3) get_wf [OF assms(5)] by auto
  have len: "length ?in = MAX_C" using l(3) assms(4) by simp
  show ?thesis
    by (rule exI [of _ b], rule exI [of _ ?in])
      (simp add: edit_field_def f hd b len [simplified] del: append.simps)
qed

lemma edit_field_replaces:
  assumes "stdin w = l @ NL # r" and "good_line l" and "l \<noteq> []"
    and "length input = MAX_C" and "wf_contact c"
  shows "\<exists>b input'. edit_field get put get (Some c) input w = Inr (Some (put b c), input', w\<lparr>stdin := r\<rparr>)
    \<and> cstr b = Inr l \<and> length b = MAX_C \<and> length input' = MAX_C"
proof -
  from edit_field_line [OF assms, of get] obtain b input' where
    e: "edit_field get put get (Some c) input w =
      bindE (strcspn b [NL]) (\<lambda>k. bindE (aset b k NUL) (\<lambda>b'.
        Inr (Some (put b' c), input', w\<lparr>stdin := r\<rparr>)))"
    and b: "cstr b = Inr (l @ [NL])" "length b = MAX_C" and len: "length input' = MAX_C"
    by auto
  have l: "NL \<notin> set l" "length l < MAX_C"
    using assms(2) by (auto simp: good_line_def)
  have "strcspn b [NL] = Inr (int (length l))"
    using l(1) by (simp add: strcspn_def b)
  with e l(2) b(2) have "edit_field get put get (Some c) input w =
      Inr (Some (put (b[length l := NUL]) c), input', w\<lparr>stdin := r\<rparr>)"
    by simp
  moreover have "cstr (b[length l := NUL]) = Inr l"
    using cstr_cut [OF b(1), of "length l"] by simp
  ultimately show ?thesis using b(2) len by auto
qed

lemma edit_field_typed:
  assumes "stdin w = l @ NL # r" and "good_line l" and "length input = MAX_C" and "wf_contact c"
  shows "\<exists>b input'. edit_field get put get (Some c) input w = Inr (Some (put b c), input', w\<lparr>stdin := r\<rparr>)
    \<and> field_after l (get c) b \<and> length b = MAX_C \<and> length input' = MAX_C"
proof (cases "l = []")
  case True
  have e: "edit_field get put get (Some c) input w = Inr (Some c, NL # NUL # drop 2 input, w\<lparr>stdin := r\<rparr>)"
    using True assms(1,3) by (intro edit_field_empty) simp_all
  show ?thesis
    by (rule exI [of _ "get c"], rule exI [of _ "NL # NUL # drop 2 input"])
      (use True assms(3) in \<open>simp add: e field_after_def MAX_C_def get_wf [OF assms(4), unfolded MAX_C_def]\<close>)
next
  case False
  from edit_field_replaces [OF assms(1,2) False assms(3,4)] False show ?thesis
    by (auto simp: field_after_def)
qed

text \<open>
  When another buffer is scanned, the field is cut at the length of the text there.
\<close>

lemma edit_field_cut_elsewhere:
  assumes "stdin w = l @ NL # r" and "good_line l" and "l \<noteq> []"
    and "length input = MAX_C" and "wf_contact c"
    and "\<And>b. cstr (scan (put b c)) = Inr s" and "NL \<notin> set s" and "length s < MAX_C"
  shows "\<exists>b input'. edit_field get put scan (Some c) input w = Inr (Some (put b c), input', w\<lparr>stdin := r\<rparr>)
    \<and> cstr b = Inr (take (length s) (l @ [NL])) \<and> length b = MAX_C \<and> length input' = MAX_C"
proof -
  from edit_field_line [OF assms(1-5), of scan] obtain b input' where
    e: "edit_field get put scan (Some c) input w =
      bindE (strcspn (scan (put b c)) [NL]) (\<lambda>k. bindE (aset b k NUL) (\<lambda>b'.
        Inr (Some (put b' c), input', w\<lparr>stdin := r\<rparr>)))"
    and b: "cstr b = Inr (l @ [NL])" "length b = MAX_C" and len: "length input' = MAX_C"
    by auto
  have "strcspn (scan (put b c)) [NL] = Inr (int (length s))"
    using assms(7) by (simp add: strcspn_def assms(6))
  with e assms(8) b(2) have "edit_field get put scan (Some c) input w =
      Inr (Some (put (b[length s := NUL]) c), input', w\<lparr>stdin := r\<rparr>)"
    by simp
  moreover have "cstr (b[length s := NUL]) = Inr (take (length s) (l @ [NL]))"
  proof (cases "length s \<le> length (l @ [NL])")
    case True
    then show ?thesis using cstr_cut [OF b(1)] by simp
  next
    case False
    then show ?thesis using b(1) by (simp add: cstr_beyond)
  qed
  ultimately show ?thesis using b(2) len by auto
qed

end

interpretation lastname: text_field lastname put_lastname
  by unfold_locales (auto simp: wf_contact_def contact_field_defs)

interpretation firstname: text_field firstname put_firstname
  by unfold_locales (auto simp: wf_contact_def contact_field_defs)

interpretation middlename: text_field middlename put_middlename
  by unfold_locales (auto simp: wf_contact_def contact_field_defs)

interpretation link: text_field get_link put_link
  by unfold_locales (auto simp: wf_contact_def contact_field_defs)

interpretation number: text_field get_number put_number
  by unfold_locales (auto simp: wf_contact_def contact_field_defs)

section \<open>The whole dialogue\<close>

lemma other_fields [simp]:
  "lastname (put_firstname b c) = lastname c" "lastname (put_middlename b c) = lastname c"
  "lastname (put_link b c) = lastname c" "lastname (put_number b c) = lastname c"
  "firstname (put_lastname b c) = firstname c" "firstname (put_middlename b c) = firstname c"
  "firstname (put_link b c) = firstname c" "firstname (put_number b c) = firstname c"
  "middlename (put_lastname b c) = middlename c" "middlename (put_firstname b c) = middlename c"
  "middlename (put_link b c) = middlename c" "middlename (put_number b c) = middlename c"
  "get_link (put_lastname b c) = get_link c" "get_link (put_firstname b c) = get_link c"
  "get_link (put_middlename b c) = get_link c" "get_link (put_number b c) = get_link c"
  "get_number (put_lastname b c) = get_number c" "get_number (put_firstname b c) = get_number c"
  "get_number (put_middlename b c) = get_number c" "get_number (put_link b c) = get_number c"
  by (simp_all add: contact_field_defs)

lemma printf_stdin [simp]: "stdin (printf s w) = stdin w"
  by (simp add: printf_def)

lemma getchar_stdin [simp]: "stdin (getchar w) = drop 1 (stdin w)"
  by (simp add: getchar_def)

lemmas text_field_wf =
  lastname.put_wf firstname.put_wf middlename.put_wf link.put_wf number.put_wf

lemma edit_fields_wf:
  assumes "edit_fields scan (Some c) input w = Inr (con', w')"
    and "wf_contact c" and "length input = MAX_C"
  shows "\<exists>c'. con' = Some c' \<and> wf_contact c' \<and> con_id c' = con_id c"
proof -
  from assms(1) obtain c1 i1 w1 c2 i2 w2 c3 i3 w3 c4 i4 w4 i5 w5 v1 v2 v3 v4 v5 where
    e: "edit_field lastname put_lastname lastname (Some c) input v1 = Inr (c1, i1, w1)"
      "edit_field firstname put_firstname scan c1 i1 v2 = Inr (c2, i2, w2)"
      "edit_field middlename put_middlename middlename c2 i2 v3 = Inr (c3, i3, w3)"
      "edit_field get_link put_link get_link c3 i3 v4 = Inr (c4, i4, w4)"
      "edit_field get_number put_number get_number c4 i4 v5 = Inr (con', i5, w5)"
    by (auto simp: edit_fields_def edit_rest_def Let_def split: prod.splits)
  from lastname.edit_field_wf [OF e(1) assms(2,3)] obtain d1 where
    1: "c1 = Some d1" "wf_contact d1" "con_id d1 = con_id c" "length i1 = MAX_C" by auto
  from firstname.edit_field_wf [OF e(2) [unfolded 1(1)] 1(2,4)] obtain d2 where
    2: "c2 = Some d2" "wf_contact d2" "con_id d2 = con_id d1" "length i2 = MAX_C" by auto
  from middlename.edit_field_wf [OF e(3) [unfolded 2(1)] 2(2,4)] obtain d3 where
    3: "c3 = Some d3" "wf_contact d3" "con_id d3 = con_id d2" "length i3 = MAX_C" by auto
  from link.edit_field_wf [OF e(4) [unfolded 3(1)] 3(2,4)] obtain d4 where
    4: "c4 = Some d4" "wf_contact d4" "con_id d4 = con_id d3" "length i4 = MAX_C" by auto
  from number.edit_field_wf [OF e(5) [unfolded 4(1)] 4(2,4)] show ?thesis
    using 1 2 3 4 by auto
qed

lemma edit_rest_typed:
  assumes "stdin w = l3 @ NL # l4 @ NL # l5 @ NL # r"
    and "good_line l3" "good_line l4" "good_line l5"
    and "length input = MAX_C" and "wf_contact c"
  shows "\<exists>b3 b4 b5 w'. edit_rest (Some c) input w =
      Inr (Some (put_number b5 (put_link b4 (put_middlename b3 c))), w') \<and> stdin w' = r
    \<and> field_after l3 (middlename c) b3 \<and> field_after l4 (get_link c) b4 \<and> field_after l5 (get_number c) b5"
proof -
  let ?p = "\<lambda>s w. printf (NL # s) w"
  let ?w3 = "?p ''Input new middlename(if needed): '' w"
  let ?r3 = "l4 @ NL # l5 @ NL # r"
  have "stdin ?w3 = l3 @ NL # ?r3" using assms(1) by simp
  from middlename.edit_field_typed [OF this assms(2,5,6)] obtain b3 i3 where
    3: "edit_field middlename put_middlename middlename (Some c) input ?w3 =
        Inr (Some (put_middlename b3 c), i3, ?w3\<lparr>stdin := ?r3\<rparr>)"
      "field_after l3 (middlename c) b3" "length b3 = MAX_C" "length i3 = MAX_C" by auto
  let ?c3 = "put_middlename b3 c"
  let ?w4 = "?p ''Input new link(if needed): '' (?w3\<lparr>stdin := ?r3\<rparr>)"
  have wf3: "wf_contact ?c3" using assms(6) 3(3) by (rule middlename.put_wf)
  have "stdin ?w4 = l4 @ NL # l5 @ NL # r" by simp
  from link.edit_field_typed [OF this assms(3) 3(4) wf3] obtain b4 i4 where
    4: "edit_field get_link put_link get_link (Some ?c3) i3 ?w4 =
        Inr (Some (put_link b4 ?c3), i4, ?w4\<lparr>stdin := l5 @ NL # r\<rparr>)"
      "field_after l4 (get_link ?c3) b4" "length b4 = MAX_C" "length i4 = MAX_C" by auto
  let ?c4 = "put_link b4 ?c3"
  let ?w5 = "?p ''Input new number(if needed): '' (?w4\<lparr>stdin := l5 @ NL # r\<rparr>)"
  have wf4: "wf_contact ?c4" using wf3 4(3) by (rule link.put_wf)
  have "stdin ?w5 = l5 @ NL # r" by simp
  from number.edit_field_typed [OF this assms(4) 4(4) wf4] obtain b5 i5 where
    5: "edit_field get_number put_number get_number (Some ?c4) i4 ?w5 =
        Inr (Some (put_number b5 ?c4), i5, ?w5\<lparr>stdin := r\<rparr>)"
      "field_after l5 (get_number ?c4) b5" by auto
  show ?thesis
    using 3(2) 4(2) 5(2) by (auto simp: edit_rest_def Let_def 3(1) 4(1) 5(1))
qed

lemma edit_lastname_typed:
  assumes "stdin w = c0 # l1 @ NL # r" and "good_line l1" and "length input = MAX_C" and "wf_contact c"
  shows "\<exists>b1 i1 w1. edit_field lastname put_lastname lastname (Some c) input
      (getchar (printf ''Input new lastname(if needed): '' w)) = Inr (Some (put_lastname b1 c), i1, w1)
    \<and> stdin w1 = r \<and> field_after l1 (lastname c) b1 \<and> length b1 = MAX_C \<and> length i1 = MAX_C"
  using lastname.edit_field_typed [OF _ assms(2,3,4), of "getchar (printf _ w)" r] assms(1) by fastforce

lemma edit_fields_typed:
  assumes "stdin w = c0 # l1 @ NL # l2 @ NL # l3 @ NL # l4 @ NL # l5 @ NL # r"
    and "good_line l1" "good_line l2" "good_line l3" "good_line l4" "good_line l5"
    and "length input = MAX_C" and "wf_contact c"
  shows "\<exists>c' w'. edit_fields firstname (Some c) input w = Inr (Some c', w') \<and> stdin w' = r
    \<and> con_id c' = con_id c
    \<and> field_after l1 (lastname c) (lastname c') \<and> field_after l2 (firstname c) (firstname c')
    \<and> field_after l3 (middlename c) (middlename c')
    \<and> field_after l4 (get_link c) (get_link c') \<and> field_after l5 (get_number c) (get_number c')"
proof -
  let ?r2 = "l3 @ NL # l4 @ NL # l5 @ NL # r"
  from edit_lastname_typed [OF assms(1,2,7,8)] obtain b1 i1 w1 where
    1: "edit_field lastname put_lastname lastname (Some c) input
        (getchar (printf ''Input new lastname(if needed): '' w)) = Inr (Some (put_lastname b1 c), i1, w1)"
      "stdin w1 = l2 @ NL # ?r2" "field_after l1 (lastname c) b1" "length b1 = MAX_C" "length i1 = MAX_C"
    by blast
  let ?c1 = "put_lastname b1 c"
  let ?w2 = "printf (NL # ''Input new firstname(if needed): '') w1"
  have wf1: "wf_contact ?c1" using assms(8) 1(4) by (rule lastname.put_wf)
  have "stdin ?w2 = l2 @ NL # ?r2" using 1(2) by simp
  from firstname.edit_field_typed [OF this assms(3) 1(5) wf1] obtain b2 i2 where
    2: "edit_field firstname put_firstname firstname (Some ?c1) i1 ?w2 =
        Inr (Some (put_firstname b2 ?c1), i2, ?w2\<lparr>stdin := ?r2\<rparr>)"
      "field_after l2 (firstname ?c1) b2" "length b2 = MAX_C" "length i2 = MAX_C" by auto
  have wf2: "wf_contact (put_firstname b2 ?c1)" using wf1 2(3) by (rule firstname.put_wf)
  have "stdin (?w2\<lparr>stdin := ?r2\<rparr>) = ?r2" by simp
  from edit_rest_typed [OF this assms(4-6) 2(4) wf2] 1(3) 2(2) show ?thesis
    by (auto simp: edit_fields_def Let_def 1(1) 2(1))
qed

subsection \<open>Filling a contact keeps it well-formed\<close>

lemma read_names_wf:
  assumes "read_names c w = Inr (c', w')" and "wf_contact c"
  shows "wf_contact c' \<and> con_id c' = con_id c"
  using assms text_field_wf lastname.get_wf firstname.get_wf middlename.get_wf
  by (auto simp: read_names_def Let_def split: prod.splits dest!: scanf_s_length)

lemma read_social_wf:
  assumes "read_social c w = Inr (c', w')" and "wf_contact c"
  shows "wf_contact c' \<and> con_id c' = con_id c"
  using assms text_field_wf link.get_wf number.get_wf
  by (auto simp: read_social_def Let_def split: prod.splits dest!: scanf_s_length)

lemma clear_social_wf:
  assumes "clear_social c = Inr c'" and "wf_contact c"
  shows "wf_contact c' \<and> con_id c' = con_id c"
  using assms text_field_wf link.get_wf number.get_wf
  by (auto simp: clear_social_def Let_def dest!: aset_length)

lemma ask_social_wf:
  assumes "ask_social yes ch c w = Inr (c', w')" and "wf_contact c"
  shows "wf_contact c' \<and> con_id c' = con_id c"
  using assms by (auto simp: ask_social_def split: if_splits prod.splits
      dest: read_social_wf clear_social_wf)

lemma edit_field_null:
  "edit_field get put scan None input w = Inr (con', input', w') \<Longrightarrow> con' = None"
  by (auto simp: edit_field_def split: if_splits prod.splits)

lemma edit_fields_null: "edit_fields scan None input w = Inr (con', w') \<Longrightarrow> con' = None"
  by (auto simp: edit_fields_def edit_rest_def Let_def split: prod.splits dest!: edit_field_null)

text \<open>
  The dialogue when the first name is cut where the last name ends: every other field is
  as typed, the first name is the typed line with its newline, cut at that length.
\<close>

lemma edit_fields_firstname_cut:
  assumes "stdin w = c0 # l1 @ NL # l2 @ NL # l3 @ NL # l4 @ NL # l5 @ NL # r"
    and "good_line l1" "good_line l2" "good_line l3" "good_line l4" "good_line l5"
    and "length input = MAX_C" and "wf_contact c"
    and "l2 \<noteq> []" and "cstr (lastname c) = Inr s0" and "NL \<notin> set s0"
  shows "\<exists>c' w'. edit_fields lastname (Some c) input w = Inr (Some c', w') \<and> stdin w' = r
    \<and> con_id c' = con_id c \<and> field_after l1 (lastname c) (lastname c')
    \<and> cstr (firstname c') = Inr (take (length (if l1 = [] then s0 else l1)) (l2 @ [NL]))"
proof -
  let ?r2 = "l3 @ NL # l4 @ NL # l5 @ NL # r"
  let ?s = "if l1 = [] then s0 else l1"
  from edit_lastname_typed [OF assms(1,2,7,8)] obtain b1 i1 w1 where
    1: "edit_field lastname put_lastname lastname (Some c) input
        (getchar (printf ''Input new lastname(if needed): '' w)) = Inr (Some (put_lastname b1 c), i1, w1)"
      "stdin w1 = l2 @ NL # ?r2" "field_after l1 (lastname c) b1" "length b1 = MAX_C" "length i1 = MAX_C"
    by blast
  let ?c1 = "put_lastname b1 c"
  let ?w2 = "printf (NL # ''Input new firstname(if needed): '') w1"
  have wf1: "wf_contact ?c1" using assms(8) 1(4) by (rule lastname.put_wf)
  have s: "cstr b1 = Inr ?s" using 1(3) assms(10) by (auto simp: field_after_def)
  have nl: "NL \<notin> set ?s" using assms(2,11) by (auto simp: good_line_def)
  have len: "length ?s < MAX_C" using cstr_length [OF s] 1(4) by simp
  have scan: "\<And>b. cstr (lastname (put_firstname b ?c1)) = Inr ?s" using s by simp
  have "stdin ?w2 = l2 @ NL # ?r2" using 1(2) by simp
  from firstname.edit_field_cut_elsewhere [where scan = lastname, OF this assms(3,9) 1(5) wf1 scan nl len]
  obtain b2 i2 where
    2: "edit_field firstname put_firstname lastname (Some ?c1) i1 ?w2 =
        Inr (Some (put_firstname b2 ?c1), i2, ?w2\<lparr>stdin := ?r2\<rparr>)"
      "cstr b2 = Inr (take (length ?s) (l2 @ [NL]))" "length b2 = MAX_C" "length i2 = MAX_C" by blast
  have wf2: "wf_contact (put_firstname b2 ?c1)" using wf1 2(3) by (rule firstname.put_wf)
  have "stdin (?w2\<lparr>stdin := ?r2\<rparr>) = ?r2" by simp
  from edit_rest_typed [OF this assms(4-6) 2(4) wf2] 1(3) 2(2) show ?thesis
    by (auto simp: edit_fields_def Let_def 1(1) 2(1))
qed

text \<open>A null pointer survives the first prompt only if the line typed there is empty.\<close>

lemma edit_fields_null_deref:
  assumes "stdin w = c0 # l @ NL # r" and "good_line l" and "l \<noteq> []" and "length input = MAX_C"
  shows "edit_fields scan None input w = Inl NullDeref"
proof -
  let ?w = "getchar (printf ''Input new lastname(if needed): '' w)"
  have "stdin ?w = l @ NL # r" using assms(1) by simp
  moreover have "NL \<notin> set l" "Suc (length l) < MAX_C" using assms(2) by (auto simp: good_line_def)
  ultimately have f: "fgets input MAX_C ?w =
      Inr (True, l @ NL # NUL # drop (Suc (Suc (length l))) input, ?w\<lparr>stdin := r\<rparr>)"
    using fgets_newline [of ?w l r MAX_C input] assms(4) by simp
  have "aget (l @ NL # NUL # drop (Suc (Suc (length l))) input) 0 = Inr (hd l)"
    using assms(3) by (cases l) (simp_all add: aget_def)
  moreover have "hd l \<noteq> NL"
    using assms(3) \<open>NL \<notin> set l\<close> by (cases l) auto
  ultimately show ?thesis using f
    by (simp add: edit_fields_def edit_field_def Let_def)
qed

section \<open>An empty frame, for examples\<close>

definition blank_contact :: contact where
  "blank_contact = \<lparr>con_id = 0, lastname = replicate 20 NUL, firstname = replicate 20 NUL,
     middlename = replicate 20 NUL, soc = \<lparr>number = replicate 20 NUL, link = replicate 20 NUL\<rparr>\<rparr>"

definition blank_frame :: frame where
  "blank_frame = \<lparr>loc_con = blank_contact, loc_char = NUL, loc_int = 0, loc_buf = replicate 20 NUL\<rparr>"

lemma blank_wf [simp]: "wf_contact blank_contact"
  by (simp add: wf_contact_def blank_contact_def get_link_def get_number_def MAX_C_def)

end
