(* ===== verification/Contact_Store.thy ===== *)
theory Contact_Store
  imports Contact
begin

text \<open>
  What a contact book that keeps its contacts ordered by id promises: the abstract state
  is the ordered list of contacts, adding a contact with a new id puts it in its place,
  removing an id drops its contact, looking an id up finds its contact. The locale
  \<open>contact_store\<close> states these laws; the linked list (Tasks 4.1, 6.1, 6.2) and the search
  tree (Task 4.3) are its interpretations. Everything a user of a book relies on is proved
  once, here.
\<close>

section \<open>Ordered lists of contacts\<close>

definition ordered :: "contact list \<Rightarrow> bool" where
  "ordered cs = sorted_wrt (\<lambda>a b. con_id a < con_id b) cs"

definition ids :: "contact list \<Rightarrow> int set" where
  "ids cs = con_id ` set cs"

definition add_sorted :: "contact \<Rightarrow> contact list \<Rightarrow> contact list" where
  "add_sorted c cs = filter (\<lambda>d. con_id d < con_id c) cs @ c # filter (\<lambda>d. con_id c < con_id d) cs"

definition drop_id :: "int \<Rightarrow> contact list \<Rightarrow> contact list" where
  "drop_id i cs = filter (\<lambda>d. con_id d \<noteq> i) cs"

definition find_id :: "int \<Rightarrow> contact list \<Rightarrow> contact option" where
  "find_id i cs = find (\<lambda>d. con_id d = i) cs"

text \<open>A session with a book: a sequence of additions and removals, and its effect.\<close>

datatype book_op = Add contact | Remove int

fun spec_run :: "book_op list \<Rightarrow> contact list \<Rightarrow> contact list option" where
  "spec_run [] cs = Some cs"
| "spec_run (Add c # ops) cs =
     (if con_id c \<in> ids cs then None else spec_run ops (add_sorted c cs))"
| "spec_run (Remove i # ops) cs =
     (if i \<in> ids cs then spec_run ops (drop_id i cs) else None)"

fun run_ops :: "(contact \<Rightarrow> 's \<Rightarrow> 's res) \<Rightarrow> (int \<Rightarrow> 's \<Rightarrow> 's res) \<Rightarrow> book_op list \<Rightarrow> 's \<Rightarrow> 's res" where
  "run_ops ins del [] s = Inr s"
| "run_ops ins del (Add c # ops) s = bindE (ins c s) (run_ops ins del ops)"
| "run_ops ins del (Remove i # ops) s = bindE (del i s) (run_ops ins del ops)"

lemma ordered_simps [simp]:
  "ordered []"
  "ordered (c # cs) \<longleftrightarrow> (\<forall>d \<in> set cs. con_id c < con_id d) \<and> ordered cs"
  "ordered (as @ bs) \<longleftrightarrow> ordered as \<and> ordered bs \<and> (\<forall>a \<in> set as. \<forall>b \<in> set bs. con_id a < con_id b)"
  by (auto simp: ordered_def sorted_wrt_append)

lemma ordered_filter [simp]: "ordered cs \<Longrightarrow> ordered (filter P cs)"
  by (simp add: ordered_def sorted_wrt_filter)

lemma ordered_add_sorted [simp]: "ordered cs \<Longrightarrow> ordered (add_sorted c cs)"
  by (auto simp: add_sorted_def)

lemma ordered_drop_id [simp]: "ordered cs \<Longrightarrow> ordered (drop_id i cs)"
  by (simp add: drop_id_def)

lemma ordered_map: "map con_id as = map con_id bs \<Longrightarrow> ordered as = ordered bs"
proof -
  have "ordered cs = sorted_wrt (<) (map con_id cs)" for cs
    by (simp add: ordered_def sorted_wrt_map)
  then show "map con_id as = map con_id bs \<Longrightarrow> ordered as = ordered bs" by simp
qed

lemma ids_simps [simp]:
  "ids [] = {}" "ids (c # cs) = insert (con_id c) (ids cs)" "ids (as @ bs) = ids as \<union> ids bs"
  by (auto simp: ids_def)

lemma ids_add_sorted: "con_id c \<notin> ids cs \<Longrightarrow> ids (add_sorted c cs) = insert (con_id c) (ids cs)"
  by (auto simp: ids_def add_sorted_def)

lemma ids_drop_id: "ids (drop_id i cs) = ids cs - {i}"
  by (auto simp: ids_def drop_id_def)

lemma drop_id_absent [simp]: "i \<notin> ids cs \<Longrightarrow> drop_id i cs = cs"
  by (induction cs) (auto simp: drop_id_def)

lemma find_id_simps [simp]:
  "find_id i [] = None"
  "find_id i (c # cs) = (if con_id c = i then Some c else find_id i cs)"
  "find_id i (as @ bs) = (case find_id i as of None \<Rightarrow> find_id i bs | Some c \<Rightarrow> Some c)"
  by (simp_all add: find_id_def find_append split: option.split)

lemma find_id_None: "find_id i cs = None \<longleftrightarrow> i \<notin> ids cs"
  by (auto simp: find_id_def find_None_iff ids_def)

lemma find_id_filter: "find_id i (filter P cs) =
  find (\<lambda>d. con_id d = i \<and> P d) cs"
  by (induction cs) (auto simp: find_id_def)

lemma find_id_add_sorted:
  assumes "con_id c \<notin> ids cs"
  shows "find_id i (add_sorted c cs) = (if i = con_id c then Some c else find_id i cs)"
proof (cases "i = con_id c")
  case True
  have "find_id i (filter (\<lambda>d. con_id d < con_id c) cs) = None"
    by (auto simp: True find_id_None ids_def)
  with True show ?thesis by (simp add: add_sorted_def)
next
  case False
  have "find_id i (filter P cs) = (if i < con_id c then find_id i cs else None)"
    if "P = (\<lambda>d. con_id d < con_id c)" for P
    by (induction cs) (auto simp: that)
  moreover have "find_id i (filter P cs) = (if con_id c < i then find_id i cs else None)"
    if "P = (\<lambda>d. con_id c < con_id d)" for P
    by (induction cs) (auto simp: that)
  ultimately show ?thesis
    using False by (auto simp: add_sorted_def split: option.splits)
qed

lemma find_id_drop_id: "find_id i (drop_id j cs) = (if i = j then None else find_id i cs)"
  by (induction cs) (auto simp: drop_id_def)

lemma filter_none: "(\<And>x. x \<in> set xs \<Longrightarrow> \<not> P x) \<Longrightarrow> filter P xs = []"
  by (induction xs) auto

lemma filter_all: "(\<And>x. x \<in> set xs \<Longrightarrow> P x) \<Longrightarrow> filter P xs = xs"
  by (induction xs) auto

lemma split_ordered:
  "ordered cs \<Longrightarrow> i \<notin> ids cs \<Longrightarrow>
    filter (\<lambda>d. con_id d < i) cs @ filter (\<lambda>d. i < con_id d) cs = cs"
proof (induction cs)
  case Nil
  then show ?case by simp
next
  case (Cons c cs)
  show ?case
  proof (cases "con_id c < i")
    case True
    with Cons show ?thesis by auto
  next
    case False
    with Cons.prems have lt: "i < con_id c" by auto
    with Cons.prems have "\<forall>d \<in> set cs. i < con_id d" by auto
    then have "filter (\<lambda>d. con_id d < i) cs = []" "filter (\<lambda>d. i < con_id d) cs = cs"
      by (auto intro!: filter_none filter_all)
    with lt show ?thesis by simp
  qed
qed

lemma drop_id_add_sorted:
  assumes "ordered cs" and "con_id c \<notin> ids cs"
  shows "drop_id (con_id c) (add_sorted c cs) = cs"
proof -
  have "drop_id (con_id c) (add_sorted c cs) =
      filter (\<lambda>d. con_id d < con_id c) cs @ filter (\<lambda>d. con_id c < con_id d) cs"
    by (simp add: drop_id_def add_sorted_def)
      (rule arg_cong2 [where f = append]; rule filter_cong; auto)
  with split_ordered [OF assms] show ?thesis by simp
qed

lemma spec_run_ordered: "spec_run ops cs = Some cs' \<Longrightarrow> ordered cs \<Longrightarrow> ordered cs'"
  by (induction ops cs rule: spec_run.induct) (auto split: if_splits)

section \<open>The interface\<close>

locale contact_store =
  fixes ins :: "contact \<Rightarrow> 's \<Rightarrow> 's res"
    and del :: "int \<Rightarrow> 's \<Rightarrow> 's res"
    and look :: "int \<Rightarrow> 's \<Rightarrow> contact option"
    and contacts :: "'s \<Rightarrow> contact list"
    and invar :: "'s \<Rightarrow> bool"
    and room :: "nat \<Rightarrow> 's \<Rightarrow> bool"  \<comment> \<open>memory for so many more contacts\<close>
  assumes invar_ordered: "invar s \<Longrightarrow> ordered (contacts s)"
    and ins_new: "invar s \<Longrightarrow> room (Suc n) s \<Longrightarrow> con_id c \<notin> ids (contacts s) \<Longrightarrow>
      \<exists>s'. ins c s = Inr s' \<and> invar s' \<and> room n s' \<and> contacts s' = add_sorted c (contacts s)"
    and del_old: "invar s \<Longrightarrow> i \<in> ids (contacts s) \<Longrightarrow>
      \<exists>s'. del i s = Inr s' \<and> invar s' \<and> (\<forall>n. room n s \<longrightarrow> room n s')
        \<and> contacts s' = drop_id i (contacts s)"
    and look_find: "invar s \<Longrightarrow> look i s = find_id i (contacts s)"
    and room_Suc: "room (Suc n) s \<Longrightarrow> room n s"
begin

lemma look_after_ins:
  assumes "invar s" and "room (Suc n) s" and "con_id c \<notin> ids (contacts s)"
  shows "\<exists>s'. ins c s = Inr s' \<and> invar s' \<and>
    (\<forall>i. look i s' = (if i = con_id c then Some c else look i s))"
proof -
  from ins_new [OF assms] obtain s' where
    s': "ins c s = Inr s'" "invar s'" "contacts s' = add_sorted c (contacts s)" by blast
  have "look i s' = (if i = con_id c then Some c else look i s)" for i
    using find_id_add_sorted [OF assms(3), of i] look_find [OF assms(1), of i]
      look_find [OF s'(2), of i] s'(3) by simp
  with s'(1,2) show ?thesis by blast
qed

lemma look_after_del:
  assumes "invar s" and "i \<in> ids (contacts s)"
  shows "\<exists>s'. del i s = Inr s' \<and> invar s' \<and>
    (\<forall>j. look j s' = (if j = i then None else look j s))"
proof -
  from del_old [OF assms] obtain s' where
    s': "del i s = Inr s'" "invar s'" "contacts s' = drop_id i (contacts s)" by blast
  have "look j s' = (if j = i then None else look j s)" for j
    using find_id_drop_id [of j i "contacts s"] look_find [OF assms(1), of j]
      look_find [OF s'(2), of j] s'(3) by simp
  with s'(1,2) show ?thesis by blast
qed

lemma del_after_ins:
  assumes "invar s" and "room (Suc n) s" and "con_id c \<notin> ids (contacts s)"
  shows "\<exists>s' s''. ins c s = Inr s' \<and> del (con_id c) s' = Inr s'' \<and> invar s''
    \<and> contacts s'' = contacts s"
proof -
  from ins_new [OF assms] obtain s' where
    s': "ins c s = Inr s'" "invar s'" "contacts s' = add_sorted c (contacts s)" by blast
  then have "con_id c \<in> ids (contacts s')" by (simp add: ids_add_sorted [OF assms(3)])
  from del_old [OF s'(2) this] s' drop_id_add_sorted [OF invar_ordered [OF assms(1)] assms(3)]
  show ?thesis by auto
qed

text \<open>A whole session does to the book what it does to the list.\<close>

lemma run_refines:
  assumes "invar s" and "room (length ops) s" and "spec_run ops (contacts s) = Some cs"
  shows "\<exists>s'. run_ops ins del ops s = Inr s' \<and> invar s' \<and> contacts s' = cs"
  using assms
proof (induction ops arbitrary: s)
  case Nil
  then show ?case by simp
next
  case (Cons op ops)
  show ?case
  proof (cases op)
    case (Add c)
    with Cons.prems have "con_id c \<notin> ids (contacts s)" by (auto split: if_splits)
    with ins_new [of s "length ops" c] Cons.prems obtain s' where
      s': "ins c s = Inr s'" "invar s'" "room (length ops) s'" "contacts s' = add_sorted c (contacts s)"
      by auto
    with Cons.IH [of s'] Cons.prems Add show ?thesis by (auto split: if_splits)
  next
    case (Remove i)
    with Cons.prems have "i \<in> ids (contacts s)" by (auto split: if_splits)
    with del_old [of s i] Cons.prems room_Suc [of "length ops" s] obtain s' where
      s': "del i s = Inr s'" "invar s'" "room (length ops) s'" "contacts s' = drop_id i (contacts s)"
      by auto
    with Cons.IH [of s'] Cons.prems Remove show ?thesis by (auto split: if_splits)
  qed
qed

end

end
