(* ===== verification/Contact_Tree.thy ===== *)
theory Contact_Tree
  imports Contact_Store
begin

text \<open>
  The contact book of Module 2, Task 4.3: a binary search tree ordered by contact id.
  Every node has one owner, so a tree in memory is a value of the datatype \<open>TreeNode\<close>
  and a pointer to a node is the subtree below it. \<open>malloc\<close> may fail: its outcome is the
  flag \<open>ok\<close> of the operations that call it. Proved here: the tree stays ordered, insertion
  and deletion act on the ordered list of contacts as they should, \<open>search\<close> finds exactly
  what is stored, the \<open>return;\<close> without a value in \<open>delete\<close> is never reached from
  \<open>deleteContact\<close>, and what the menu does to all this.
\<close>

section \<open>The tree\<close>

datatype TreeNode = TNull | TNode contact TreeNode TreeNode

definition createNode_t :: "bool \<Rightarrow> contact \<Rightarrow> TreeNode" where
  "createNode_t ok newCon = (if ok then TNode newCon TNull TNull else TNull)"

fun insertNode :: "bool \<Rightarrow> TreeNode \<Rightarrow> contact \<Rightarrow> TreeNode" where
  "insertNode ok TNull newCon = createNode_t ok newCon"
| "insertNode ok (TNode c l r) newCon =
     (if con_id newCon < con_id c then TNode c (insertNode ok l newCon) r
      else if con_id newCon > con_id c then TNode c l (insertNode ok r newCon)
      else TNode c l r)"

fun search :: "TreeNode \<Rightarrow> int \<Rightarrow> TreeNode" where
  "search TNull i = TNull"
| "search (TNode c l r) i =
     (if con_id c = i then TNode c l r
      else if i < con_id c then search l i else search r i)"

fun findMin :: "TreeNode \<Rightarrow> TreeNode res" where
  "findMin TNull = Inl NullDeref"
| "findMin (TNode c l r) = (if l = TNull then Inr (TNode c l r) else findMin l)"

fun delete_t :: "TreeNode \<Rightarrow> int \<Rightarrow> TreeNode res" where
  "delete_t TNull i = Inl NoReturnValue"
| "delete_t (TNode c l r) i =
     (if i < con_id c then bindE (delete_t l i) (\<lambda>l'. Inr (TNode c l' r))
      else if i > con_id c then bindE (delete_t r i) (\<lambda>r'. Inr (TNode c l r'))
      else if l = TNull then Inr r
      else if r = TNull then Inr l
      else bindE (findMin r) (\<lambda>t. case t of TNull \<Rightarrow> Inl NullDeref
        | TNode m _ _ \<Rightarrow> bindE (delete_t r (con_id m)) (\<lambda>r'. Inr (TNode m l r'))))"

definition show_contact_t :: "contact \<Rightarrow> string res" where
  "show_contact_t c =
     bindE (cstr (lastname c)) (\<lambda>la. bindE (cstr (firstname c)) (\<lambda>fi.
     bindE (cstr (middlename c)) (\<lambda>mi. bindE (cstr (get_link c)) (\<lambda>li.
     bindE (cstr (get_number c)) (\<lambda>nu.
     Inr (''ID: '' @ show_int (con_id c) @ [NL] @ ''Lastname: '' @ la @ [NL]
       @ ''Firstname: '' @ fi @ [NL] @ ''Middlename: '' @ mi @ [NL]
       @ ''Link: '' @ li @ [NL] @ ''Number: '' @ nu @ [NL]))))))"

fun postOrderTravel :: "TreeNode \<Rightarrow> io \<Rightarrow> io res" where
  "postOrderTravel TNull w = Inr w"
| "postOrderTravel (TNode c l r) w =
     bindE (postOrderTravel l w) (\<lambda>w.
     bindE (postOrderTravel r w) (\<lambda>w.
     bindE (show_contact_t c) (\<lambda>s. Inr (printf s w))))"

section \<open>The handlers of the menu\<close>

definition addContact_t :: "frame \<Rightarrow> bool \<Rightarrow> TreeNode \<Rightarrow> io \<Rightarrow> (TreeNode \<times> io) res" where
  "addContact_t g ok root w =
     bindE (scanf_d (con_id (loc_con g)) (printf ''Input ID: '' w)) (\<lambda>(i, w).
     bindE (read_names ((loc_con g)\<lparr>con_id := i\<rparr>) w) (\<lambda>(newCon, w).
     bindE (ask_social ''Y'' (loc_char g) newCon w) (\<lambda>(newCon, w).
     Inr (insertNode ok root newCon,
          printf (NL # ''User added'' @ [NL])
            (printf (''Your id: '' @ show_int (con_id newCon) @ [NL]) w)))))"

text \<open>The stores of \<open>editContact\<close> go through the pointer \<open>search\<close> returned.\<close>

fun store_at :: "TreeNode \<Rightarrow> int \<Rightarrow> contact \<Rightarrow> TreeNode" where
  "store_at TNull i d = TNull"
| "store_at (TNode c l r) i d =
     (if con_id c = i then TNode d l r
      else if i < con_id c then TNode c (store_at l i d) r else TNode c l (store_at r i d))"

definition pointee :: "TreeNode \<Rightarrow> contact option" where
  "pointee t = (case t of TNull \<Rightarrow> None | TNode c _ _ \<Rightarrow> Some c)"

definition editContact_t :: "frame \<Rightarrow> TreeNode \<Rightarrow> io \<Rightarrow> (TreeNode \<times> io) res" where
  "editContact_t g root w =
     bindE (scanf_d (loc_int g) (printf ''Input id which contact you want to edit: '' w)) (\<lambda>(idEdit, w).
     bindE (edit_fields lastname (pointee (search root idEdit)) (loc_buf g) w) (\<lambda>(con, w).
     Inr (case con of None \<Rightarrow> root | Some d \<Rightarrow> store_at root idEdit d, w)))"

definition deleteContact_t :: "frame \<Rightarrow> TreeNode \<Rightarrow> io \<Rightarrow> (TreeNode \<times> io) res" where
  "deleteContact_t g root w =
     bindE (scanf_d (loc_int g) (printf ''Input id which contact you want to delete: '' w)) (\<lambda>(idDelete, w).
     if search root idDelete \<noteq> TNull
     then bindE (delete_t root idDelete) (\<lambda>root.
       Inr (root, printf (''Contact with id '' @ show_int idDelete @ '' deleted.'' @ [NL]) w))
     else Inr (root, printf (''Contact not found.'' @ [NL]) w))"

definition listContact_t :: "TreeNode \<Rightarrow> io \<Rightarrow> io res" where
  "listContact_t root w =
     (if root = TNull then Inr (printf (''Contact list is empty.'' @ [NL]) w)
      else postOrderTravel root (printf (''-----Contact list-----'' @ [NL]) w))"

definition switch_t :: "frame \<Rightarrow> bool \<Rightarrow> int \<Rightarrow> TreeNode \<Rightarrow> io \<Rightarrow> (TreeNode \<times> io) res" where
  "switch_t g ok choice root w =
     (if choice = 1 then addContact_t g ok root w
      else if choice = 2 then editContact_t g root w
      else if choice = 3 then deleteContact_t g root w
      else if choice = 4 then bindE (listContact_t root w) (\<lambda>w. Inr (root, w))
      else Inr (root, w))"

text \<open>One round of the loop of \<open>main\<close>: the state is \<open>choice\<close>, the tree and the console.\<close>

definition main_body_t :: "frame \<Rightarrow> bool \<Rightarrow> int \<times> TreeNode \<times> io \<Rightarrow> ((int \<times> TreeNode \<times> io) \<times> bool) res" where
  "main_body_t g ok = (\<lambda>(choice, root, w).
     bindE (scanf_d choice (printf menu_text w)) (\<lambda>(choice, w).
     bindE (switch_t g ok choice root w) (\<lambda>(root, w).
     Inr ((choice, root, w), choice \<noteq> 5))))"

text \<open>
  Before the first round \<open>choice\<close> is unset; \<open>gs k\<close> and \<open>oks k\<close> are the locals of the handler and the
  result of \<open>malloc\<close> in round \<open>k\<close>.
\<close>

definition main_t :: "nat \<Rightarrow> int \<Rightarrow> (nat \<Rightarrow> frame) \<Rightarrow> (nat \<Rightarrow> bool) \<Rightarrow> io \<Rightarrow> (int \<times> TreeNode \<times> io) res" where
  "main_t fuel choice gs oks w = rounds fuel (\<lambda>k. main_body_t (gs k) (oks k)) (choice, TNull, w)"

section \<open>Ordered trees\<close>

fun inorder :: "TreeNode \<Rightarrow> contact list" where
  "inorder TNull = []"
| "inorder (TNode c l r) = inorder l @ c # inorder r"

definition search_tree :: "TreeNode \<Rightarrow> bool" where
  "search_tree t = ordered (inorder t)"

fun postorder :: "TreeNode \<Rightarrow> contact list" where
  "postorder TNull = []"
| "postorder (TNode c l r) = postorder l @ postorder r @ [c]"

definition text_of :: "contact \<Rightarrow> string" where
  "text_of c = (case show_contact_t c of Inl _ \<Rightarrow> [] | Inr s \<Rightarrow> s)"

definition tree_inv :: "TreeNode \<Rightarrow> bool" where
  "tree_inv t = (search_tree t \<and> (\<forall>c \<in> set (inorder t). wf_contact c))"

text \<open>The operations of the tree under the signature of \<open>contact_store\<close>.\<close>

definition ins_t :: "contact \<Rightarrow> TreeNode \<Rightarrow> TreeNode res" where
  "ins_t c t = Inr (insertNode True t c)"

definition del_t :: "int \<Rightarrow> TreeNode \<Rightarrow> TreeNode res" where
  "del_t i t = delete_t t i"

definition look_t :: "int \<Rightarrow> TreeNode \<Rightarrow> contact option" where
  "look_t i t = pointee (search t i)"

text \<open>A tree for the examples.\<close>

definition sample_tree :: TreeNode where
  "sample_tree = insertNode True (insertNode True (insertNode True TNull
     (blank_contact\<lparr>con_id := 5\<rparr>)) (blank_contact\<lparr>con_id := 2\<rparr>)) (blank_contact\<lparr>con_id := 9\<rparr>)"

section \<open>Lemmas on the tree\<close>

lemma search_tree_simps [simp]:
  "search_tree TNull"
  "search_tree (TNode c l r) \<longleftrightarrow> search_tree l \<and> search_tree r
     \<and> (\<forall>d \<in> set (inorder l). con_id d < con_id c) \<and> (\<forall>d \<in> set (inorder r). con_id c < con_id d)"
  by (auto simp: search_tree_def) (meson order.strict_trans)

lemma inorder_eq_Nil [simp]: "inorder t = [] \<longleftrightarrow> t = TNull"
  by (cases t) auto

subsection \<open>Insertion\<close>

lemma inorder_insertNode_new:
  "search_tree t \<Longrightarrow> con_id c \<notin> ids (inorder t) \<Longrightarrow> inorder (insertNode True t c) = add_sorted c (inorder t)"
proof (induction t)
  case TNull
  then show ?case by (simp add: createNode_t_def add_sorted_def)
next
  case (TNode d l r)
  have l: "\<And>x. x \<in> set (inorder l) \<Longrightarrow> con_id x < con_id d"
    and r: "\<And>x. x \<in> set (inorder r) \<Longrightarrow> con_id d < con_id x"
    using TNode.prems(1) by auto
  show ?case
  proof (cases "con_id c < con_id d")
    case True
    then have "filter (\<lambda>x. con_id x < con_id c) (inorder r) = []"
      and "filter (\<lambda>x. con_id c < con_id x) (inorder r) = inorder r"
      using r by (fastforce intro!: filter_none filter_all)+
    with True TNode show ?thesis by (simp add: add_sorted_def)
  next
    case False
    with TNode.prems(2) have gt: "con_id d < con_id c" by (auto simp: ids_def)
    then have "filter (\<lambda>x. con_id x < con_id c) (inorder l) = inorder l"
      and "filter (\<lambda>x. con_id c < con_id x) (inorder l) = []"
      using l by (fastforce intro!: filter_none filter_all)+
    with False gt TNode show ?thesis by (simp add: add_sorted_def)
  qed
qed

lemma insertNode_old: "search_tree t \<Longrightarrow> con_id c \<in> ids (inorder t) \<Longrightarrow> insertNode ok t c = t"
  by (induction t) (auto simp: ids_def)

lemma insertNode_fail: "insertNode False t c = t"
  by (induction t) (auto simp: createNode_t_def)

lemma insertNode_search_tree: "search_tree t \<Longrightarrow> search_tree (insertNode ok t c)"
proof (cases "ok \<and> con_id c \<notin> ids (inorder t)")
  case True
  assume "search_tree t"
  with True show ?thesis
    by (simp add: search_tree_def inorder_insertNode_new ordered_add_sorted)
next
  case False
  assume "search_tree t"
  with False show ?thesis using insertNode_old insertNode_fail by (cases ok) auto
qed

subsection \<open>Search\<close>

lemma pointee_search:
  "search_tree t \<Longrightarrow> pointee (search t i) = find (\<lambda>c. con_id c = i) (inorder t)"
proof (induction t)
  case TNull
  then show ?case by (simp add: pointee_def)
next
  case (TNode c l r)
  have "find (\<lambda>d. con_id d = i) (inorder l) = None" if "con_id c \<le> i"
    using TNode.prems that by (fastforce simp: find_None_iff)
  moreover have "find (\<lambda>d. con_id d = i) (inorder r) = None" if "i \<le> con_id c"
    using TNode.prems that by (fastforce simp: find_None_iff)
  ultimately show ?case
    using TNode by (auto simp: find_append pointee_def split: option.splits)
qed

lemma search_TNull_iff: "search_tree t \<Longrightarrow> search t i = TNull \<longleftrightarrow> i \<notin> ids (inorder t)"
proof -
  assume t: "search_tree t"
  have "search t i = TNull \<longleftrightarrow> pointee (search t i) = None"
    by (simp add: pointee_def split: TreeNode.splits)
  then show ?thesis
    using pointee_search [OF t, of i] by (auto simp: find_None_iff ids_def)
qed

subsection \<open>Deletion\<close>

lemma findMin_first:
  "t \<noteq> TNull \<Longrightarrow> \<exists>r. findMin t = Inr (TNode (hd (inorder t)) TNull r)"
  by (induction t) auto

lemma inorder_delete_t:
  "search_tree t \<Longrightarrow> i \<in> ids (inorder t) \<Longrightarrow> \<exists>t'. delete_t t i = Inr t' \<and> inorder t' = drop_id i (inorder t)"
proof (induction t arbitrary: i)
  case TNull
  then show ?case by (simp add: ids_def)
next
  case (TNode c l r)
  have l: "\<And>x. x \<in> set (inorder l) \<Longrightarrow> con_id x < con_id c"
    and r: "\<And>x. x \<in> set (inorder r) \<Longrightarrow> con_id c < con_id x"
    and sub: "search_tree l" "search_tree r"
    using TNode.prems(1) by auto
  have keep_l: "drop_id i (inorder l) = inorder l" if "con_id c \<le> i"
    using l that by (fastforce simp: drop_id_def intro!: filter_all)
  have keep_r: "drop_id i (inorder r) = inorder r" if "i \<le> con_id c"
    using r that by (fastforce simp: drop_id_def intro!: filter_all)
  consider "i < con_id c" | "con_id c < i" | "i = con_id c" by linarith
  then show ?case
  proof cases
    case 1
    then have "i \<in> ids (inorder l)" using TNode.prems(2) r by (fastforce simp: ids_def)
    from TNode.IH(1) [OF sub(1) this] 1 keep_r show ?thesis by (auto simp: drop_id_def)
  next
    case 2
    then have "i \<in> ids (inorder r)" using TNode.prems(2) l by (fastforce simp: ids_def)
    from TNode.IH(2) [OF sub(2) this] 2 keep_l show ?thesis by (auto simp: drop_id_def)
  next
    case 3
    show ?thesis
    proof (cases "l = TNull \<or> r = TNull")
      case True
      then show ?thesis using 3 keep_l keep_r by (auto simp: drop_id_def)
    next
      case False
      let ?m = "hd (inorder r)"
      obtain rr where fm: "findMin r = Inr (TNode ?m TNull rr)"
        using False findMin_first by blast
      have inr: "inorder r = ?m # tl (inorder r)" using False by simp
      then have "con_id ?m \<in> ids (inorder r)" by (metis image_eqI list.set_intros(1) ids_def)
      from TNode.IH(2) [OF sub(2) this] obtain r' where
        d: "delete_t r (con_id ?m) = Inr r'" "inorder r' = drop_id (con_id ?m) (inorder r)" by blast
      have "ordered (?m # tl (inorder r))"
        using sub(2) inr by (simp add: search_tree_def)
      then have "drop_id (con_id ?m) (?m # tl (inorder r)) = tl (inorder r)"
        by (fastforce simp: drop_id_def intro!: filter_all)
      with d(2) inr have "inorder r' = tl (inorder r)" by simp
      with False 3 fm d(1) inr keep_l keep_r show ?thesis by (auto simp: drop_id_def)
    qed
  qed
qed

section \<open>The tree is a contact store\<close>

interpretation tree_store: contact_store ins_t del_t look_t inorder search_tree "\<lambda>_ _. True"
proof
  show "\<And>s. search_tree s \<Longrightarrow> ordered (inorder s)"
    by (simp add: search_tree_def)
  show "\<And>s n c. search_tree s \<Longrightarrow> True \<Longrightarrow> con_id c \<notin> ids (inorder s) \<Longrightarrow>
      \<exists>s'. ins_t c s = Inr s' \<and> search_tree s' \<and> True \<and> inorder s' = add_sorted c (inorder s)"
    by (auto simp: ins_t_def inorder_insertNode_new insertNode_search_tree)
  show "\<And>s i. search_tree s \<Longrightarrow> i \<in> ids (inorder s) \<Longrightarrow>
      \<exists>s'. del_t i s = Inr s' \<and> search_tree s' \<and> (\<forall>n. True \<longrightarrow> True) \<and> inorder s' = drop_id i (inorder s)"
  proof -
    fix s i assume s: "search_tree s" and i: "i \<in> ids (inorder s)"
    from inorder_delete_t [OF s i] obtain t where "delete_t s i = Inr t" "inorder t = drop_id i (inorder s)"
      by blast
    with s show "\<exists>s'. del_t i s = Inr s' \<and> search_tree s' \<and> (\<forall>n. True \<longrightarrow> True) \<and> inorder s' = drop_id i (inorder s)"
      by (simp add: del_t_def search_tree_def)
  qed
  show "\<And>s i. search_tree s \<Longrightarrow> look_t i s = find_id i (inorder s)"
    by (simp add: look_t_def find_id_def pointee_search)
qed simp

section \<open>The handlers keep the tree ordered and its contacts well-formed\<close>

lemma insertNode_tree_inv:
  assumes "tree_inv t" and "wf_contact c"
  shows "tree_inv (insertNode ok t c)"
proof -
  have "set (inorder (insertNode ok t c)) \<subseteq> insert c (set (inorder t))"
    by (induction t) (auto simp: createNode_t_def)
  with assms show ?thesis
    by (auto simp: tree_inv_def insertNode_search_tree)
qed

lemma delete_t_tree_inv:
  assumes "tree_inv t" and "i \<in> ids (inorder t)" and "delete_t t i = Inr t'"
  shows "tree_inv t'"
  using assms inorder_delete_t [of t i]
  by (auto simp: tree_inv_def search_tree_def drop_id_def)

lemma inorder_store_at:
  "search_tree t \<Longrightarrow> inorder (store_at t i d) = map (\<lambda>x. if con_id x = i then d else x) (inorder t)"
proof (induction t)
  case TNull
  then show ?case by simp
next
  case (TNode c l r)
  have "map (\<lambda>x. if con_id x = i then d else x) (inorder l) = inorder l" if "con_id c \<le> i"
    using TNode.prems that by (intro map_idI) auto
  moreover have "map (\<lambda>x. if con_id x = i then d else x) (inorder r) = inorder r" if "i \<le> con_id c"
    using TNode.prems that by (intro map_idI) auto
  ultimately show ?case using TNode by auto
qed

lemma store_at_tree_inv:
  assumes "tree_inv t" and "wf_contact d" and "con_id d = i"
  shows "tree_inv (store_at t i d)"
proof -
  have t: "search_tree t" using assms(1) by (simp add: tree_inv_def)
  have "map con_id (inorder (store_at t i d)) = map con_id (inorder t)"
    using assms(3) by (auto simp: inorder_store_at [OF t])
  then have "search_tree (store_at t i d) = search_tree t"
    unfolding search_tree_def by (rule ordered_map)
  with t assms(1,2) show ?thesis by (auto simp: tree_inv_def inorder_store_at [OF t])
qed

lemma addContact_t_inv:
  assumes "addContact_t g ok root w = Inr (root', w')" and "tree_inv root" and "wf_frame g"
  shows "tree_inv root'"
proof -
  from assms(1) obtain i v1 c1 v2 c2 v3 where
    1: "read_names ((loc_con g)\<lparr>con_id := i\<rparr>) v1 = Inr (c1, v2)"
    and 2: "ask_social ''Y'' (loc_char g) c1 v2 = Inr (c2, v3)"
    and 3: "root' = insertNode ok root c2"
    by (auto simp: addContact_t_def split: prod.splits)
  from read_names_wf [OF 1] assms(3) have "wf_contact c1" by (simp add: wf_frame_def)
  with ask_social_wf [OF 2] have "wf_contact c2" by simp
  with 3 assms(2) show ?thesis by (simp add: insertNode_tree_inv)
qed

lemma pointee_search_wf:
  assumes "tree_inv t" and "pointee (search t i) = Some c"
  shows "wf_contact c \<and> con_id c = i"
  using assms by (auto simp: tree_inv_def pointee_search find_Some_iff)

lemma editContact_t_inv:
  assumes "editContact_t g root w = Inr (root', w')" and "tree_inv root" and "wf_frame g"
  shows "tree_inv root'"
proof -
  from assms(1) obtain i v1 con v2 where
    e: "edit_fields lastname (pointee (search root i)) (loc_buf g) v1 = Inr (con, v2)"
    and r: "root' = (case con of None \<Rightarrow> root | Some d \<Rightarrow> store_at root i d)"
    by (auto simp: editContact_t_def split: prod.splits)
  show ?thesis
  proof (cases "pointee (search root i)")
    case None
    with e r assms(2) show ?thesis by (auto dest: edit_fields_null)
  next
    case (Some c)
    with pointee_search_wf [OF assms(2)] have c: "wf_contact c" "con_id c = i" by auto
    from edit_fields_wf [OF e [unfolded Some] c(1)] assms(3) obtain d where
      "con = Some d" "wf_contact d" "con_id d = con_id c" by (auto simp: wf_frame_def)
    with r c(2) assms(2) store_at_tree_inv show ?thesis by auto
  qed
qed

lemma deleteContact_t_inv:
  assumes "deleteContact_t g root w = Inr (root', w')" and "tree_inv root"
  shows "tree_inv root'"
proof -
  from assms(1) obtain i where "root' = root \<or> (search root i \<noteq> TNull \<and> delete_t root i = Inr root')"
    by (auto simp: deleteContact_t_def split: if_splits prod.splits)
  moreover have "search_tree root" using assms(2) by (simp add: tree_inv_def)
  ultimately show ?thesis
    using assms(2) search_TNull_iff delete_t_tree_inv by blast
qed

lemma switch_t_inv:
  assumes "switch_t g ok choice root w = Inr (root', w')" and "tree_inv root" and "wf_frame g"
  shows "tree_inv root'"
  using assms
  by (auto simp: switch_t_def split: if_splits
      dest: addContact_t_inv editContact_t_inv deleteContact_t_inv)

lemma main_body_t_inv:
  assumes "wf_frame g" and "tree_inv root"
    and "main_body_t g ok (choice, root, w) = Inr ((choice', root', w'), again)"
  shows "tree_inv root'"
proof -
  from assms(3) obtain v ch where "switch_t g ok ch root v = Inr (root', w')"
    by (auto simp: main_body_t_def split_beta)
  then show ?thesis using assms(2,1) by (rule switch_t_inv)
qed

interpretation tree_loop: loop_invariant "\<lambda>k. main_body_t (gs k) (oks k)"
    "\<lambda>(choice, root, w). (\<forall>k. wf_frame (gs k)) \<and> tree_inv root" for gs oks
  by unfold_locales (auto dest: main_body_t_inv)

subsection \<open>Printing\<close>

lemma mset_postorder: "mset (postorder t) = mset (inorder t)"
  by (induction t) auto

lemma show_contact_t_ok: "terminated c \<Longrightarrow> show_contact_t c = Inr (text_of c)"
  by (simp add: text_of_def show_contact_t_def terminated_def cstr_def)

lemma postOrderTravel_text:
  "\<forall>c \<in> set (inorder t). terminated c \<Longrightarrow>
    postOrderTravel t w = Inr (printf (concat (map text_of (postorder t))) w)"
  by (induction t arbitrary: w) (auto simp: show_contact_t_ok printf_def)

section \<open>Properties\<close>

text \<open>
  C2: Whatever is typed, if the program leaves its menu then the tree is ordered by id,
  with every id stored once, and every contact in it is well-formed.
\<close>

theorem tree_main_inv:
  assumes "main_t fuel junk gs oks w = Inr (choice, root, w')" and "\<And>k. wf_frame (gs k)"
  shows "tree_inv root"
proof -
  have "tree_inv TNull" by (simp add: tree_inv_def)
  with tree_loop.loop_keeps_inv [OF assms(1) [unfolded main_t_def]] assms(2) show ?thesis by simp
qed

theorem tree_main_inv_witness:
  "\<exists>choice root w'. main_t 2 0 (\<lambda>_. blank_frame) (\<lambda>_. True) (console ''1 7 a b c N 5'') = Inr (choice, root, w') \<and>
     map con_id (inorder root) = [7] \<and> tree_inv root"
proof -
  have wf: "wf_frame blank_frame"
    by (simp add: wf_frame_def) (simp add: blank_frame_def MAX_C_def)
  have "case main_t 2 0 (\<lambda>_. blank_frame) (\<lambda>_. True) (console ''1 7 a b c N 5'') of
      Inl _ \<Rightarrow> False | Inr (_, root, _) \<Rightarrow> map con_id (inorder root) = [7]"
    by code_simp
  then obtain choice root w' where
    m: "main_t 2 0 (\<lambda>_. blank_frame) (\<lambda>_. True) (console ''1 7 a b c N 5'') = Inr (choice, root, w')"
    and i: "map con_id (inorder root) = [7]"
    by (auto split: sum.splits)
  show ?thesis
    by (intro exI conjI) (rule m, rule i, rule tree_main_inv [OF m wf])
qed

text \<open>
  C13: Deleting a contact always succeeds on an ordered tree: an id that is stored is
  dropped and reported as deleted, any other id leaves the contacts as they are and is
  reported as not found. The \<open>return;\<close> of \<open>delete\<close> that returns no value is never used.
\<close>

theorem tree_delete_contact:
  assumes "search_tree root"
    and "scanf_d (loc_int g) (printf ''Input id which contact you want to delete: '' w) = Inr (i, v)"
  shows "\<exists>root'. deleteContact_t g root w = Inr (root',
        printf (if i \<in> ids (inorder root) then ''Contact with id '' @ show_int i @ '' deleted.'' @ [NL]
                else ''Contact not found.'' @ [NL]) v)
      \<and> search_tree root' \<and> inorder root' = drop_id i (inorder root)"
proof (cases "i \<in> ids (inorder root)")
  case True
  from inorder_delete_t [OF assms(1) True] obtain t where
    t: "delete_t root i = Inr t" "inorder t = drop_id i (inorder root)" by blast
  with assms(1) have "search_tree t" by (simp add: search_tree_def)
  with t True assms search_TNull_iff [OF assms(1), of i] show ?thesis
    by (simp add: deleteContact_t_def)
next
  case False
  with assms search_TNull_iff [OF assms(1), of i] show ?thesis
    by (simp add: deleteContact_t_def)
qed

lemma sample_tree_search: "search_tree sample_tree"
  by (simp add: sample_tree_def createNode_t_def)

lemma sample_tree_ids: "ids (inorder sample_tree) = {2, 5, 9}"
  by (auto simp: sample_tree_def createNode_t_def)

theorem tree_delete_contact_witness:
  "\<exists>root'. deleteContact_t blank_frame sample_tree (console ''5'') = Inr (root',
        printf (if 5 \<in> ids (inorder sample_tree) then ''Contact with id '' @ show_int 5 @ '' deleted.'' @ [NL]
                else ''Contact not found.'' @ [NL])
          (printf ''Input id which contact you want to delete: '' (console [])))
      \<and> search_tree root' \<and> inorder root' = drop_id 5 (inorder sample_tree)"
proof -
  have "scanf_d (loc_int blank_frame) (printf ''Input id which contact you want to delete: '' (console ''5'')) =
      Inr (5, printf ''Input id which contact you want to delete: '' (console []))"
    by code_simp
  from tree_delete_contact [OF sample_tree_search this] show ?thesis .
qed

text \<open>
  Editing an id that is not in the tree dereferences a null pointer as soon as a
  non-empty line is typed for the last name: \<open>editContact\<close> does not look at the result
  of \<open>search\<close>.
\<close>

theorem tree_edit_missing_faults:
  assumes "search_tree root" and "i \<notin> ids (inorder root)"
    and "scanf_d (loc_int g) (printf ''Input id which contact you want to edit: '' w) = Inr (i, v)"
    and "stdin v = c0 # l @ NL # r" and "good_line l" and "l \<noteq> []" and "length (loc_buf g) = MAX_C"
  shows "editContact_t g root w = Inl NullDeref"
  using assms(3) edit_fields_null_deref [OF assms(4-7), of lastname]
    search_TNull_iff [OF assms(1), of i] assms(2)
  by (simp add: editContact_t_def pointee_def)

theorem tree_edit_missing_faults_witness:
  "editContact_t blank_frame sample_tree (console (''4'' @ [NL] @ ''Ivanov'' @ [NL])) = Inl NullDeref"
proof (rule tree_edit_missing_faults [OF sample_tree_search])
  show "(4::int) \<notin> ids (inorder sample_tree)"
    by (simp add: sample_tree_ids)
  show "scanf_d (loc_int blank_frame) (printf ''Input id which contact you want to edit: ''
      (console (''4'' @ [NL] @ ''Ivanov'' @ [NL]))) =
      Inr (4, printf ''Input id which contact you want to edit: '' (console ([NL] @ ''Ivanov'' @ [NL])))"
    by code_simp
  show "stdin (printf ''Input id which contact you want to edit: '' (console ([NL] @ ''Ivanov'' @ [NL])))
      = NL # ''Ivanov'' @ NL # []"
    by (simp add: console_def)
  show "good_line ''Ivanov''" by code_simp
  show "''Ivanov'' \<noteq> []" by simp
  show "length (loc_buf blank_frame) = MAX_C" by code_simp
qed

text \<open>
  Searching after an insertion finds the new contact under its id if that id was
  free, and under every other id, or if the id was taken or \<open>malloc\<close> failed, what was
  there before.
\<close>

theorem tree_search_after_insert:
  assumes "search_tree t"
  shows "pointee (search (insertNode ok t c) i) =
    (if ok \<and> con_id c \<notin> ids (inorder t) \<and> i = con_id c then Some c else pointee (search t i))"
proof (cases "ok \<and> con_id c \<notin> ids (inorder t)")
  case True
  with tree_store.look_after_ins [OF assms, of c] show ?thesis
    by (simp add: ins_t_def look_t_def)
next
  case False
  with insertNode_old [OF assms] insertNode_fail [of t c] show ?thesis by (cases ok) auto
qed

theorem tree_search_after_insert_witness:
  "pointee (search (insertNode True sample_tree (blank_contact\<lparr>con_id := 3\<rparr>)) 3) =
     Some (blank_contact\<lparr>con_id := 3\<rparr>)"
  using tree_search_after_insert [OF sample_tree_search, of True "blank_contact\<lparr>con_id := 3\<rparr>" 3]
  by (simp add: sample_tree_ids)

text \<open>
  Listing a tree prints every stored contact exactly once, in post-order, and
  changes nothing else.
\<close>

theorem tree_list_prints_all:
  assumes "root \<noteq> TNull" and "\<forall>c \<in> set (inorder root). terminated c"
  shows "\<exists>cs. mset cs = mset (inorder root) \<and> cs = postorder root \<and>
    listContact_t root w = Inr (printf (''-----Contact list-----'' @ [NL] @ concat (map text_of cs)) w)"
  using assms by (simp add: listContact_t_def postOrderTravel_text mset_postorder printf_def)

theorem tree_list_prints_all_witness:
  "\<exists>cs. mset cs = mset (inorder sample_tree) \<and> cs = postorder sample_tree \<and>
    listContact_t sample_tree (console []) =
      Inr (printf (''-----Contact list-----'' @ [NL] @ concat (map text_of cs)) (console []))"
proof (rule tree_list_prints_all)
  show "sample_tree \<noteq> TNull" by (simp add: sample_tree_def createNode_t_def)
  show "\<forall>c \<in> set (inorder sample_tree). terminated c" by code_simp
qed

text \<open>
  At the end of the input the program never leaves its menu: a failed \<open>scanf\<close>
  keeps \<open>choice\<close>, so with a choice that selects nothing every number of rounds is too
  small.
\<close>

theorem tree_main_loops_at_eof:
  assumes "stdin w = []" and "junk \<notin> {1, 2, 3, 4, 5}"
  shows "main_t fuel junk gs oks w = Inl OutOfFuel"
proof -
  have "\<exists>s'. main_body_t (gs k) (oks k) s = Inr (s', True) \<and> (case s' of (ch, t, v) \<Rightarrow> ch = junk \<and> stdin v = [])"
    if "case s of (ch, t, v) \<Rightarrow> ch = junk \<and> stdin v = []" for k s
    using that assms(2)
    by (auto simp: main_body_t_def switch_t_def scanf_d_def scan_int_def scan_sign_def printf_def)
  with assms(1) show ?thesis
    unfolding main_t_def by (intro rounds_stuck [where P = "\<lambda>(ch, t, v). ch = junk \<and> stdin v = []"]) auto
qed

theorem tree_main_loops_at_eof_witness: "main_t 100 0 (\<lambda>_. blank_frame) (\<lambda>_. True) (console []) = Inl OutOfFuel"
  by (rule tree_main_loops_at_eof) (simp_all add: console_def blank_frame_def)

end
