(* ===== verification/Contact_List.thy ===== *)
theory Contact_List
  imports Contact_Store
begin

text \<open>
  The contact book of Module 2, Task 4.1: a doubly linked list in the heap, ordered by
  contact id. The heap maps addresses to nodes; \<open>malloc\<close> hands out a new
  address as long as memory is left and a null pointer afterwards. The loops that follow
  \<open>next\<close> pointers take fuel, one more than the number of addresses ever handed out, which
  a list without cycles cannot use up. Proved here: the operations keep both chains of
  pointers consistent, and on the contacts they do what \<open>contact_store\<close> asks for.
\<close>

section \<open>Heap\<close>

type_synonym ptr = "nat option"

record node =
  con :: contact
  nxt :: ptr
  prv :: ptr

record heap =
  cells :: "nat \<Rightarrow> node option"
  brk :: nat
  avail :: nat

definition load :: "heap \<Rightarrow> ptr \<Rightarrow> node res" where
  "load h p = (case p of None \<Rightarrow> Inl NullDeref
     | Some a \<Rightarrow> (case cells h a of None \<Rightarrow> Inl BadPointer | Some n \<Rightarrow> Inr n))"

definition store :: "heap \<Rightarrow> ptr \<Rightarrow> (node \<Rightarrow> node) \<Rightarrow> heap res" where
  "store h p f = bindE (load h p) (\<lambda>n. case p of None \<Rightarrow> Inl NullDeref
     | Some a \<Rightarrow> Inr (h\<lparr>cells := (cells h)(a := Some (f n))\<rparr>))"

definition free :: "heap \<Rightarrow> ptr \<Rightarrow> heap res" where
  "free h p = (case p of None \<Rightarrow> Inr h
     | Some a \<Rightarrow> (case cells h a of None \<Rightarrow> Inl BadPointer
         | Some _ \<Rightarrow> Inr (h\<lparr>cells := (cells h)(a := None), avail := Suc (avail h)\<rparr>)))"

section \<open>The list\<close>

definition createNode_l :: "heap \<Rightarrow> contact \<Rightarrow> (nat \<times> heap) res" where
  "createNode_l h c =
     (if avail h = 0 then Inl NullDeref
      else Inr (brk h, h\<lparr>cells := (cells h)(brk h := Some \<lparr>con = c, nxt = None, prv = None\<rparr>),
                         brk := Suc (brk h), avail := avail h - 1\<rparr>))"

text \<open>\<open>while (current != NULL && P (current->con)) current = current->next;\<close>\<close>

fun advance :: "nat \<Rightarrow> (contact \<Rightarrow> bool) \<Rightarrow> heap \<Rightarrow> ptr \<Rightarrow> ptr res" where
  "advance 0 P h p = Inl OutOfFuel"
| "advance (Suc k) P h p =
     (if p = None then Inr None
      else bindE (load h p) (\<lambda>n. if P (con n) then advance k P h (nxt n) else Inr p))"

text \<open>\<open>while (last->next != NULL) last = last->next;\<close>\<close>

fun last_node :: "nat \<Rightarrow> heap \<Rightarrow> ptr \<Rightarrow> ptr res" where
  "last_node 0 h p = Inl OutOfFuel"
| "last_node (Suc k) h p =
     bindE (load h p) (\<lambda>n. if nxt n \<noteq> None then last_node k h (nxt n) else Inr p)"

definition insert_l :: "heap \<Rightarrow> ptr \<Rightarrow> contact \<Rightarrow> (heap \<times> ptr) res" where
  "insert_l h head c =
     bindE (createNode_l h c) (\<lambda>(newNode, h).
     let fuel = Suc (brk h) in
     if head = None then Inr (h, Some newNode)
     else bindE (advance fuel (\<lambda>d. con_id d < con_id c) h head) (\<lambda>current.
       if current = head then
         bindE (store h (Some newNode) (\<lambda>n. n\<lparr>nxt := head\<rparr>)) (\<lambda>h.
         bindE (store h head (\<lambda>n. n\<lparr>prv := Some newNode\<rparr>)) (\<lambda>h.
         Inr (h, Some newNode)))
       else if current = None then
         bindE (last_node fuel h head) (\<lambda>last.
         bindE (store h last (\<lambda>n. n\<lparr>nxt := Some newNode\<rparr>)) (\<lambda>h.
         bindE (store h (Some newNode) (\<lambda>n. n\<lparr>prv := last\<rparr>)) (\<lambda>h.
         Inr (h, head))))
       else
         bindE (store h (Some newNode) (\<lambda>n. n\<lparr>nxt := current\<rparr>)) (\<lambda>h.
         bindE (load h current) (\<lambda>cur.
         bindE (store h (Some newNode) (\<lambda>n. n\<lparr>prv := prv cur\<rparr>)) (\<lambda>h.
         bindE (store h (prv cur) (\<lambda>n. n\<lparr>nxt := Some newNode\<rparr>)) (\<lambda>h.
         bindE (store h current (\<lambda>n. n\<lparr>prv := Some newNode\<rparr>)) (\<lambda>h.
         Inr (h, head))))))))"

text \<open>
  The part of \<open>removeNode\<close> after the id was read; the flag says whether it was found.
\<close>

definition remove_id :: "heap \<Rightarrow> ptr \<Rightarrow> int \<Rightarrow> (bool \<times> heap \<times> ptr) res" where
  "remove_id h head i =
     bindE (advance (Suc (brk h)) (\<lambda>d. con_id d \<noteq> i) h head) (\<lambda>current.
     if current = None then Inr (False, h, head)
     else bindE (load h current) (\<lambda>cur.
       bindE (if current = head then
                bindE (if nxt cur \<noteq> None then store h (nxt cur) (\<lambda>n. n\<lparr>prv := None\<rparr>) else Inr h) (\<lambda>h.
                Inr (h, nxt cur))
              else
                bindE (if nxt cur \<noteq> None then store h (nxt cur) (\<lambda>n. n\<lparr>prv := prv cur\<rparr>) else Inr h) (\<lambda>h.
                bindE (if prv cur \<noteq> None then store h (prv cur) (\<lambda>n. n\<lparr>nxt := nxt cur\<rparr>) else Inr h) (\<lambda>h.
                Inr (h, head)))) (\<lambda>(h, head).
       bindE (free h current) (\<lambda>h. Inr (True, h, head)))))"

definition removeNode :: "frame \<Rightarrow> heap \<Rightarrow> ptr \<Rightarrow> io \<Rightarrow> (heap \<times> ptr \<times> io) res" where
  "removeNode g h head w =
     bindE (scanf_d (loc_int g) (printf ''Input ID to delete contact: '' w)) (\<lambda>(i, w).
     bindE (remove_id h head i) (\<lambda>(found, h, head).
     Inr (h, head, printf (if found then ''Contact deleted.'' @ [NL] else ''Contact not found!'' @ [NL]) w)))"

definition show_contact_l :: "contact \<Rightarrow> string res" where
  "show_contact_l c =
     bindE (cstr (firstname c)) (\<lambda>fi. bindE (cstr (lastname c)) (\<lambda>la.
     bindE (cstr (middlename c)) (\<lambda>mi. bindE (cstr (get_number c)) (\<lambda>nu.
     bindE (cstr (get_link c)) (\<lambda>li.
     Inr (''ID: '' @ show_int (con_id c) @ [NL] @ ''Firstname: '' @ fi @ [NL]
       @ ''Lastname: '' @ la @ [NL] @ ''Middlename: '' @ mi @ [NL]
       @ ''Phone: '' @ nu @ [NL] @ ''Link: '' @ li @ [NL, NL]))))))"

fun printNode :: "nat \<Rightarrow> heap \<Rightarrow> ptr \<Rightarrow> io \<Rightarrow> io res" where
  "printNode 0 h p w = Inl OutOfFuel"
| "printNode (Suc k) h p w =
     (if p = None then Inr w
      else bindE (load h p) (\<lambda>n. bindE (show_contact_l (con n)) (\<lambda>s. printNode k h (nxt n) (printf s w))))"

section \<open>The handlers of the menu\<close>

record book_l =
  hp :: heap
  head :: ptr
  contactCount :: int

definition addContact_l :: "frame \<Rightarrow> book_l \<Rightarrow> io \<Rightarrow> (book_l \<times> io) res" where
  "addContact_l g s w =
     bindE (read_names (loc_con g) w) (\<lambda>(newCon, w).
     bindE (ask_social ''Yy'' (loc_char g) newCon w) (\<lambda>(newCon, w).
     let w = printf (''Your id: '' @ show_int (contactCount s) @ [NL]) w;
         newCon = newCon\<lparr>con_id := contactCount s\<rparr>;
         w = printf (NL # ''User added'' @ [NL]) w in
     bindE (c_int (contactCount s + 1)) (\<lambda>n.
     bindE (insert_l (hp s) (head s) newCon) (\<lambda>(h, hd).
     Inr (\<lparr>hp = h, head = hd, contactCount = n\<rparr>, w)))))"

definition editContact_l :: "frame \<Rightarrow> book_l \<Rightarrow> io \<Rightarrow> (book_l \<times> io) res" where
  "editContact_l g s w =
     bindE (scanf_d (loc_int g) (printf ''Input id which contact you want to edit: '' w)) (\<lambda>(idEdit, w).
     bindE (advance (Suc (brk (hp s))) (\<lambda>d. con_id d \<noteq> idEdit) (hp s) (head s)) (\<lambda>current.
     if current = None then Inr (s, printf (''Contact not found!'' @ [NL]) w)
     else bindE (load (hp s) current) (\<lambda>n.
       bindE (edit_fields firstname (Some (con n)) (loc_buf g) w) (\<lambda>(c, w).
       case c of None \<Rightarrow> Inl NullDeref | Some c \<Rightarrow>
         bindE (store (hp s) current (\<lambda>n. n\<lparr>con := c\<rparr>)) (\<lambda>h. Inr (s\<lparr>hp := h\<rparr>, w))))))"

definition switch_l :: "frame \<Rightarrow> int \<Rightarrow> book_l \<Rightarrow> io \<Rightarrow> (book_l \<times> io) res" where
  "switch_l g choice s w =
     (if choice = 1 then addContact_l g s w
      else if choice = 2 then editContact_l g s w
      else if choice = 3 then bindE (removeNode g (hp s) (head s) w) (\<lambda>(h, hd, w).
        Inr (s\<lparr>hp := h, head := hd\<rparr>, w))
      else if choice = 4 then bindE (printNode (Suc (brk (hp s))) (hp s) (head s) w) (\<lambda>w. Inr (s, w))
      else if choice = 5 then Inr (s, w)
      else Inr (s, printf (''Invalid choice!'' @ [NL]) w))"

definition main_body_l :: "frame \<Rightarrow> int \<times> book_l \<times> io \<Rightarrow> ((int \<times> book_l \<times> io) \<times> bool) res" where
  "main_body_l g = (\<lambda>(choice, s, w).
     bindE (scanf_d choice (printf menu_text w)) (\<lambda>(choice, w).
     bindE (switch_l g choice s w) (\<lambda>(s, w).
     Inr ((choice, s, w), choice \<noteq> 5))))"

definition init_l :: "nat \<Rightarrow> book_l" where
  "init_l mem = \<lparr>hp = \<lparr>cells = (\<lambda>_. None), brk = 0, avail = mem\<rparr>, head = None, contactCount = 0\<rparr>"

text \<open>Before the first round \<open>choice\<close> is unset; \<open>gs k\<close> are the uninitialised locals in round \<open>k\<close>.\<close>

definition main_l :: "nat \<Rightarrow> int \<Rightarrow> (nat \<Rightarrow> frame) \<Rightarrow> nat \<Rightarrow> io \<Rightarrow> (int \<times> book_l \<times> io) res" where
  "main_l fuel choice gs mem w = rounds fuel (\<lambda>k. main_body_l (gs k)) (choice, init_l mem, w)"

section \<open>Doubly linked segments\<close>

text \<open>
  \<open>dseg m pr p xs l q\<close>: from \<open>p\<close>, whose node points back to \<open>pr\<close>, the \<open>next\<close> pointers lead
  through the addresses of \<open>xs\<close> with their contacts to \<open>q\<close>, every \<open>prev\<close> pointer leads
  back, and \<open>l\<close> is the last node (\<open>pr\<close> for an empty segment).
\<close>

fun dseg :: "(nat \<Rightarrow> node option) \<Rightarrow> ptr \<Rightarrow> ptr \<Rightarrow> (nat \<times> contact) list \<Rightarrow> ptr \<Rightarrow> ptr \<Rightarrow> bool" where
  "dseg m pr p [] l q = (p = q \<and> l = pr)"
| "dseg m pr p ((a, c) # xs) l q =
     (p = Some a \<and> (\<exists>n. m a = Some \<lparr>con = c, nxt = n, prv = pr\<rparr> \<and> dseg m (Some a) n xs l q))"

definition dll :: "heap \<Rightarrow> ptr \<Rightarrow> (nat \<times> contact) list \<Rightarrow> bool" where
  "dll h p xs = ((\<exists>l. dseg (cells h) None p xs l None) \<and> distinct (map fst xs)
     \<and> (\<forall>a \<in> fst ` set xs. a < brk h))"

definition first_ptr :: "(nat \<times> contact) list \<Rightarrow> ptr" where
  "first_ptr xs = (case xs of [] \<Rightarrow> None | (a, _) # _ \<Rightarrow> Some a)"

text \<open>The contacts met when the list is walked.\<close>

fun walk :: "nat \<Rightarrow> heap \<Rightarrow> ptr \<Rightarrow> contact list" where
  "walk 0 h p = []"
| "walk (Suc k) h p = (case p of None \<Rightarrow> []
     | Some a \<Rightarrow> (case cells h a of None \<Rightarrow> [] | Some n \<Rightarrow> con n # walk k h (nxt n)))"

definition contacts_l :: "heap \<times> ptr \<Rightarrow> contact list" where
  "contacts_l = (\<lambda>(h, p). walk (brk h) h p)"

definition below :: "contact \<Rightarrow> nat \<times> contact \<Rightarrow> bool" where
  "below c = (\<lambda>(a, d). con_id d < con_id c)"

text \<open>The operations of the list under the signature of \<open>contact_store\<close>.\<close>

definition ins_l :: "contact \<Rightarrow> heap \<times> ptr \<Rightarrow> (heap \<times> ptr) res" where
  "ins_l c = (\<lambda>(h, p). insert_l h p c)"

definition del_l :: "int \<Rightarrow> heap \<times> ptr \<Rightarrow> (heap \<times> ptr) res" where
  "del_l i = (\<lambda>(h, p). bindE (remove_id h p i) (\<lambda>(_, s). Inr s))"

definition look_l :: "int \<Rightarrow> heap \<times> ptr \<Rightarrow> contact option" where
  "look_l i = (\<lambda>(h, p). case advance (Suc (brk h)) (\<lambda>d. con_id d \<noteq> i) h p of
     Inl _ \<Rightarrow> None | Inr q \<Rightarrow> (case load h q of Inl _ \<Rightarrow> None | Inr n \<Rightarrow> Some (con n)))"

definition list_ok :: "heap \<times> ptr \<Rightarrow> bool" where
  "list_ok = (\<lambda>(h, p). \<exists>xs. dll h p xs \<and> ordered (map snd xs))"

definition room_l :: "nat \<Rightarrow> heap \<times> ptr \<Rightarrow> bool" where
  "room_l n = (\<lambda>(h, p). n \<le> avail h)"

text \<open>
  The invariant of the program: an ordered list of well-formed contacts whose ids have
  been given out by the counter, and no node of the memory \<open>mem\<close> is lost.
\<close>

definition list_inv :: "nat \<Rightarrow> book_l \<Rightarrow> bool" where
  "list_inv mem s = (\<exists>xs. dll (hp s) (head s) xs \<and> ordered (map snd xs)
     \<and> (\<forall>c \<in> set (map snd xs). wf_contact c \<and> 0 \<le> con_id c \<and> con_id c < contactCount s)
     \<and> 0 \<le> contactCount s \<and> avail (hp s) + length xs = mem)"

definition text_of_l :: "contact \<Rightarrow> string" where
  "text_of_l c = (case show_contact_l c of Inl _ \<Rightarrow> [] | Inr s \<Rightarrow> s)"

text \<open>A book with the contacts 0 and 1, for the examples.\<close>

definition sample_book :: book_l where
  "sample_book = \<lparr>hp = \<lparr>cells = [0 \<mapsto> \<lparr>con = blank_contact, nxt = Some 1, prv = None\<rparr>,
       1 \<mapsto> \<lparr>con = blank_contact\<lparr>con_id := 1\<rparr>, nxt = None, prv = Some 0\<rparr>], brk = 2, avail = 3\<rparr>,
     head = Some 0, contactCount = 2\<rparr>"

section \<open>Lemmas on segments\<close>

lemma dseg_append [simp]:
  "dseg m pr p (xs @ ys) l q \<longleftrightarrow> (\<exists>x y. dseg m pr p xs x y \<and> dseg m x y ys l q)"
proof (induction xs arbitrary: pr p)
  case Nil
  then show ?case by simp
next
  case (Cons x xs)
  then show ?case by (cases x) (simp, blast)
qed

lemma dseg_frame [simp]:
  "a \<notin> fst ` set xs \<Longrightarrow> dseg (m(a := v)) pr p xs l q = dseg m pr p xs l q"
  by (induction xs arbitrary: pr p) auto

lemma dseg_first: "dseg m pr p xs l None \<Longrightarrow> p = first_ptr xs"
  by (cases xs) (auto simp: first_ptr_def)

lemma load_simps [simp]:
  "load h None = Inl NullDeref"
  "cells h a = Some n \<Longrightarrow> load h (Some a) = Inr n"
  by (simp_all add: load_def)

lemma store_simps [simp]:
  "cells h a = Some n \<Longrightarrow> store h (Some a) f = Inr (h\<lparr>cells := (cells h)(a := Some (f n))\<rparr>)"
  by (simp add: store_def)

lemma advance_dseg:
  "dseg (cells h) pr p xs l None \<Longrightarrow> length xs < k \<Longrightarrow>
    advance k P h p = Inr (first_ptr (dropWhile (\<lambda>(a, c). P c) xs))"
proof (induction xs arbitrary: pr p k)
  case Nil
  then show ?case by (cases k) (auto simp: first_ptr_def)
next
  case (Cons x xs)
  then show ?case by (cases k; cases x) (auto simp: first_ptr_def)
qed

lemma last_node_dseg:
  "dseg (cells h) pr p (xs @ [(a, c)]) l None \<Longrightarrow> length xs < k \<Longrightarrow> last_node k h p = Inr (Some a)"
proof (induction xs arbitrary: pr p k)
  case Nil
  then show ?case by (cases k) auto
next
  case (Cons x xs)
  obtain b d where x: "x = (b, d)" by (cases x)
  from Cons.prems x obtain n where n: "p = Some b" "cells h b = Some \<lparr>con = d, nxt = n, prv = pr\<rparr>"
    "dseg (cells h) (Some b) n (xs @ [(a, c)]) l None" by auto
  then have "n \<noteq> None" by (cases xs) auto
  with Cons n show ?case by (cases k) (auto simp del: dseg_append)
qed

lemma dll_length: "dll h p xs \<Longrightarrow> length xs \<le> brk h"
proof -
  assume d: "dll h p xs"
  then have "set (map fst xs) \<subseteq> {..<brk h}" by (auto simp: dll_def)
  from card_mono [OF _ this] d distinct_card [of "map fst xs"] show ?thesis
    by (simp add: dll_def)
qed

lemma dll_advance:
  "dll h p xs \<Longrightarrow> advance (Suc (brk h)) P h p = Inr (first_ptr (dropWhile (\<lambda>(a, c). P c) xs))"
proof -
  assume d: "dll h p xs"
  then obtain l where "dseg (cells h) None p xs l None" by (auto simp: dll_def)
  moreover have "length xs < Suc (brk h)" using dll_length [OF d] by simp
  ultimately show ?thesis by (rule advance_dseg)
qed

lemma walk_dseg: "dseg (cells h) pr p xs l None \<Longrightarrow> length xs \<le> k \<Longrightarrow> walk k h p = map snd xs"
proof (induction xs arbitrary: pr p k)
  case Nil
  then show ?case by (cases k) auto
next
  case (Cons x xs)
  then show ?case by (cases k; cases x) auto
qed

lemma contacts_dll: "dll h p xs \<Longrightarrow> contacts_l (h, p) = map snd xs"
  using dll_length [of h p xs] by (auto simp: dll_def contacts_l_def intro!: walk_dseg)

declare advance.simps [simp del] last_node.simps [simp del] printNode.simps [simp del]

subsection \<open>Insertion\<close>

lemma dll_fresh: "dll h p xs \<Longrightarrow> brk h \<notin> fst ` set xs"
  by (auto simp: dll_def)

lemma dll_alloc:
  assumes "dll h p xs"
  shows "dll (h\<lparr>cells := (cells h)(brk h := v), brk := Suc (brk h), avail := k\<rparr>) p xs"
  using assms dll_fresh [OF assms] by (auto simp: dll_def less_Suc_eq)

lemma insert_l_front:
  assumes "dll h p ((b, d) # zs)" and "0 < avail h" and "\<not> con_id d < con_id c"
  shows "\<exists>h'. insert_l h p c = Inr (h', Some (brk h)) \<and> dll h' (Some (brk h)) ((brk h, c) # (b, d) # zs)
    \<and> brk h' = Suc (brk h) \<and> avail h' = avail h - 1"
proof -
  let ?n = "brk h"
  let ?h = "h\<lparr>cells := (cells h)(?n := Some \<lparr>con = c, nxt = None, prv = None\<rparr>), brk := Suc ?n, avail := avail h - 1\<rparr>"
  from assms(1) obtain n l where p: "p = Some b" and nd: "cells h b = Some \<lparr>con = d, nxt = n, prv = None\<rparr>"
    and rest: "dseg (cells h) (Some b) n zs l None"
    and b: "b < ?n" "b \<notin> fst ` set zs" and dist: "distinct (map fst zs)" "\<forall>a \<in> fst ` set zs. a < ?n"
    by (auto simp: dll_def)
  have "advance (Suc (Suc ?n)) (\<lambda>d. con_id d < con_id c) ?h p = Inr p"
    using dll_advance [OF dll_alloc [OF assms(1)], of _ _ "\<lambda>d. con_id d < con_id c"] assms(3) p
    by (simp add: first_ptr_def)
  then have "insert_l h p c = Inr (?h\<lparr>cells := (cells h)(?n := Some \<lparr>con = c, nxt = Some b, prv = None\<rparr>,
      b := Some \<lparr>con = d, nxt = n, prv = Some ?n\<rparr>)\<rparr>, Some ?n)"
    using assms(2) p nd b(1) by (simp add: insert_l_def createNode_l_def)
  moreover have "?n \<notin> fst ` set zs" using dist(2) by auto
  ultimately show ?thesis
    using rest b dist by (auto simp: dll_def)
qed

lemma insert_l_back:
  assumes "dll h p (ys @ [(a, d)])" and "0 < avail h"
    and "\<forall>x \<in> set (ys @ [(a, d)]). below c x"
  shows "\<exists>h'. insert_l h p c = Inr (h', p) \<and> dll h' p (ys @ [(a, d), (brk h, c)])
    \<and> brk h' = Suc (brk h) \<and> avail h' = avail h - 1"
proof -
  let ?n = "brk h"
  let ?h = "h\<lparr>cells := (cells h)(?n := Some \<lparr>con = c, nxt = None, prv = None\<rparr>), brk := Suc ?n, avail := avail h - 1\<rparr>"
  from assms(1) obtain x where x: "dseg (cells h) None p ys x (Some a)"
    and nd: "cells h a = Some \<lparr>con = d, nxt = None, prv = x\<rparr>"
    and a: "a < ?n" "a \<notin> fst ` set ys" and dist: "distinct (map fst ys)" "\<forall>a \<in> fst ` set ys. a < ?n"
    by (auto simp: dll_def)
  obtain p0 where p: "p = Some p0" using x by (cases ys) auto
  have al: "dll ?h p (ys @ [(a, d)])" using assms(1) by (rule dll_alloc)
  have "dropWhile (\<lambda>(a, d). con_id d < con_id c) (ys @ [(a, d)]) = []"
    using assms(3) by (auto simp: below_def)
  then have adv: "advance (Suc (Suc ?n)) (\<lambda>d. con_id d < con_id c) ?h p = Inr None"
    using dll_advance [OF al, of "\<lambda>d. con_id d < con_id c"] by (simp add: first_ptr_def)
  obtain l where "dseg (cells ?h) None p (ys @ [(a, d)]) l None" using al by (auto simp: dll_def)
  moreover have "length ys < Suc (Suc ?n)" using dll_length [OF assms(1)] by simp
  ultimately have "last_node (Suc (Suc ?n)) ?h p = Inr (Some a)" by (rule last_node_dseg)
  then have "insert_l h p c = Inr (?h\<lparr>cells := (cells h)(?n := Some \<lparr>con = c, nxt = None, prv = Some a\<rparr>,
      a := Some \<lparr>con = d, nxt = Some ?n, prv = x\<rparr>)\<rparr>, p)"
    using assms(2) p nd a(1) adv by (simp add: insert_l_def createNode_l_def fun_upd_twist)
  moreover have "?n \<notin> fst ` set ys" using dist(2) by auto
  ultimately show ?thesis
    using x a dist by (auto simp: dll_def)
qed

lemma insert_l_middle:
  assumes "dll h p (ys @ (a, d) # (b, e) # zs)" and "0 < avail h"
    and "\<forall>x \<in> set (ys @ [(a, d)]). below c x" and "\<not> con_id e < con_id c"
  shows "\<exists>h'. insert_l h p c = Inr (h', p) \<and> dll h' p (ys @ (a, d) # (brk h, c) # (b, e) # zs)
    \<and> brk h' = Suc (brk h) \<and> avail h' = avail h - 1"
proof -
  let ?n = "brk h"
  let ?h = "h\<lparr>cells := (cells h)(?n := Some \<lparr>con = c, nxt = None, prv = None\<rparr>), brk := Suc ?n, avail := avail h - 1\<rparr>"
  from assms(1) obtain x n l where x: "dseg (cells h) None p ys x (Some a)"
    and nd: "cells h a = Some \<lparr>con = d, nxt = Some b, prv = x\<rparr>" "cells h b = Some \<lparr>con = e, nxt = n, prv = Some a\<rparr>"
    and rest: "dseg (cells h) (Some b) n zs l None"
    and ab: "a < ?n" "b < ?n" "a \<noteq> b" "a \<notin> fst ` set ys" "a \<notin> fst ` set zs" "b \<notin> fst ` set ys" "b \<notin> fst ` set zs"
    and dist: "distinct (map fst ys)" "distinct (map fst zs)" "fst ` set ys \<inter> fst ` set zs = {}"
      "\<forall>a \<in> fst ` set ys. a < ?n" "\<forall>a \<in> fst ` set zs. a < ?n"
    by (auto simp: dll_def)
  have p: "p \<noteq> None" "p \<noteq> Some b" using x ab by (cases ys; auto)+
  have al: "dll ?h p (ys @ (a, d) # (b, e) # zs)" using assms(1) by (rule dll_alloc)
  have "dropWhile (\<lambda>(a, d). con_id d < con_id c) (ys @ (a, d) # (b, e) # zs) = (b, e) # zs"
    using assms(3,4) by (auto simp: below_def dropWhile_append)
  then have adv: "advance (Suc (Suc ?n)) (\<lambda>d. con_id d < con_id c) ?h p = Inr (Some b)"
    using dll_advance [OF al, of "\<lambda>d. con_id d < con_id c"] by (simp add: first_ptr_def)
  let ?m = "(cells h)(?n := Some \<lparr>con = c, nxt = Some b, prv = Some a\<rparr>,
      a := Some \<lparr>con = d, nxt = Some ?n, prv = x\<rparr>, b := Some \<lparr>con = e, nxt = n, prv = Some ?n\<rparr>)"
  have "insert_l h p c = Inr (?h\<lparr>cells := ?m\<rparr>, p)"
    using assms(2) p nd ab adv by (simp add: insert_l_def createNode_l_def)
  moreover have "?n \<notin> fst ` set ys" "?n \<notin> fst ` set zs" using dist by auto
  ultimately show ?thesis
    using x rest ab dist by (auto simp: dll_def)
qed

text \<open>
  Insertion puts the contact after all contacts with a smaller id, in a new node, and
  uses one unit of memory.
\<close>

lemma insert_l_dll:
  assumes "dll h p xs" and "0 < avail h"
  shows "\<exists>h' p'. insert_l h p c = Inr (h', p')
    \<and> dll h' p' (takeWhile (below c) xs @ (brk h, c) # dropWhile (below c) xs)
    \<and> brk h' = Suc (brk h) \<and> avail h' = avail h - 1"
proof (cases "dropWhile (below c) xs")
  case Nil
  then have all: "\<forall>x \<in> set xs. below c x" and t: "takeWhile (below c) xs = xs"
    by (simp_all add: takeWhile_eq_all_conv)
  show ?thesis
  proof (cases xs rule: rev_cases)
    case Nil
    with assms show ?thesis by (auto simp: insert_l_def createNode_l_def dll_def)
  next
    case (snoc ys x)
    obtain a d where "x = (a, d)" by (cases x)
    with insert_l_back [of h p ys a d c] assms all snoc Nil t show ?thesis by auto
  qed
next
  case (Cons y zs)
  obtain b e where y: "y = (b, e)" by (cases y)
  have xs: "xs = takeWhile (below c) xs @ (b, e) # zs"
    using Cons y takeWhile_dropWhile_id [of "below c" xs] by simp
  have e: "\<not> con_id e < con_id c"
    using dropWhile_eq_Cons_conv [of "below c" xs y zs] Cons y by (simp add: below_def)
  show ?thesis
  proof (cases "takeWhile (below c) xs" rule: rev_cases)
    case Nil
    with insert_l_front [of h p b e zs c] assms xs e Cons y show ?thesis by auto
  next
    case (snoc ys x)
    obtain a d where x: "x = (a, d)" by (cases x)
    have "\<forall>z \<in> set (ys @ [(a, d)]). below c z"
      using snoc x by (metis set_takeWhileD)
    with insert_l_middle [of h p ys a d b e zs c] assms xs e snoc x Cons y show ?thesis by auto
  qed
qed

subsection \<open>Removal\<close>

text \<open>Taking a node out of the chain and freeing it.\<close>

lemma remove_id_first:
  assumes "dll h p ((a, c) # zs)" and "con_id c = i"
  shows "\<exists>h' p'. remove_id h p i = Inr (True, h', p') \<and> dll h' p' zs
    \<and> brk h' = brk h \<and> avail h' = Suc (avail h)"
proof -
  from assms(1) obtain n l where p: "p = Some a" and nd: "cells h a = Some \<lparr>con = c, nxt = n, prv = None\<rparr>"
    and rest: "dseg (cells h) (Some a) n zs l None"
    and d: "a \<notin> fst ` set zs" "distinct (map fst zs)" "\<forall>a \<in> fst ` set zs. a < brk h"
    by (auto simp: dll_def)
  have adv: "advance (Suc (brk h)) (\<lambda>d. con_id d \<noteq> i) h p = Inr (Some a)"
    using dll_advance [OF assms(1), of "\<lambda>d. con_id d \<noteq> i"] assms(2) by (simp add: first_ptr_def)
  show ?thesis
  proof (cases zs)
    case Nil
    with rest p nd adv show ?thesis by (auto simp: remove_id_def free_def dll_def)
  next
    case (Cons z zs')
    obtain b e where z: "z = (b, e)" by (cases z)
    with Cons rest d p nd adv show ?thesis by (auto simp: remove_id_def free_def dll_def)
  qed
qed

lemma remove_id_later:
  assumes "dll h p (ys @ (b, d) # (a, c) # zs)" and "con_id c = i"
    and "\<forall>x \<in> set (ys @ [(b, d)]). con_id (snd x) \<noteq> i"
  shows "\<exists>h'. remove_id h p i = Inr (True, h', p) \<and> dll h' p (ys @ (b, d) # zs)
    \<and> brk h' = brk h \<and> avail h' = Suc (avail h)"
proof -
  from assms(1) obtain x n l where x: "dseg (cells h) None p ys x (Some b)"
    and nd: "cells h b = Some \<lparr>con = d, nxt = Some a, prv = x\<rparr>" "cells h a = Some \<lparr>con = c, nxt = n, prv = Some b\<rparr>"
    and rest: "dseg (cells h) (Some a) n zs l None"
    and ab: "a < brk h" "b < brk h" "a \<noteq> b" "a \<notin> fst ` set ys" "a \<notin> fst ` set zs" "b \<notin> fst ` set ys" "b \<notin> fst ` set zs"
    and dist: "distinct (map fst ys)" "distinct (map fst zs)" "fst ` set ys \<inter> fst ` set zs = {}"
      "\<forall>a \<in> fst ` set ys. a < brk h" "\<forall>a \<in> fst ` set zs. a < brk h"
    by (auto simp: dll_def)
  have p: "p \<noteq> Some a" using x ab by (cases ys) auto
  have "dropWhile (\<lambda>(a, y). con_id y \<noteq> i) (ys @ (b, d) # (a, c) # zs) = (a, c) # zs"
    using assms(2,3) by (auto simp: dropWhile_append)
  then have adv: "advance (Suc (brk h)) (\<lambda>d. con_id d \<noteq> i) h p = Inr (Some a)"
    using dll_advance [OF assms(1), of "\<lambda>d. con_id d \<noteq> i"] by (simp add: first_ptr_def)
  show ?thesis
  proof (cases zs)
    case Nil
    with rest p nd adv x ab dist show ?thesis by (auto simp: remove_id_def free_def dll_def)
  next
    case (Cons z zs')
    obtain f e where z: "z = (f, e)" by (cases z)
    with Cons ab dist have "f \<notin> fst ` set ys" "f \<noteq> a" "f \<noteq> b" "f \<notin> fst ` set zs'" by auto
    with Cons z rest p nd adv x ab dist show ?thesis by (auto simp: remove_id_def free_def dll_def)
  qed
qed

lemma remove_id_missing:
  assumes "dll h p xs" and "i \<notin> ids (map snd xs)"
  shows "remove_id h p i = Inr (False, h, p)"
proof -
  have d: "dropWhile (\<lambda>(a, y). con_id y \<noteq> i) xs = []"
    using assms(2) by (force simp: ids_def)
  have "advance (Suc (brk h)) (\<lambda>d. con_id d \<noteq> i) h p = Inr None"
    unfolding dll_advance [OF assms(1)] d by (simp add: first_ptr_def)
  then show ?thesis by (simp add: remove_id_def)
qed

text \<open>The first contact with the id is removed and its memory is returned.\<close>

lemma remove_id_dll:
  assumes "dll h p xs" and "i \<in> ids (map snd xs)"
  shows "\<exists>h' p' ys a c zs. xs = ys @ (a, c) # zs \<and> con_id c = i \<and> i \<notin> ids (map snd ys)
    \<and> remove_id h p i = Inr (True, h', p') \<and> dll h' p' (ys @ zs)
    \<and> brk h' = brk h \<and> avail h' = Suc (avail h)"
proof -
  from assms(2) have "\<exists>x \<in> set xs. con_id (snd x) = i" by (auto simp: ids_def)
  from split_list_first_prop [OF this] obtain ys x zs where
    xs: "xs = ys @ x # zs" "con_id (snd x) = i" "\<forall>y \<in> set ys. con_id (snd y) \<noteq> i" by blast
  obtain a c where x: "x = (a, c)" by (cases x)
  have i: "i \<notin> ids (map snd ys)" using xs(3) by (auto simp: ids_def)
  show ?thesis
  proof (cases ys rule: rev_cases)
    case Nil
    from remove_id_first [of h p a c zs i] assms(1) xs(1,2) x Nil obtain h' p' where
      "remove_id h p i = Inr (True, h', p')" "dll h' p' (ys @ zs)" "brk h' = brk h" "avail h' = Suc (avail h)"
      by auto
    with xs(1,2) x i show ?thesis by auto
  next
    case (snoc ys' y)
    obtain b d where y: "y = (b, d)" by (cases y)
    from remove_id_later [of h p ys' b d a c zs i] assms(1) xs x snoc y obtain h' where
      "remove_id h p i = Inr (True, h', p)" "dll h' p (ys @ zs)" "brk h' = brk h" "avail h' = Suc (avail h)"
      by auto
    with xs(1,2) x i show ?thesis by auto
  qed
qed

section \<open>The list is a contact store\<close>

lemma takeWhile_ordered:
  "ordered (map snd xs) \<Longrightarrow> takeWhile (below c) xs = filter (below c) xs
    \<and> dropWhile (below c) xs = filter (\<lambda>x. \<not> below c x) xs"
proof (induction xs)
  case Nil
  then show ?case by simp
next
  case (Cons x xs)
  then have "\<not> below c x \<Longrightarrow> \<forall>y \<in> set xs. \<not> below c y"
    by (cases x) (force simp: below_def)
  with Cons show ?case by (auto simp: filter_empty_conv)
qed

lemma insert_l_add_sorted:
  assumes "ordered (map snd xs)" and "con_id c \<notin> ids (map snd xs)"
  shows "map snd (takeWhile (below c) xs @ (a, c) # dropWhile (below c) xs) = add_sorted c (map snd xs)"
proof -
  have "filter (\<lambda>x. \<not> below c x) xs = filter (\<lambda>x. con_id c < con_id (snd x)) xs"
    using assms(2) by (intro filter_cong) (auto simp: below_def ids_def image_iff not_less le_less)
  moreover have "below c = (\<lambda>x. con_id (snd x) < con_id c)" by (auto simp: below_def)
  ultimately show ?thesis
    using takeWhile_ordered [OF assms(1), of c] by (simp add: add_sorted_def filter_map o_def)
qed

lemma drop_id_split:
  assumes "ordered (map snd (ys @ (a, c) # zs))"
  shows "drop_id (con_id c) (map snd (ys @ (a, c) # zs)) = map snd (ys @ zs)"
proof -
  from assms have "\<forall>d \<in> set (map snd ys). con_id d \<noteq> con_id c" "\<forall>d \<in> set (map snd zs). con_id d \<noteq> con_id c"
    by auto
  then have "con_id c \<notin> ids (map snd ys)" "con_id c \<notin> ids (map snd zs)"
    unfolding ids_def by (metis imageE)+
  then show ?thesis using drop_id_absent [of "con_id c"] by (simp add: drop_id_def)
qed

lemma insert_l_ok:
  assumes "dll h p xs" and "ordered (map snd xs)" and "0 < avail h" and "con_id c \<notin> ids (map snd xs)"
  shows "\<exists>h' p' ys. insert_l h p c = Inr (h', p') \<and> dll h' p' ys
    \<and> map snd ys = add_sorted c (map snd xs) \<and> length ys = Suc (length xs) \<and> avail h' = avail h - 1"
proof -
  let ?ys = "takeWhile (below c) xs @ (brk h, c) # dropWhile (below c) xs"
  have "length (takeWhile (below c) xs @ dropWhile (below c) xs) = length xs"
    by (rule arg_cong [OF takeWhile_dropWhile_id])
  then have "length ?ys = Suc (length xs)" by (simp del: takeWhile_dropWhile_id)
  with insert_l_dll [OF assms(1,3)] insert_l_add_sorted [OF assms(2,4), of "brk h"] show ?thesis
    by blast
qed

lemma remove_id_ok:
  assumes "dll h p xs" and "ordered (map snd xs)"
  shows "\<exists>h' p' ys. remove_id h p i = Inr (i \<in> ids (map snd xs), h', p') \<and> dll h' p' ys
    \<and> map snd ys = drop_id i (map snd xs) \<and> avail h' + length ys = avail h + length xs \<and> avail h \<le> avail h'"
proof (cases "i \<in> ids (map snd xs)")
  case True
  from remove_id_dll [OF assms(1) True] obtain h' p' ys a c zs where
    1: "xs = ys @ (a, c) # zs" "con_id c = i" "remove_id h p i = Inr (True, h', p')" "dll h' p' (ys @ zs)"
      "avail h' = Suc (avail h)" by blast
  have "map snd (ys @ zs) = drop_id i (map snd xs)"
    using drop_id_split [of ys a c zs] assms(2) 1(1,2) by simp
  with 1 True show ?thesis by (intro exI [of _ h'] exI [of _ p'] exI [of _ "ys @ zs"]) auto
next
  case False
  with remove_id_missing [OF assms(1)] assms(1) show ?thesis by auto
qed

lemma dseg_nth: "dseg m pr p (ys @ (a, c) # zs) l q \<Longrightarrow> \<exists>n. m a = Some n \<and> con n = c"
  by auto

lemma look_l_find:
  assumes "dll h p xs"
  shows "look_l i (h, p) = find_id i (map snd xs)"
proof (cases "i \<in> ids (map snd xs)")
  case True
  then have "\<exists>x \<in> set xs. con_id (snd x) = i" by (auto simp: ids_def)
  from split_list_first_prop [OF this] obtain ys a c zs where
    xs: "xs = ys @ (a, c) # zs" "con_id c = i" "\<forall>y \<in> set ys. con_id (snd y) \<noteq> i" by (metis prod.collapse snd_conv)
  then have "dropWhile (\<lambda>(a, y). con_id y \<noteq> i) xs = (a, c) # zs"
    by (auto simp: dropWhile_append)
  moreover have "find_id i (map snd ys) = None"
    using xs(3) by (auto simp: find_id_None ids_def)
  moreover obtain n where "cells h a = Some n" "con n = c"
    using assms xs(1) dseg_nth by (metis dll_def)
  ultimately show ?thesis
    using dll_advance [OF assms, of "\<lambda>d. con_id d \<noteq> i"] xs(1,2) by (simp add: look_l_def first_ptr_def)
next
  case False
  then have d: "dropWhile (\<lambda>(a, y). con_id y \<noteq> i) xs = []" by (force simp: ids_def)
  have "look_l i (h, p) = None"
    unfolding look_l_def using dll_advance [OF assms, of "\<lambda>d. con_id d \<noteq> i", unfolded d]
    by (simp add: first_ptr_def)
  with False find_id_None [of i "map snd xs"] show ?thesis by simp
qed

interpretation list_store: contact_store ins_l del_l look_l contacts_l list_ok room_l
proof
  show "\<And>s. list_ok s \<Longrightarrow> ordered (contacts_l s)"
    by (auto simp: list_ok_def contacts_dll)
  show "\<And>s n (c :: contact). list_ok s \<Longrightarrow> room_l (Suc n) s \<Longrightarrow> con_id c \<notin> ids (contacts_l s) \<Longrightarrow>
      \<exists>s'. ins_l c s = Inr s' \<and> list_ok s' \<and> room_l n s' \<and> contacts_l s' = add_sorted c (contacts_l s)"
  proof -
    fix s n and c :: contact assume s: "list_ok s" "room_l (Suc n) s" "con_id c \<notin> ids (contacts_l s)"
    obtain h p where hp: "s = (h, p)" by (cases s)
    with s obtain xs where xs: "dll h p xs" "ordered (map snd xs)" by (auto simp: list_ok_def)
    from insert_l_ok [OF xs, of c] s hp contacts_dll [OF xs(1)] obtain h' p' ys where
      1: "insert_l h p c = Inr (h', p')" "dll h' p' ys" "map snd ys = add_sorted c (map snd xs)"
        "avail h' = avail h - 1" by (auto simp: room_l_def)
    then have "contacts_l (h', p') = add_sorted c (contacts_l s)"
      using contacts_dll [OF 1(2)] contacts_dll [OF xs(1)] hp by simp
    moreover have "list_ok (h', p')" using 1(2,3) xs(2) by (auto simp: list_ok_def)
    ultimately show "\<exists>s'. ins_l c s = Inr s' \<and> list_ok s' \<and> room_l n s' \<and> contacts_l s' = add_sorted c (contacts_l s)"
      using 1 s(2) hp by (intro exI [of _ "(h', p')"]) (auto simp: ins_l_def room_l_def)
  qed
  show "\<And>s i. list_ok s \<Longrightarrow> i \<in> ids (contacts_l s) \<Longrightarrow>
      \<exists>s'. del_l i s = Inr s' \<and> list_ok s' \<and> (\<forall>n. room_l n s \<longrightarrow> room_l n s') \<and> contacts_l s' = drop_id i (contacts_l s)"
  proof -
    fix s i assume s: "list_ok s" "i \<in> ids (contacts_l s)"
    obtain h p where hp: "s = (h, p)" by (cases s)
    with s obtain xs where xs: "dll h p xs" "ordered (map snd xs)" by (auto simp: list_ok_def)
    from remove_id_ok [OF xs, of i] obtain h' p' ys b where
      1: "remove_id h p i = Inr (b, h', p')" "dll h' p' ys" "map snd ys = drop_id i (map snd xs)"
        "avail h \<le> avail h'" by blast
    then have "contacts_l (h', p') = drop_id i (contacts_l s)"
      using contacts_dll [OF 1(2)] contacts_dll [OF xs(1)] hp by simp
    moreover have "list_ok (h', p')" using 1(2,3) xs(2) by (auto simp: list_ok_def)
    ultimately show "\<exists>s'. del_l i s = Inr s' \<and> list_ok s' \<and> (\<forall>n. room_l n s \<longrightarrow> room_l n s') \<and> contacts_l s' = drop_id i (contacts_l s)"
      using 1 hp by (intro exI [of _ "(h', p')"]) (auto simp: del_l_def room_l_def)
  qed
  show "\<And>s i. list_ok s \<Longrightarrow> look_l i s = find_id i (contacts_l s)"
    by (auto simp: list_ok_def look_l_find contacts_dll)
  show "\<And>n s. room_l (Suc n) s \<Longrightarrow> room_l n s"
    by (auto simp: room_l_def)
qed

section \<open>The handlers keep the invariant\<close>

lemma init_l_inv: "list_inv mem (init_l mem)"
  by (simp add: list_inv_def init_l_def dll_def)

lemma add_sorted_last:
  assumes "\<forall>d \<in> set cs. con_id d < con_id c"
  shows "add_sorted c cs = cs @ [c]"
  using assms by (auto simp: add_sorted_def intro!: filter_all filter_none)

lemma addContact_l_insert:
  assumes "addContact_l g s w = Inr (s', w')" and "wf_frame g"
  shows "\<exists>c. insert_l (hp s) (head s) c = Inr (hp s', head s') \<and> wf_contact c
    \<and> con_id c = contactCount s \<and> contactCount s' = contactCount s + 1 \<and> in_int (contactCount s')"
proof -
  from assms(1) obtain c1 v1 c2 v2 where
    1: "read_names (loc_con g) w = Inr (c1, v1)" "ask_social ''Yy'' (loc_char g) c1 v1 = Inr (c2, v2)"
      "insert_l (hp s) (head s) (c2\<lparr>con_id := contactCount s\<rparr>) = Inr (hp s', head s')"
      "contactCount s' = contactCount s + 1" "in_int (contactCount s')"
    by (auto simp: addContact_l_def Let_def)
  from read_names_wf [OF 1(1)] ask_social_wf [OF 1(2)] assms(2) have "wf_contact c2"
    by (simp add: wf_frame_def)
  with 1 show ?thesis by (intro exI [of _ "c2\<lparr>con_id := contactCount s\<rparr>"]) simp
qed

lemma addContact_l_inv:
  assumes "addContact_l g s w = Inr (s', w')" and "wf_frame g" and "list_inv mem s"
  shows "list_inv mem s'"
proof -
  from addContact_l_insert [OF assms(1,2)] obtain c where
    c: "insert_l (hp s) (head s) c = Inr (hp s', head s')" "wf_contact c" "con_id c = contactCount s"
      "contactCount s' = contactCount s + 1" by blast
  from assms(3) obtain xs where xs: "dll (hp s) (head s) xs" "ordered (map snd xs)"
    "\<forall>d \<in> set (map snd xs). wf_contact d \<and> 0 \<le> con_id d \<and> con_id d < contactCount s"
    "0 \<le> contactCount s" "avail (hp s) + length xs = mem" by (auto simp: list_inv_def)
  have new: "con_id c \<notin> ids (map snd xs)" using xs(3) c(3) by (auto simp: ids_def)
  have a: "0 < avail (hp s)" using c(1) by (auto simp: insert_l_def createNode_l_def split: if_splits)
  from insert_l_ok [OF xs(1,2) a new] c(1) obtain ys where
    ys: "dll (hp s') (head s') ys" "map snd ys = add_sorted c (map snd xs)" "length ys = Suc (length xs)"
      "avail (hp s') = avail (hp s) - 1" by auto
  have "\<forall>d \<in> set (map snd ys). wf_contact d \<and> 0 \<le> con_id d \<and> con_id d < contactCount s'"
    using ys(2) xs(3,4) c(2,3,4) by (force simp: add_sorted_def)
  moreover have "ordered (map snd ys)" using ys(2) xs(2) by simp
  ultimately show ?thesis
    using ys(1,3,4) a xs(4,5) c(4) by (auto simp: list_inv_def)
qed

lemma removeNode_inv:
  assumes "removeNode g (hp s) (head s) w = Inr (h, p, w')" and "list_inv mem s"
  shows "list_inv mem (s\<lparr>hp := h, head := p\<rparr>)"
proof -
  from assms(1) obtain i b where r: "remove_id (hp s) (head s) i = Inr (b, h, p)"
    by (auto simp: removeNode_def)
  from assms(2) obtain xs where xs: "dll (hp s) (head s) xs" "ordered (map snd xs)"
    "\<forall>d \<in> set (map snd xs). wf_contact d \<and> 0 \<le> con_id d \<and> con_id d < contactCount s"
    "0 \<le> contactCount s" "avail (hp s) + length xs = mem" by (auto simp: list_inv_def)
  from remove_id_ok [OF xs(1,2), of i] r obtain ys where
    ys: "dll h p ys" "map snd ys = drop_id i (map snd xs)" "avail h + length ys = avail (hp s) + length xs"
    by auto
  have "\<forall>d \<in> set (map snd ys). wf_contact d \<and> 0 \<le> con_id d \<and> con_id d < contactCount s"
    unfolding ys(2) using xs(3) by (auto simp: drop_id_def)
  moreover have "ordered (map snd ys)" using ys(2) xs(2) by simp
  ultimately show ?thesis
    unfolding list_inv_def using ys(1,3) xs(4,5) by (intro exI [of _ ys]) simp
qed

lemma dseg_update:
  "dseg m pr p (ys @ (a, c) # zs) l q \<Longrightarrow> distinct (map fst (ys @ (a, c) # zs)) \<Longrightarrow> m a = Some n \<Longrightarrow>
    dseg (m(a := Some (n\<lparr>con := d\<rparr>))) pr p (ys @ (a, d) # zs) l q"
  by auto

lemma store_con_dll:
  assumes "dll h p xs" and "first_ptr (dropWhile (\<lambda>(a, c). P c) xs) = Some a" and "cells h a = Some n"
  shows "\<exists>ys zs. xs = ys @ (a, con n) # zs \<and> \<not> P (con n)
    \<and> dll (h\<lparr>cells := (cells h)(a := Some (n\<lparr>con := d\<rparr>))\<rparr>) p (ys @ (a, d) # zs)"
proof -
  let ?ys = "takeWhile (\<lambda>(a, c). P c) xs"
  from assms(2) obtain c zs where z: "dropWhile (\<lambda>(a, c). P c) xs = (a, c) # zs"
    by (auto simp: first_ptr_def split: list.splits)
  then have xs: "xs = ?ys @ (a, c) # zs" by (metis takeWhile_dropWhile_id)
  have P: "\<not> P c" using z by (auto simp: dropWhile_eq_Cons_conv)
  from assms(1) obtain l where l: "dseg (cells h) None p (?ys @ (a, c) # zs) l None"
    and d: "distinct (map fst (?ys @ (a, c) # zs))" "\<forall>x \<in> fst ` set (?ys @ (a, c) # zs). x < brk h"
    unfolding dll_def by (metis xs)
  have c: "con n = c" using dseg_nth [OF l] assms(3) by auto
  have "dll (h\<lparr>cells := (cells h)(a := Some (n\<lparr>con := d\<rparr>))\<rparr>) p (?ys @ (a, d) # zs)"
    unfolding dll_def using dseg_update [OF l d(1) assms(3), of d] d
    by (intro conjI exI [of _ l]) (simp_all del: dseg_append)
  with xs P c show ?thesis by blast
qed

lemma editContact_l_cases:
  assumes "editContact_l g s w = Inr (s', w')" and "dll (hp s) (head s) xs"
  obtains "s' = s" | i v a n d where
      "first_ptr (dropWhile (\<lambda>(a, c). con_id c \<noteq> i) xs) = Some a" "cells (hp s) a = Some n"
      "edit_fields firstname (Some (con n)) (loc_buf g) v = Inr (Some d, w')"
      "s' = s\<lparr>hp := (hp s)\<lparr>cells := (cells (hp s))(a := Some (n\<lparr>con := d\<rparr>))\<rparr>\<rparr>"
proof -
  from assms(1) obtain i v where
    e: "bindE (advance (Suc (brk (hp s))) (\<lambda>d. con_id d \<noteq> i) (hp s) (head s)) (\<lambda>current.
     if current = None then Inr (s, printf (''Contact not found!'' @ [NL]) v)
     else bindE (load (hp s) current) (\<lambda>n.
       bindE (edit_fields firstname (Some (con n)) (loc_buf g) v) (\<lambda>(c, w).
       case c of None \<Rightarrow> Inl NullDeref | Some c \<Rightarrow>
         bindE (store (hp s) current (\<lambda>n. n\<lparr>con := c\<rparr>)) (\<lambda>h. Inr (s\<lparr>hp := h\<rparr>, w))))) = Inr (s', w')"
    unfolding editContact_l_def by (auto simp del: bindE_eq_Inr simp: bindE_eq_Inr [of "scanf_d _ _"])
  let ?q = "first_ptr (dropWhile (\<lambda>(a, c). con_id c \<noteq> i) xs)"
  show thesis
  proof (cases ?q)
    case None
    with e dll_advance [OF assms(2), of "\<lambda>d. con_id d \<noteq> i"] that(1) show thesis by simp
  next
    case (Some a)
    with e dll_advance [OF assms(2), of "\<lambda>d. con_id d \<noteq> i"] obtain n where
      n: "load (hp s) (Some a) = Inr n" and e2: "bindE (edit_fields firstname (Some (con n)) (loc_buf g) v) (\<lambda>(c, w).
       case c of None \<Rightarrow> Inl NullDeref | Some c \<Rightarrow>
         bindE (store (hp s) (Some a) (\<lambda>n. n\<lparr>con := c\<rparr>)) (\<lambda>h. Inr (s\<lparr>hp := h\<rparr>, w))) = Inr (s', w')"
      by (auto simp del: bindE_eq_Inr simp: bindE_eq_Inr [of "load _ _"])
    from n have c: "cells (hp s) a = Some n" by (simp add: load_def split: option.splits)
    from e2 c obtain d where "edit_fields firstname (Some (con n)) (loc_buf g) v = Inr (Some d, w')"
      "s' = s\<lparr>hp := (hp s)\<lparr>cells := (cells (hp s))(a := Some (n\<lparr>con := d\<rparr>))\<rparr>\<rparr>"
      by (auto split: option.splits)
    with Some c that(2) show thesis by blast
  qed
qed

lemma editContact_l_inv:
  assumes "editContact_l g s w = Inr (s', w')" and "wf_frame g" and "list_inv mem s"
  shows "list_inv mem s'"
proof -
  from assms(3) obtain xs where xs: "dll (hp s) (head s) xs" "ordered (map snd xs)"
    "\<forall>d \<in> set (map snd xs). wf_contact d \<and> 0 \<le> con_id d \<and> con_id d < contactCount s"
    "0 \<le> contactCount s" "avail (hp s) + length xs = mem" by (auto simp: list_inv_def)
  from assms(1) xs(1) show ?thesis
  proof (cases rule: editContact_l_cases)
    case 1
    then show ?thesis using assms(3) by simp
  next
    case (2 i v a n d)
    from store_con_dll [OF xs(1) 2(1,2), of d] obtain ys zs where
      z: "xs = ys @ (a, con n) # zs"
        "dll (hp s') (head s') (ys @ (a, d) # zs)" using 2(4) by auto
    have "wf_contact (con n)" using xs(3) z(1) by auto
    from edit_fields_wf [OF 2(3) this] assms(2) have d: "wf_contact d" "con_id d = con_id (con n)"
      by (auto simp: wf_frame_def)
    then have "ordered (map snd (ys @ (a, d) # zs))" using xs(2) z(1) by auto
    with d z xs(3,4,5) 2(4) show ?thesis
      unfolding list_inv_def by (intro exI [of _ "ys @ (a, d) # zs"]) auto
  qed
qed

lemma switch_l_inv:
  assumes "switch_l g choice s w = Inr (s', w')" and "wf_frame g" and "list_inv mem s"
  shows "list_inv mem s'"
  using assms
  by (auto simp: switch_l_def split: if_splits
      intro: addContact_l_inv editContact_l_inv removeNode_inv)

lemma main_body_l_inv:
  assumes "wf_frame g" and "list_inv mem s"
    and "main_body_l g (choice, s, w) = Inr ((choice', s', w'), again)"
  shows "list_inv mem s'"
proof -
  from assms(3) obtain v ch where "switch_l g ch s v = Inr (s', w')"
    by (auto simp: main_body_l_def split_beta)
  then show ?thesis using assms(1,2) by (rule switch_l_inv)
qed

interpretation list_loop: loop_invariant "\<lambda>k. main_body_l (gs k)"
    "\<lambda>(choice, s, w). (\<forall>k. wf_frame (gs k)) \<and> list_inv mem s" for gs mem
  by unfold_locales (auto dest: main_body_l_inv)

subsection \<open>Printing\<close>

lemma show_contact_l_ok: "terminated c \<Longrightarrow> show_contact_l c = Inr (text_of_l c)"
  by (simp add: text_of_l_def show_contact_l_def terminated_def cstr_def)

lemma printNode_dseg:
  "dseg (cells h) pr p xs l None \<Longrightarrow> length xs < k \<Longrightarrow> \<forall>c \<in> set (map snd xs). terminated c \<Longrightarrow>
    printNode k h p w = Inr (printf (concat (map text_of_l (map snd xs))) w)"
proof (induction xs arbitrary: pr p k w)
  case Nil
  then show ?case by (cases k) (auto simp: printNode.simps printf_def)
next
  case (Cons x xs)
  then show ?case by (cases k; cases x) (auto simp: printNode.simps show_contact_l_ok printf_def)
qed

lemma list_inv_dll:
  assumes "list_inv mem s"
  obtains xs where "dll (hp s) (head s) xs" "ordered (map snd xs)" "contacts_l (hp s, head s) = map snd xs"
    "\<forall>d \<in> set (map snd xs). wf_contact d \<and> 0 \<le> con_id d \<and> con_id d < contactCount s"
    "0 \<le> contactCount s" "avail (hp s) + length xs = mem"
  using assms contacts_dll by (auto simp: list_inv_def)

lemma sample_book_dll: "dll (hp sample_book) (head sample_book) [(0, blank_contact), (1, blank_contact\<lparr>con_id := 1\<rparr>)]"
  by (simp add: dll_def sample_book_def)

lemma sample_book_inv: "list_inv 5 sample_book"
  unfolding list_inv_def
  by (rule exI [of _ "[(0, blank_contact), (1, blank_contact\<lparr>con_id := 1\<rparr>)]"])
    (use sample_book_dll in \<open>simp add: sample_book_def blank_contact_def [THEN arg_cong, of con_id]\<close>)

section \<open>Properties\<close>

text \<open>
  C3: Whatever is typed, if the program leaves its menu then its list is consistent in
  both directions and ordered by id, every contact in it is well-formed and carries an id
  the counter gave out, and the nodes in use and the memory left add up to the memory
  there was: no node is lost and none is freed twice.
\<close>

theorem list_main_inv:
  assumes "main_l fuel junk gs mem w = Inr (choice, s, w')" and "\<And>k. wf_frame (gs k)"
  shows "list_inv mem s"
  using list_loop.loop_keeps_inv [OF assms(1) [unfolded main_l_def], of mem] init_l_inv assms(2)
  by simp

theorem list_main_inv_witness:
  "\<exists>choice s w'. main_l 4 0 (\<lambda>_. blank_frame) 8 (console ''1 a b c N 1 d e f N 3 0 5'') = Inr (choice, s, w') \<and>
     map con_id (contacts_l (hp s, head s)) = [1] \<and> list_inv 8 s"
proof -
  have wf: "wf_frame blank_frame"
    by (simp add: wf_frame_def) (simp add: blank_frame_def MAX_C_def)
  have "case main_l 4 0 (\<lambda>_. blank_frame) 8 (console ''1 a b c N 1 d e f N 3 0 5'') of
      Inl _ \<Rightarrow> False | Inr (_, s, _) \<Rightarrow> map con_id (contacts_l (hp s, head s)) = [1]"
    by code_simp
  then obtain choice s w' where
    m: "main_l 4 0 (\<lambda>_. blank_frame) 8 (console ''1 a b c N 1 d e f N 3 0 5'') = Inr (choice, s, w')"
    and i: "map con_id (contacts_l (hp s, head s)) = [1]"
    by (auto split: sum.splits)
  show ?thesis
    by (intro exI conjI) (rule m, rule i, rule list_main_inv [OF m wf])
qed

text \<open>
  Adding a contact appends one contact to the list, with an id that no contact of
  the list has, and uses one unit of memory; the counter moves on by one.
\<close>

theorem list_add_appends:
  assumes "addContact_l g s w = Inr (s', w')" and "wf_frame g" and "list_inv mem s"
  shows "\<exists>c. contacts_l (hp s', head s') = contacts_l (hp s, head s) @ [c] \<and> wf_contact c
    \<and> con_id c = contactCount s \<and> con_id c \<notin> ids (contacts_l (hp s, head s))
    \<and> contactCount s' = contactCount s + 1 \<and> Suc (avail (hp s')) = avail (hp s)"
proof -
  from addContact_l_insert [OF assms(1,2)] obtain c where
    c: "insert_l (hp s) (head s) c = Inr (hp s', head s')" "wf_contact c" "con_id c = contactCount s"
      "contactCount s' = contactCount s + 1" by blast
  from assms(3) obtain xs where xs: "dll (hp s) (head s) xs" "ordered (map snd xs)"
    "contacts_l (hp s, head s) = map snd xs"
    "\<forall>d \<in> set (map snd xs). wf_contact d \<and> 0 \<le> con_id d \<and> con_id d < contactCount s"
    by (rule list_inv_dll)
  have new: "con_id c \<notin> ids (map snd xs)" using xs(4) c(3) by (auto simp: ids_def)
  have a: "0 < avail (hp s)" using c(1) by (auto simp: insert_l_def createNode_l_def split: if_splits)
  from insert_l_ok [OF xs(1,2) a new] c(1) obtain ys where
    ys: "dll (hp s') (head s') ys" "map snd ys = add_sorted c (map snd xs)" "avail (hp s') = avail (hp s) - 1"
    by auto
  have "add_sorted c (map snd xs) = map snd xs @ [c]"
    using xs(4) c(3) by (intro add_sorted_last) simp
  with contacts_dll [OF ys(1)] ys(2,3) xs(3) c new a show ?thesis by auto
qed

theorem list_add_appends_witness:
  "\<exists>s' w' c. addContact_l blank_frame sample_book (console ''a b c N'') = Inr (s', w')
    \<and> contacts_l (hp s', head s') = contacts_l (hp sample_book, head sample_book) @ [c] \<and> con_id c = 2"
proof -
  have wf: "wf_frame blank_frame"
    by (simp add: wf_frame_def) (simp add: blank_frame_def MAX_C_def)
  have "is_ok (addContact_l blank_frame sample_book (console ''a b c N''))" by code_simp
  then obtain s' w' where m: "addContact_l blank_frame sample_book (console ''a b c N'') = Inr (s', w')"
    by (auto simp: is_ok_iff)
  from list_add_appends [OF m wf sample_book_inv] obtain c where
    "contacts_l (hp s', head s') = contacts_l (hp sample_book, head sample_book) @ [c]" "con_id c = contactCount sample_book"
    by blast
  with m show ?thesis by (auto simp: sample_book_def)
qed

text \<open>
  C24: Deleting by id always succeeds: the contact with that id leaves the list and its
  memory is returned, every other contact stays in its place, and an id that is not there
  is reported and changes nothing.
\<close>

theorem list_remove_contact:
  assumes "list_inv mem s"
    and "scanf_d (loc_int g) (printf ''Input ID to delete contact: '' w) = Inr (i, v)"
  shows "\<exists>h p. removeNode g (hp s) (head s) w = Inr (h, p,
        printf (if i \<in> ids (contacts_l (hp s, head s)) then ''Contact deleted.'' @ [NL] else ''Contact not found!'' @ [NL]) v)
      \<and> contacts_l (h, p) = drop_id i (contacts_l (hp s, head s))
      \<and> avail h + length (contacts_l (h, p)) = mem"
proof -
  from assms(1) obtain xs where xs: "dll (hp s) (head s) xs" "ordered (map snd xs)"
    "contacts_l (hp s, head s) = map snd xs" "avail (hp s) + length xs = mem" by (rule list_inv_dll)
  from remove_id_ok [OF xs(1,2), of i] obtain h p ys where
    r: "remove_id (hp s) (head s) i = Inr (i \<in> ids (map snd xs), h, p)" "dll h p ys"
      "map snd ys = drop_id i (map snd xs)" "avail h + length ys = avail (hp s) + length xs" by blast
  have "length (contacts_l (h, p)) = length ys" using contacts_dll [OF r(2)] by simp
  with contacts_dll [OF r(2)] r xs(3,4) assms(2) show ?thesis
    by (intro exI [of _ h] exI [of _ p]) (simp add: removeNode_def)
qed

theorem list_remove_contact_witness:
  "\<exists>h p. removeNode blank_frame (hp sample_book) (head sample_book) (console ''0'') = Inr (h, p,
        printf (if 0 \<in> ids (contacts_l (hp sample_book, head sample_book))
                then ''Contact deleted.'' @ [NL] else ''Contact not found!'' @ [NL])
          (printf ''Input ID to delete contact: '' (console [])))
      \<and> contacts_l (h, p) = drop_id 0 (contacts_l (hp sample_book, head sample_book))
      \<and> avail h + length (contacts_l (h, p)) = 5"
proof -
  have "scanf_d (loc_int blank_frame) (printf ''Input ID to delete contact: '' (console ''0'')) =
      Inr (0, printf ''Input ID to delete contact: '' (console []))"
    by code_simp
  from list_remove_contact [OF sample_book_inv this] show ?thesis .
qed

text \<open>
  C12: Editing a stored contact with five lines typed for its fields replaces each field by
  the line typed for it, keeps the fields whose line is empty, keeps the id, and touches
  no other contact.
\<close>

theorem list_edit_typed:
  assumes "list_inv mem s" and "wf_frame g"
    and "contacts_l (hp s, head s) = as @ c # bs"
    and "scanf_d (loc_int g) (printf ''Input id which contact you want to edit: '' w) = Inr (con_id c, v)"
    and "stdin v = c0 # l1 @ NL # l2 @ NL # l3 @ NL # l4 @ NL # l5 @ NL # r"
    and "good_line l1" "good_line l2" "good_line l3" "good_line l4" "good_line l5"
  shows "\<exists>s' w' c'. editContact_l g s w = Inr (s', w') \<and> stdin w' = r
    \<and> contacts_l (hp s', head s') = as @ c' # bs \<and> con_id c' = con_id c
    \<and> field_after l1 (lastname c) (lastname c') \<and> field_after l2 (firstname c) (firstname c')
    \<and> field_after l3 (middlename c) (middlename c')
    \<and> field_after l4 (get_link c) (get_link c') \<and> field_after l5 (get_number c) (get_number c')"
proof -
  from assms(1) obtain xs where xs: "dll (hp s) (head s) xs" "ordered (map snd xs)"
    "contacts_l (hp s, head s) = map snd xs"
    "\<forall>d \<in> set (map snd xs). wf_contact d \<and> 0 \<le> con_id d \<and> con_id d < contactCount s" by (rule list_inv_dll)
  have "map snd xs = as @ c # bs" using xs(3) assms(3) by simp
  then obtain ys a zs where
    z: "xs = ys @ (a, c) # zs" "map snd ys = as" "map snd zs = bs"
    by (auto simp: map_eq_append_conv map_eq_Cons_conv)
  have before: "\<forall>y \<in> set ys. con_id (snd y) \<noteq> con_id c" using xs(2) z(1) by auto
  then have dw: "dropWhile (\<lambda>(a, d). con_id d \<noteq> con_id c) xs = (a, c) # zs"
    by (auto simp: z(1) dropWhile_append)
  have first: "first_ptr (dropWhile (\<lambda>(a, d). con_id d \<noteq> con_id c) xs) = Some a"
    unfolding dw by (simp add: first_ptr_def)
  obtain n where n: "cells (hp s) a = Some n" "con n = c"
    using xs(1) z(1) dseg_nth by (metis dll_def)
  have "wf_contact c" "length (loc_buf g) = MAX_C" using xs(4) z(1) assms(2) by (auto simp: wf_frame_def)
  from edit_fields_typed [OF assms(5-10) this(2,1)] obtain c' w' where
    e: "edit_fields firstname (Some c) (loc_buf g) v = Inr (Some c', w')" "stdin w' = r"
      "con_id c' = con_id c"
      "field_after l1 (lastname c) (lastname c')" "field_after l2 (firstname c) (firstname c')"
      "field_after l3 (middlename c) (middlename c')"
      "field_after l4 (get_link c) (get_link c')" "field_after l5 (get_number c) (get_number c')"
    by blast
  let ?h = "(hp s)\<lparr>cells := (cells (hp s))(a := Some (n\<lparr>con := c'\<rparr>))\<rparr>"
  have adv: "advance (Suc (brk (hp s))) (\<lambda>d. con_id d \<noteq> con_id c) (hp s) (head s) = Inr (Some a)"
    using dll_advance [OF xs(1), of "\<lambda>d. con_id d \<noteq> con_id c"] first by simp
  have "editContact_l g s w = Inr (s\<lparr>hp := ?h\<rparr>, w')"
    using assms(4) adv e(1) n by (simp add: editContact_l_def)
  moreover from store_con_dll [OF xs(1) first n(1), of c'] obtain ys' zs' where
    u: "xs = ys' @ (a, con n) # zs'" "dll ?h (head s) (ys' @ (a, c') # zs')" by blast
  have "distinct (map fst xs)" using xs(1) by (simp add: dll_def)
  with u(1) z(1) have "ys' = ys" "zs' = zs"
    by (auto simp: append_eq_append_conv2 append_eq_Cons_conv Cons_eq_append_conv)
  with u(2) z(2,3) contacts_dll [OF u(2)] have "contacts_l (?h, head s) = as @ c' # bs" by simp
  ultimately show ?thesis using e by (intro exI [of _ "s\<lparr>hp := ?h\<rparr>"] exI [of _ w'] exI [of _ c']) simp
qed

theorem list_edit_typed_witness:
  "\<exists>s' w' c'. editContact_l blank_frame sample_book
        (console (''1'' @ [NL] @ ''Ivanov'' @ [NL] @ ''Ivan'' @ [NL] @ [NL] @ [NL] @ ''555'' @ [NL])) = Inr (s', w')
    \<and> contacts_l (hp s', head s') = [blank_contact, c'] \<and> con_id c' = 1
    \<and> cstr (lastname c') = Inr ''Ivanov'' \<and> cstr (firstname c') = Inr ''Ivan''
    \<and> middlename c' = middlename blank_contact \<and> cstr (get_number c') = Inr ''555''"
proof -
  let ?w = "console (''1'' @ [NL] @ ''Ivanov'' @ [NL] @ ''Ivan'' @ [NL] @ [NL] @ [NL] @ ''555'' @ [NL])"
  let ?c = "blank_contact\<lparr>con_id := 1\<rparr>"
  let ?v = "printf ''Input id which contact you want to edit: ''
    (console ([NL] @ ''Ivanov'' @ [NL] @ ''Ivan'' @ [NL] @ [NL] @ [NL] @ ''555'' @ [NL]))"
  have wf: "wf_frame blank_frame"
    by (simp add: wf_frame_def) (simp add: blank_frame_def MAX_C_def)
  have c: "contacts_l (hp sample_book, head sample_book) = [blank_contact] @ ?c # []"
    using contacts_dll [OF sample_book_dll] by simp
  have i: "scanf_d (loc_int blank_frame) (printf ''Input id which contact you want to edit: '' ?w) = Inr (con_id ?c, ?v)"
    by code_simp
  have v: "stdin ?v = NL # ''Ivanov'' @ NL # ''Ivan'' @ NL # [] @ NL # [] @ NL # ''555'' @ NL # []"
    by (simp add: console_def)
  have g: "good_line ''Ivanov''" "good_line ''Ivan''" "good_line []" "good_line ''555''" by code_simp+
  from list_edit_typed [OF sample_book_inv wf c i v g(1,2,3,3,4)] show ?thesis
    by (auto simp: field_after_def)
qed

text \<open>
  Listing prints every contact once, in the order of the ids, and changes nothing else:
  the fuel of the model is enough for every list the program builds.
\<close>

theorem list_prints_all:
  assumes "list_inv mem s" and "\<forall>c \<in> set (contacts_l (hp s, head s)). terminated c"
  shows "switch_l g 4 s w = Inr (s, printf (concat (map text_of_l (contacts_l (hp s, head s)))) w)
    \<and> sorted (map con_id (contacts_l (hp s, head s)))"
proof -
  from assms(1) obtain xs where xs: "dll (hp s) (head s) xs" "ordered (map snd xs)"
    "contacts_l (hp s, head s) = map snd xs" by (rule list_inv_dll)
  from xs(1) obtain l where "dseg (cells (hp s)) None (head s) xs l None" by (auto simp: dll_def)
  from printNode_dseg [OF this, of "Suc (brk (hp s))" w] dll_length [OF xs(1)] assms(2) xs(3)
  have p: "printNode (Suc (brk (hp s))) (hp s) (head s) w = Inr (printf (concat (map text_of_l (map snd xs))) w)"
    by simp
  have "sorted (map con_id (map snd xs))"
    using xs(2) by (auto simp: ordered_def sorted_wrt_map intro: sorted_wrt_mono_rel [rotated])
  with p xs(3) show ?thesis by (simp add: switch_l_def)
qed

theorem list_prints_all_witness:
  "switch_l blank_frame 4 sample_book (console []) =
      Inr (sample_book, printf (concat (map text_of_l (contacts_l (hp sample_book, head sample_book)))) (console []))
    \<and> sorted (map con_id (contacts_l (hp sample_book, head sample_book)))"
proof (rule list_prints_all [OF sample_book_inv])
  show "\<forall>c \<in> set (contacts_l (hp sample_book, head sample_book)). terminated c" by code_simp
qed

end
