(* ===== verification/Contact_Array.thy ===== *)
theory Contact_Array
  imports Contact_Store
begin

text \<open>
  The contact book of Module 2, Task 2.1: an array of \<open>MAX\<close> contacts of which the first
  \<open>contactCount\<close> are in use. The array is a local of \<open>main\<close> that is never initialised; its
  first contents are an argument. Proved here: the menu keeps the array within its bounds
  as long as it returns, deletion removes the first contact with the id and keeps the
  order of the others, and the two faults of the program: it does not stop at the end of
  the array, and it gives an id out again after a deletion.
\<close>

section \<open>The book\<close>

record book_a =
  Con :: "contact list"
  contactCount :: int

definition addContact_a :: "frame \<Rightarrow> book_a \<Rightarrow> io \<Rightarrow> (book_a \<times> io) res" where
  "addContact_a g s w =
     bindE (aget (Con s) (contactCount s)) (\<lambda>c.
     bindE (read_names c w) (\<lambda>(c, w).
     bindE (ask_social ''Y'' (loc_char g) c w) (\<lambda>(c, w).
     let w = printf (''Your id: '' @ show_int (contactCount s) @ [NL]) w;
         c = c\<lparr>con_id := contactCount s\<rparr>;
         w = printf (NL # ''User added'' @ [NL]) w in
     bindE (aset (Con s) (contactCount s) c) (\<lambda>cs.
     bindE (c_int (contactCount s + 1)) (\<lambda>n. Inr (\<lparr>Con = cs, contactCount = n\<rparr>, w))))))"

definition show_contact_a :: "contact \<Rightarrow> string res" where
  "show_contact_a c =
     bindE (cstr (lastname c)) (\<lambda>la. bindE (cstr (firstname c)) (\<lambda>fi.
     bindE (cstr (middlename c)) (\<lambda>mi. bindE (cstr (get_link c)) (\<lambda>li.
     bindE (cstr (get_number c)) (\<lambda>nu.
     Inr (''Id: '' @ show_int (con_id c) @ [NL] @ ''Lastname: '' @ la @ [NL]
       @ ''Firstname: '' @ fi @ [NL] @ ''Middlename: '' @ mi @ [NL]
       @ ''Link: '' @ li @ [NL] @ ''Number: '' @ nu @ [NL]))))))"

text \<open>The loops run an index up to a bound; they end because the bound gets closer.\<close>

function list_from :: "contact list \<Rightarrow> int \<Rightarrow> int \<Rightarrow> io \<Rightarrow> io res" where
  "list_from cs i n w =
     (if i < n then bindE (aget cs i) (\<lambda>c. bindE (show_contact_a c) (\<lambda>s. list_from cs (i + 1) n (printf s w)))
      else Inr w)"
  by pat_completeness auto
termination by (relation "measure (\<lambda>(cs, i, n, w). nat (n - i))") auto

definition listContact_a :: "book_a \<Rightarrow> io \<Rightarrow> io res" where
  "listContact_a s w = list_from (Con s) 0 (contactCount s) w"

function delete_from :: "int \<Rightarrow> book_a \<Rightarrow> int \<Rightarrow> io \<Rightarrow> (book_a \<times> io) res" where
  "delete_from idDelete s i w =
     (if i < contactCount s then bindE (aget (Con s) i) (\<lambda>c.
        if idDelete = con_id c then
          bindE (shift_left (Con s) i (contactCount s)) (\<lambda>cs.
          Inr (\<lparr>Con = cs, contactCount = contactCount s - 1\<rparr>, printf (''User deleted'' @ [NL]) w))
        else delete_from idDelete s (i + 1) w)
      else Inr (s, w))"
  by pat_completeness auto
termination by (relation "measure (\<lambda>(d, s, i, w). nat (contactCount s - i))") auto

definition deleteContact_a :: "frame \<Rightarrow> book_a \<Rightarrow> io \<Rightarrow> (book_a \<times> io) res" where
  "deleteContact_a g s w =
     bindE (scanf_d (loc_int g) (printf ''Input id which contact you want to delete: '' w)) (\<lambda>(idDelete, w).
     delete_from idDelete s 0 w)"

text \<open>Every contact with the id is edited; \<open>input\<close> is a new variable in every round.\<close>

function edit_from :: "cbuf \<Rightarrow> int \<Rightarrow> contact list \<Rightarrow> int \<Rightarrow> int \<Rightarrow> io \<Rightarrow> (contact list \<times> io) res" where
  "edit_from input idEdit cs i n w =
     (if i < n then bindE (aget cs i) (\<lambda>c.
        if idEdit = con_id c then
          bindE (edit_fields lastname (Some c) input w) (\<lambda>(c, w).
          case c of None \<Rightarrow> Inl NullDeref | Some c \<Rightarrow>
            bindE (aset cs i c) (\<lambda>cs. edit_from input idEdit cs (i + 1) n w))
        else edit_from input idEdit cs (i + 1) n w)
      else Inr (cs, w))"
  by pat_completeness auto
termination by (relation "measure (\<lambda>(b, d, cs, i, n, w). nat (n - i))") auto

definition editContact_a :: "frame \<Rightarrow> book_a \<Rightarrow> io \<Rightarrow> (book_a \<times> io) res" where
  "editContact_a g s w =
     bindE (scanf_d (loc_int g) (printf ''Input id which contact you want to edit: '' w)) (\<lambda>(idEdit, w).
     bindE (edit_from (loc_buf g) idEdit (Con s) 0 (contactCount s) w) (\<lambda>(cs, w). Inr (s\<lparr>Con := cs\<rparr>, w)))"

definition switch_a :: "frame \<Rightarrow> int \<Rightarrow> book_a \<Rightarrow> io \<Rightarrow> (book_a \<times> io) res" where
  "switch_a g choice s w =
     (if choice = 1 then addContact_a g s w
      else if choice = 2 then editContact_a g s w
      else if choice = 3 then deleteContact_a g s w
      else if choice = 4 then bindE (listContact_a s w) (\<lambda>w. Inr (s, w))
      else Inr (s, w))"

definition main_body_a :: "frame \<Rightarrow> int \<times> book_a \<times> io \<Rightarrow> ((int \<times> book_a \<times> io) \<times> bool) res" where
  "main_body_a g = (\<lambda>(choice, s, w).
     bindE (scanf_d choice (printf menu_text w)) (\<lambda>(choice, w).
     bindE (switch_a g choice s w) (\<lambda>(s, w).
     Inr ((choice, s, w), choice \<noteq> 5))))"

text \<open>Before the first round \<open>choice\<close> is unset; \<open>gs k\<close> are the uninitialised locals in round \<open>k\<close>.\<close>

definition main_a :: "nat \<Rightarrow> int \<Rightarrow> (nat \<Rightarrow> frame) \<Rightarrow> contact list \<Rightarrow> io \<Rightarrow> (int \<times> book_a \<times> io) res" where
  "main_a fuel choice gs garbage w =
     rounds fuel (\<lambda>k. main_body_a (gs k)) (choice, \<lparr>Con = garbage, contactCount = 0\<rparr>, w)"

section \<open>The part of the array in use\<close>

definition used :: "book_a \<Rightarrow> contact list" where
  "used s = take (nat (contactCount s)) (Con s)"

definition array_inv :: "book_a \<Rightarrow> bool" where
  "array_inv s = (length (Con s) = MAX_C \<and> (\<forall>c \<in> set (Con s). wf_contact c)
     \<and> 0 \<le> contactCount s \<and> contactCount s \<le> int MAX_C)"

text \<open>Removal of the first contact with an id.\<close>

fun drop_first :: "int \<Rightarrow> contact list \<Rightarrow> contact list" where
  "drop_first i [] = []"
| "drop_first i (c # cs) = (if con_id c = i then cs else c # drop_first i cs)"

text \<open>A book with the contacts 0, 1 and 2, for the examples.\<close>

definition sample_array :: book_a where
  "sample_array = \<lparr>Con = blank_contact # blank_contact\<lparr>con_id := 1\<rparr> # blank_contact\<lparr>con_id := 2\<rparr>
     # replicate 17 blank_contact, contactCount = 3\<rparr>"

section \<open>Lemmas\<close>

declare list_from.simps [simp del] delete_from.simps [simp del] edit_from.simps [simp del]

lemma used_length: "array_inv s \<Longrightarrow> length (used s) = nat (contactCount s)"
  by (auto simp: array_inv_def used_def)

lemma used_nth: "array_inv s \<Longrightarrow> 0 \<le> i \<Longrightarrow> i < contactCount s \<Longrightarrow> aget (Con s) i = Inr (used s ! nat i)"
  by (auto simp: array_inv_def used_def aget_def)

lemma drop_first_split:
  "\<forall>c \<in> set as. con_id c \<noteq> i \<Longrightarrow> drop_first i (as @ c # bs) = (if con_id c = i then as @ bs else as @ c # drop_first i bs)"
  by (induction as) auto

lemma drop_first_absent: "i \<notin> ids cs \<Longrightarrow> drop_first i cs = cs"
  by (induction cs) auto

text \<open>From index \<open>i\<close> on, with the contacts before it already passed.\<close>

lemma delete_from_used:
  "array_inv s \<Longrightarrow> 0 \<le> i \<Longrightarrow> i \<le> contactCount s \<Longrightarrow> \<forall>c \<in> set (take (nat i) (used s)). con_id c \<noteq> d \<Longrightarrow>
    \<exists>s'. delete_from d s i w =
        Inr (s', if d \<in> ids (used s) then printf (''User deleted'' @ [NL]) w else w)
      \<and> array_inv s' \<and> used s' = drop_first d (used s)"
proof (induction d s i w rule: delete_from.induct)
  case (1 d s i w)
  let ?k = "nat i"
  note inv = 1(2)
  show ?case
  proof (cases "i < contactCount s")
    case False
    then have "take ?k (used s) = used s" using 1 used_length [OF inv] by simp
    with 1(5) have "d \<notin> ids (used s)" by (auto simp: ids_def)
    with False inv show ?thesis by (simp add: delete_from.simps [of d s i w] drop_first_absent)
  next
    case True
    then have k: "?k < length (used s)" using 1 used_length [OF inv] by simp
    have split: "used s = take ?k (used s) @ used s ! ?k # drop (Suc ?k) (used s)"
      using k by (rule id_take_nth_drop)
    note get = used_nth [OF inv 1(3) True]
    show ?thesis
    proof (cases "con_id (used s ! ?k) = d")
      case hit: True
      obtain C where C: "shift_left (Con s) i (contactCount s) = Inr C" "length C = length (Con s)" "set C \<subseteq> set (Con s)"
        "take (nat (contactCount s - 1)) C = take ?k (Con s) @ take (nat (contactCount s - 1 - i)) (drop (?k + 1) (Con s))"
        using shift_left_take [of i "contactCount s" "Con s"] 1(3) True inv by (auto simp: array_inv_def)
      have "take ?k (used s) = take ?k (Con s)" using k by (simp add: used_def)
      moreover have "drop (Suc ?k) (used s) = take (nat (contactCount s - 1 - i)) (drop (?k + 1) (Con s))"
        using True 1(3) by (simp add: used_def drop_take nat_diff_distrib')
      ultimately have "take (nat (contactCount s - 1)) C = drop_first d (used s)"
        using C(4) split drop_first_split [OF 1(5), of "used s ! ?k"] hit by metis
      moreover have "array_inv \<lparr>Con = C, contactCount = contactCount s - 1\<rparr>"
        using inv C(2,3) True 1(3) by (auto simp: array_inv_def)
      moreover have "d \<in> ids (used s)" using hit k by (auto simp: ids_def)
      ultimately show ?thesis
        using True get hit C(1) by (simp add: delete_from.simps [of d s i w] used_def)
    next
      case miss: False
      have "take (nat (i + 1)) (used s) = take ?k (used s) @ [used s ! ?k]"
        using k 1(3) by (simp add: nat_add_distrib take_Suc_conv_app_nth)
      then have "\<forall>c \<in> set (take (nat (i + 1)) (used s)). con_id c \<noteq> d" using 1(5) miss by auto
      with 1(1) [OF True, of "used s ! ?k"] miss inv 1(3) True show ?thesis
        using get by (simp add: delete_from.simps [of d s i w])
    qed
  qed
qed

lemma aset_wf:
  assumes "aset cs i c = Inr cs'" and "\<forall>c \<in> set cs. wf_contact c" and "wf_contact c"
  shows "\<forall>c \<in> set cs'. wf_contact c"
  using assms by (auto simp: aset_eq_Inr dest!: set_update_subset_insert [THEN subsetD])

lemma edit_from_wf:
  "edit_from b d cs i n w = Inr (cs', w') \<Longrightarrow> \<forall>c \<in> set cs. wf_contact c \<Longrightarrow> length b = MAX_C \<Longrightarrow>
    (\<forall>c \<in> set cs'. wf_contact c) \<and> length cs' = length cs"
proof (induction b d cs i n w rule: edit_from.induct)
  case (1 b d cs i n w)
  show ?case
  proof (cases "i < n")
    case False
    with 1 show ?thesis by (simp add: edit_from.simps [of b d cs i n w])
  next
    case True
    with 1(3) obtain c where c: "aget cs i = Inr c"
      by (auto simp: edit_from.simps [of b d cs i n w])
    then have wf: "wf_contact c" using 1(4) by (auto simp: aget_eq_Inr)
    show ?thesis
    proof (cases "d = con_id c")
      case False
      with 1 True c show ?thesis by (simp add: edit_from.simps [of b d cs i n w])
    next
      case hit: True
      with 1(3) [unfolded edit_from.simps [of b d cs i n w]] True c
      have "bindE (edit_fields lastname (Some c) b w) (\<lambda>(c, w).
          case c of None \<Rightarrow> Inl NullDeref | Some c \<Rightarrow>
            bindE (aset cs i c) (\<lambda>cs. edit_from b d cs (i + 1) n w)) = Inr (cs', w')"
        by (simp del: bindE_eq_Inr)
      then obtain e w1 C where
        e: "edit_fields lastname (Some c) b w = Inr (Some e, w1)" "aset cs i e = Inr C"
          "edit_from b d C (i + 1) n w1 = Inr (cs', w')"
        by (auto split: option.splits)
      from edit_fields_wf [OF e(1) wf 1(5)] have "wf_contact e" by simp
      from aset_wf [OF e(2) 1(4) this] 1(1) [OF True hit refl e(3) _ 1(5)] aset_length [OF e(2)]
      show ?thesis by simp
    qed
  qed
qed

lemma addContact_a_inv:
  assumes "addContact_a g s w = Inr (s', w')" and "array_inv s"
  shows "array_inv s' \<and> (\<exists>c. used s' = used s @ [c] \<and> con_id c = contactCount s)"
proof -
  from assms(1) obtain c v1 c1 v2 c2 where
    1: "aget (Con s) (contactCount s) = Inr c" "read_names c w = Inr (c1, v1)"
      "ask_social ''Y'' (loc_char g) c1 v1 = Inr (c2, v2)"
      "aset (Con s) (contactCount s) (c2\<lparr>con_id := contactCount s\<rparr>) = Inr (Con s')" "contactCount s' = contactCount s + 1"
    by (auto simp: addContact_a_def Let_def)
  have "wf_contact c" using 1(1) assms(2) by (auto simp: aget_eq_Inr array_inv_def)
  with read_names_wf [OF 1(2)] ask_social_wf [OF 1(3)] have wf: "wf_contact (c2\<lparr>con_id := contactCount s\<rparr>)" by simp
  have n: "nat (contactCount s) < length (Con s)" "0 \<le> contactCount s" "Con s' = (Con s)[nat (contactCount s) := c2\<lparr>con_id := contactCount s\<rparr>]"
    using 1(4) by (auto simp: aset_eq_Inr)
  then have "used s' = used s @ [c2\<lparr>con_id := contactCount s\<rparr>]"
    using 1(5) by (simp add: used_def nat_add_distrib take_Suc_conv_app_nth)
  moreover have "array_inv s'"
    using aset_wf [OF 1(4) _ wf] aset_length [OF 1(4)] assms(2) 1(5) n by (auto simp: array_inv_def)
  ultimately show ?thesis by auto
qed

lemma switch_a_inv:
  assumes "switch_a g choice s w = Inr (s', w')" and "wf_frame g" and "array_inv s"
  shows "array_inv s'"
proof -
  have "array_inv s'" if "deleteContact_a g s w = Inr (s', w')"
  proof -
    from that obtain i v where "delete_from i s 0 v = Inr (s', w')" by (auto simp: deleteContact_a_def)
    with delete_from_used [OF assms(3), of 0 i v] assms(3) show ?thesis by (auto simp: array_inv_def)
  qed
  moreover have "array_inv s'" if "editContact_a g s w = Inr (s', w')"
    using that assms(2,3) by (auto simp: editContact_a_def array_inv_def wf_frame_def dest!: edit_from_wf)
  ultimately show ?thesis
    using assms addContact_a_inv by (auto simp: switch_a_def split: if_splits)
qed

lemma main_body_a_inv:
  assumes "wf_frame g" and "array_inv s"
    and "main_body_a g (choice, s, w) = Inr ((choice', s', w'), again)"
  shows "array_inv s'"
proof -
  from assms(3) obtain v ch where "switch_a g ch s v = Inr (s', w')"
    by (auto simp: main_body_a_def split_beta)
  then show ?thesis using assms(1,2) by (rule switch_a_inv)
qed

interpretation array_loop: loop_invariant "\<lambda>k. main_body_a (gs k)"
    "\<lambda>(choice, s, w). (\<forall>k. wf_frame (gs k)) \<and> array_inv s" for gs
  by unfold_locales (auto dest: main_body_a_inv)

lemma sample_array_inv: "array_inv sample_array"
  by (auto simp: array_inv_def sample_array_def MAX_C_def)

section \<open>Properties\<close>

text \<open>
  Whatever is typed, a run that leaves the menu without a fault keeps the counter within
  the array and every contact of the array well-formed. (A 21st contact is a fault, see
  \<open>array_add_overruns\<close>.)
\<close>

theorem array_main_inv:
  assumes "main_a fuel junk gs garbage w = Inr (choice, s, w')" and "\<And>k. wf_frame (gs k)"
    and "length garbage = MAX_C" and "\<forall>c \<in> set garbage. wf_contact c"
  shows "array_inv s"
proof -
  have "array_inv \<lparr>Con = garbage, contactCount = 0\<rparr>" using assms(3,4) by (simp add: array_inv_def)
  with array_loop.loop_keeps_inv [OF assms(1) [unfolded main_a_def]] assms(2) show ?thesis by simp
qed

theorem array_main_inv_witness:
  "\<exists>choice s w'. main_a 3 0 (\<lambda>_. blank_frame) (replicate 20 blank_contact) (console ''1 a b c N 1 d e f N 5'') = Inr (choice, s, w')
     \<and> map con_id (used s) = [0, 1] \<and> array_inv s"
proof -
  have wf: "wf_frame blank_frame"
    by (simp add: wf_frame_def) (simp add: blank_frame_def MAX_C_def)
  have "case main_a 3 0 (\<lambda>_. blank_frame) (replicate 20 blank_contact) (console ''1 a b c N 1 d e f N 5'') of
      Inl _ \<Rightarrow> False | Inr (_, s, _) \<Rightarrow> map con_id (used s) = [0, 1]"
    by code_simp
  then obtain choice s w' where
    m: "main_a 3 0 (\<lambda>_. blank_frame) (replicate 20 blank_contact) (console ''1 a b c N 1 d e f N 5'') = Inr (choice, s, w')"
    and i: "map con_id (used s) = [0, 1]"
    by (auto split: sum.splits)
  show ?thesis
    by (intro exI conjI) (rule m, rule i, rule array_main_inv [OF m wf], simp_all add: MAX_C_def)
qed

text \<open>
  C36: Deleting by id never leaves the array: it removes the first contact with that id,
  closes the gap and keeps the order of the others; an id that is not there changes
  nothing and is not reported.
\<close>

theorem array_delete_contact:
  assumes "array_inv s"
    and "scanf_d (loc_int g) (printf ''Input id which contact you want to delete: '' w) = Inr (i, v)"
  shows "\<exists>s'. deleteContact_a g s w = Inr (s', if i \<in> ids (used s) then printf (''User deleted'' @ [NL]) v else v)
    \<and> array_inv s' \<and> used s' = drop_first i (used s)"
  using delete_from_used [OF assms(1), of 0 i v] assms by (simp add: deleteContact_a_def array_inv_def)

theorem array_delete_contact_witness:
  "\<exists>s'. deleteContact_a blank_frame sample_array (console ''1'') = Inr (s',
        if 1 \<in> ids (used sample_array)
        then printf (''User deleted'' @ [NL]) (printf ''Input id which contact you want to delete: '' (console []))
        else printf ''Input id which contact you want to delete: '' (console []))
    \<and> array_inv s' \<and> used s' = drop_first 1 (used sample_array)"
proof -
  have "scanf_d (loc_int blank_frame) (printf ''Input id which contact you want to delete: '' (console ''1'')) =
      Inr (1, printf ''Input id which contact you want to delete: '' (console []))"
    by code_simp
  from array_delete_contact [OF sample_array_inv this] show ?thesis .
qed

text \<open>
  The program does not stop adding when the array is full: the next contact is
  written behind its end.
\<close>

theorem array_add_overruns:
  assumes "array_inv s" and "contactCount s = int MAX_C"
  shows "addContact_a g s w = Inl OutOfBounds"
  using assms by (simp add: addContact_a_def array_inv_def aget_def)

theorem array_add_overruns_witness:
  "addContact_a blank_frame \<lparr>Con = replicate 20 blank_contact, contactCount = 20\<rparr> (console ''a b c N'') = Inl OutOfBounds"
  by (rule array_add_overruns) (simp_all add: array_inv_def MAX_C_def)

text \<open>
  Ids are given out again: in a book with the ids 0, 1, ..., n - 1, deleting any contact
  but the last one and adding a new one leaves two contacts with the same id.
\<close>

theorem array_id_reused:
  assumes "array_inv s" and "map con_id (used s) = map int [0..<n]" and "0 \<le> i" and "i + 1 < int n"
    and "scanf_d (loc_int g) (printf ''Input id which contact you want to delete: '' w) = Inr (i, v)"
    and "deleteContact_a g s w = Inr (s', w')" and "addContact_a g' s' w2 = Inr (s'', w3)"
  shows "\<not> distinct (map con_id (used s''))"
proof -
  have "length (map con_id (used s)) = length (map int [0..<n])" by (simp only: assms(2))
  then have n: "contactCount s = int n" using used_length [OF assms(1)] assms(1) by (auto simp: array_inv_def)
  from delete_from_used [OF assms(1), of 0 i v] assms(1,5,6) have
    d: "array_inv s'" "used s' = drop_first i (used s)" by (auto simp: deleteContact_a_def array_inv_def)
  have old: "map con_id (drop_first i cs) = remove1 i (map con_id cs)" for cs
    by (induction cs) auto
  have m: "map con_id (used s') = remove1 i (map int [0..<n])" unfolding d(2) old assms(2) ..
  have "i \<in> set (map int [0..<n])" using assms(3,4) by (auto simp: image_iff intro!: bexI [of _ "nat i"])
  then have "length (map con_id (used s')) = n - 1" unfolding m by (simp add: length_remove1)
  then have "length (used s') = n - 1" by simp
  then have c: "contactCount s' = int n - 1"
    using used_length [OF d(1)] d(1) assms(3,4) by (simp add: array_inv_def)
  have "int n - 1 \<in> set (map int [0..<n])" using assms(3,4) by (auto simp: image_iff intro!: bexI [of _ "n - 1"])
  then have "int n - 1 \<in> set (map con_id (used s'))"
    unfolding m using assms(4) by (subst in_set_remove1) auto
  moreover from addContact_a_inv [OF assms(7) d(1)] obtain c where
    "used s'' = used s' @ [c]" "con_id c = contactCount s'" by blast
  ultimately show ?thesis using c by auto
qed

theorem array_id_reused_witness:
  "\<exists>s' w' s'' w3. deleteContact_a blank_frame sample_array (console ''0'') = Inr (s', w')
    \<and> addContact_a blank_frame s' (console ''a b c N'') = Inr (s'', w3) \<and> \<not> distinct (map con_id (used s''))"
proof -
  let ?v = "printf ''Input id which contact you want to delete: '' (console [])"
  have i: "scanf_d (loc_int blank_frame) (printf ''Input id which contact you want to delete: '' (console ''0'')) = Inr (0, ?v)"
    by code_simp
  have u: "map con_id (used sample_array) = map int [0..<3]" by code_simp
  have "is_ok (bindE (deleteContact_a blank_frame sample_array (console ''0''))
      (\<lambda>(s, w). addContact_a blank_frame s (console ''a b c N'')))"
    by code_simp
  then obtain s' w' s'' w3 where
    d: "deleteContact_a blank_frame sample_array (console ''0'') = Inr (s', w')"
    and a: "addContact_a blank_frame s' (console ''a b c N'') = Inr (s'', w3)"
    by (auto simp: is_ok_iff)
  have "\<not> distinct (map con_id (used s''))"
    by (rule array_id_reused [OF sample_array_inv u _ _ i d a]) simp_all
  with d a show ?thesis by blast
qed

end
