(* ===== verification/Library_Functions.thy ===== *)
theory Library_Functions
  imports Contact_List
begin

text \<open>
  The two libraries of Module 2: \<open>linkedList.c\<close> (Task 6.1, a static library) and
  \<open>contactList.c\<close> (Task 6.2, a shared library), each with its six functions over the structs
  of \<open>Contact_List\<close> and its own counter. The functions are translated from these two
  files, not taken from Task 4.1; the last section proves that they compute the same.
\<close>

section \<open>Task 6.1: \<open>linkedList.c\<close>\<close>

definition createNode_61 :: "heap \<Rightarrow> contact \<Rightarrow> (nat \<times> heap) res" where
  "createNode_61 h c =
     (if avail h = 0 then Inl NullDeref
      else let newNode = brk h in
        Inr (newNode, h\<lparr>cells := (cells h)(newNode := Some \<lparr>con = c, nxt = None, prv = None\<rparr>),
                        brk := Suc newNode, avail := avail h - 1\<rparr>))"

text \<open>\<open>while (current != NULL && current->con.id < con.id) current = current->next;\<close>\<close>

fun skip_less_61 :: "nat \<Rightarrow> heap \<Rightarrow> int \<Rightarrow> ptr \<Rightarrow> ptr res" where
  "skip_less_61 0 h i current = Inl OutOfFuel"
| "skip_less_61 (Suc k) h i current =
     (case current of None \<Rightarrow> Inr None
      | Some _ \<Rightarrow> bindE (load h current) (\<lambda>n.
          if con_id (con n) < i then skip_less_61 k h i (nxt n) else Inr current))"

text \<open>\<open>while (last->next != NULL) last = last->next;\<close>\<close>

fun to_last_61 :: "nat \<Rightarrow> heap \<Rightarrow> ptr \<Rightarrow> ptr res" where
  "to_last_61 0 h p = Inl OutOfFuel"
| "to_last_61 (Suc k) h p =
     bindE (load h p) (\<lambda>n. case nxt n of None \<Rightarrow> Inr p | Some _ \<Rightarrow> to_last_61 k h (nxt n))"

text \<open>\<open>while (current != NULL && current->con.id != id) current = current->next;\<close>\<close>

fun find_node_61 :: "nat \<Rightarrow> heap \<Rightarrow> int \<Rightarrow> ptr \<Rightarrow> ptr res" where
  "find_node_61 0 h i current = Inl OutOfFuel"
| "find_node_61 (Suc k) h i current =
     (case current of None \<Rightarrow> Inr None
      | Some _ \<Rightarrow> bindE (load h current) (\<lambda>n.
          if con_id (con n) \<noteq> i then find_node_61 k h i (nxt n) else Inr current))"

definition insert_61 :: "heap \<Rightarrow> ptr \<Rightarrow> contact \<Rightarrow> (heap \<times> ptr) res" where
  "insert_61 h front c =
     bindE (createNode_61 h c) (\<lambda>(newNode, h).
     if front = None then Inr (h, Some newNode)
     else bindE (skip_less_61 (Suc (brk h)) h (con_id c) front) (\<lambda>current.
       if current = front then
         bindE (store h (Some newNode) (nxt_update (\<lambda>_. front))) (\<lambda>h.
         bindE (store h front (prv_update (\<lambda>_. Some newNode))) (\<lambda>h.
         Inr (h, Some newNode)))
       else if current = None then
         bindE (to_last_61 (Suc (brk h)) h front) (\<lambda>la.
         bindE (store h la (nxt_update (\<lambda>_. Some newNode))) (\<lambda>h.
         bindE (store h (Some newNode) (prv_update (\<lambda>_. la))) (\<lambda>h.
         Inr (h, front))))
       else
         bindE (store h (Some newNode) (nxt_update (\<lambda>_. current))) (\<lambda>h.
         bindE (load h current) (\<lambda>cur.
         bindE (store h (Some newNode) (prv_update (\<lambda>_. prv cur))) (\<lambda>h.
         bindE (store h (prv cur) (nxt_update (\<lambda>_. Some newNode))) (\<lambda>h.
         bindE (store h current (prv_update (\<lambda>_. Some newNode))) (\<lambda>h.
         Inr (h, front))))))))"

text \<open>Unlinking a node that was found: the heap and the new front.\<close>

definition unlink_61 :: "heap \<Rightarrow> ptr \<Rightarrow> ptr \<Rightarrow> (heap \<times> ptr) res" where
  "unlink_61 h front current =
     bindE (load h current) (\<lambda>cur.
     if current = front then
       (if nxt cur \<noteq> None
        then bindE (store h (nxt cur) (prv_update (\<lambda>_. None))) (\<lambda>h. Inr (h, nxt cur))
        else Inr (h, nxt cur))
     else
       bindE (if nxt cur \<noteq> None then store h (nxt cur) (prv_update (\<lambda>_. prv cur)) else Inr h) (\<lambda>h.
       bindE (if prv cur \<noteq> None then store h (prv cur) (nxt_update (\<lambda>_. nxt cur)) else Inr h) (\<lambda>h.
       Inr (h, front))))"

definition removeNode_61 :: "frame \<Rightarrow> book_l \<Rightarrow> io \<Rightarrow> (book_l \<times> io) res" where
  "removeNode_61 g s w =
     bindE (scanf_d (loc_int g) (printf ''Input ID to delete contact: '' w)) (\<lambda>(i, w).
     bindE (find_node_61 (Suc (brk (hp s))) (hp s) i (head s)) (\<lambda>current.
     if current = None then Inr (s, printf (''Contact not found!'' @ [NL]) w)
     else
       bindE (unlink_61 (hp s) (head s) current) (\<lambda>(h, hd).
       bindE (free h current) (\<lambda>h.
       Inr (s\<lparr>hp := h, head := hd\<rparr>, printf (''Contact deleted.'' @ [NL]) w)))))"

definition node_text_61 :: "contact \<Rightarrow> string res" where
  "node_text_61 c =
     bindE (cstr (firstname c)) (\<lambda>fi. bindE (cstr (lastname c)) (\<lambda>la.
     bindE (cstr (middlename c)) (\<lambda>mi. bindE (cstr (get_number c)) (\<lambda>nu.
     bindE (cstr (get_link c)) (\<lambda>li.
     Inr (''ID: '' @ show_int (con_id c) @ NL # ''Firstname: '' @ fi @ NL # ''Lastname: '' @ la @
       NL # ''Middlename: '' @ mi @ NL # ''Phone: '' @ nu @ NL # ''Link: '' @ li @ [NL, NL]))))))"

fun print_from_61 :: "nat \<Rightarrow> heap \<Rightarrow> ptr \<Rightarrow> io \<Rightarrow> io res" where
  "print_from_61 0 h current w = Inl OutOfFuel"
| "print_from_61 (Suc k) h current w =
     (case current of None \<Rightarrow> Inr w
      | Some _ \<Rightarrow> bindE (load h current) (\<lambda>n.
          bindE (node_text_61 (con n)) (\<lambda>t. print_from_61 k h (nxt n) (printf t w))))"

definition printNode_61 :: "frame \<Rightarrow> book_l \<Rightarrow> io \<Rightarrow> (book_l \<times> io) res" where
  "printNode_61 g s w = bindE (print_from_61 (Suc (brk (hp s))) (hp s) (head s) w) (\<lambda>w. Inr (s, w))"

definition addContact_61 :: "frame \<Rightarrow> book_l \<Rightarrow> io \<Rightarrow> (book_l \<times> io) res" where
  "addContact_61 g s w =
     bindE (scanf_s (lastname (loc_con g)) (printf ''Input lastname: '' w)) (\<lambda>(b, w).
     let newCon = put_lastname b (loc_con g) in
     bindE (scanf_s (firstname newCon) (printf ''Input firstname: '' w)) (\<lambda>(b, w).
     let newCon = put_firstname b newCon in
     bindE (scanf_s (middlename newCon) (printf ''Input middlename: '' w)) (\<lambda>(b, w).
     let newCon = put_middlename b newCon;
         (input, w) = scanf_c (loc_char g) (printf ''If you want to input social data, press Y/N: '' w) in
     bindE (if input = CHR ''Y'' \<or> input = CHR ''y'' then
              bindE (scanf_s (get_link newCon) (printf ''Input link: '' w)) (\<lambda>(b, w).
              let newCon = put_link b newCon in
              bindE (scanf_s (get_number newCon) (printf ''Input number: '' w)) (\<lambda>(b, w).
              let newCon = put_number b newCon in
              Inr (newCon\<lparr>con_id := contactCount s\<rparr>, printf (''Your id: '' @ show_int (contactCount s) @ [NL]) w)))
            else
              let w = printf (''Your id: '' @ show_int (contactCount s) @ [NL]) w;
                  newCon = newCon\<lparr>con_id := contactCount s\<rparr> in
              bindE (aset (get_link newCon) 0 NUL) (\<lambda>b.
              let newCon = put_link b newCon in
              bindE (aset (get_number newCon) 0 NUL) (\<lambda>b.
              Inr (put_number b newCon, w)))) (\<lambda>(newCon, w).
     let w = printf (NL # ''User added'' @ [NL]) w in
     bindE (c_int (contactCount s + 1)) (\<lambda>count.
     bindE (insert_61 (hp s) (head s) newCon) (\<lambda>(h, hd).
     Inr (\<lparr>hp = h, head = hd, contactCount = count\<rparr>, w)))))))"

text \<open>
  One field of \<open>editContact\<close>: the line, the copy of \<open>MAX\<close> characters, the cut at the newline of
  the field itself.
\<close>

definition new_field_61 ::
  "(contact \<Rightarrow> cbuf) \<Rightarrow> (cbuf \<Rightarrow> contact \<Rightarrow> contact) \<Rightarrow> heap \<times> cbuf \<times> io \<Rightarrow> ptr \<Rightarrow> (heap \<times> cbuf \<times> io) res" where
  "new_field_61 get put = (\<lambda>(h, input, w) current.
     bindE (fgets input MAX_C w) (\<lambda>(_, input, w).
     bindE (aget input 0) (\<lambda>c.
     if c \<noteq> NL then
       bindE (load h current) (\<lambda>n.
       bindE (strncpy (get (con n)) input MAX_C) (\<lambda>b.
       bindE (strcspn b [NL]) (\<lambda>k.
       bindE (aset b k NUL) (\<lambda>b.
       bindE (store h current (con_update (put b))) (\<lambda>h. Inr (h, input, w))))))
     else Inr (h, input, w))))"

definition editContact_61 :: "frame \<Rightarrow> book_l \<Rightarrow> io \<Rightarrow> (book_l \<times> io) res" where
  "editContact_61 g s w =
     bindE (scanf_d (loc_int g) (printf ''Input id which contact you want to edit: '' w)) (\<lambda>(idEdit, w).
     bindE (find_node_61 (Suc (brk (hp s))) (hp s) idEdit (head s)) (\<lambda>current.
     if current = None then Inr (s, printf (''Contact not found!'' @ [NL]) w)
     else
       let w = getchar (printf ''Input new lastname(if needed): '' w) in
       bindE (new_field_61 lastname put_lastname (hp s, loc_buf g, w) current) (\<lambda>(h, input, w).
       let w = printf (NL # ''Input new firstname(if needed): '') w in
       bindE (new_field_61 firstname put_firstname (h, input, w) current) (\<lambda>(h, input, w).
       let w = printf (NL # ''Input new middlename(if needed): '') w in
       bindE (new_field_61 middlename put_middlename (h, input, w) current) (\<lambda>(h, input, w).
       let w = printf (NL # ''Input new link(if needed): '') w in
       bindE (new_field_61 get_link put_link (h, input, w) current) (\<lambda>(h, input, w).
       let w = printf (NL # ''Input new number(if needed): '') w in
       bindE (new_field_61 get_number put_number (h, input, w) current) (\<lambda>(h, input, w).
       Inr (s\<lparr>hp := h\<rparr>, printf (''Contact updated. '' @ [NL]) w))))))))"

section \<open>Task 6.2: \<open>contactList.c\<close>\<close>

definition createNode_62 :: "heap \<Rightarrow> contact \<Rightarrow> (nat \<times> heap) res" where
  "createNode_62 h c =
     (if avail h = 0 then Inl NullDeref
      else let newNode = brk h in
        Inr (newNode, h\<lparr>cells := (cells h)(newNode := Some \<lparr>con = c, nxt = None, prv = None\<rparr>),
                        brk := Suc newNode, avail := avail h - 1\<rparr>))"

text \<open>\<open>while (current != NULL && current->con.id < con.id) current = current->next;\<close>\<close>

fun skip_less_62 :: "nat \<Rightarrow> heap \<Rightarrow> int \<Rightarrow> ptr \<Rightarrow> ptr res" where
  "skip_less_62 0 h i current = Inl OutOfFuel"
| "skip_less_62 (Suc k) h i current =
     (case current of None \<Rightarrow> Inr None
      | Some _ \<Rightarrow> bindE (load h current) (\<lambda>n.
          if con_id (con n) < i then skip_less_62 k h i (nxt n) else Inr current))"

text \<open>\<open>while (last->next != NULL) last = last->next;\<close>\<close>

fun to_last_62 :: "nat \<Rightarrow> heap \<Rightarrow> ptr \<Rightarrow> ptr res" where
  "to_last_62 0 h p = Inl OutOfFuel"
| "to_last_62 (Suc k) h p =
     bindE (load h p) (\<lambda>n. case nxt n of None \<Rightarrow> Inr p | Some _ \<Rightarrow> to_last_62 k h (nxt n))"

text \<open>\<open>while (current != NULL && current->con.id != id) current = current->next;\<close>\<close>

fun find_node_62 :: "nat \<Rightarrow> heap \<Rightarrow> int \<Rightarrow> ptr \<Rightarrow> ptr res" where
  "find_node_62 0 h i current = Inl OutOfFuel"
| "find_node_62 (Suc k) h i current =
     (case current of None \<Rightarrow> Inr None
      | Some _ \<Rightarrow> bindE (load h current) (\<lambda>n.
          if con_id (con n) \<noteq> i then find_node_62 k h i (nxt n) else Inr current))"

definition insert_62 :: "heap \<Rightarrow> ptr \<Rightarrow> contact \<Rightarrow> (heap \<times> ptr) res" where
  "insert_62 h front c =
     bindE (createNode_62 h c) (\<lambda>(newNode, h).
     if front = None then Inr (h, Some newNode)
     else bindE (skip_less_62 (Suc (brk h)) h (con_id c) front) (\<lambda>current.
       if current = front then
         bindE (store h (Some newNode) (nxt_update (\<lambda>_. front))) (\<lambda>h.
         bindE (store h front (prv_update (\<lambda>_. Some newNode))) (\<lambda>h.
         Inr (h, Some newNode)))
       else if current = None then
         bindE (to_last_62 (Suc (brk h)) h front) (\<lambda>la.
         bindE (store h la (nxt_update (\<lambda>_. Some newNode))) (\<lambda>h.
         bindE (store h (Some newNode) (prv_update (\<lambda>_. la))) (\<lambda>h.
         Inr (h, front))))
       else
         bindE (store h (Some newNode) (nxt_update (\<lambda>_. current))) (\<lambda>h.
         bindE (load h current) (\<lambda>cur.
         bindE (store h (Some newNode) (prv_update (\<lambda>_. prv cur))) (\<lambda>h.
         bindE (store h (prv cur) (nxt_update (\<lambda>_. Some newNode))) (\<lambda>h.
         bindE (store h current (prv_update (\<lambda>_. Some newNode))) (\<lambda>h.
         Inr (h, front))))))))"

text \<open>Unlinking a node that was found: the heap and the new front.\<close>

definition unlink_62 :: "heap \<Rightarrow> ptr \<Rightarrow> ptr \<Rightarrow> (heap \<times> ptr) res" where
  "unlink_62 h front current =
     bindE (load h current) (\<lambda>cur.
     if current = front then
       (if nxt cur \<noteq> None
        then bindE (store h (nxt cur) (prv_update (\<lambda>_. None))) (\<lambda>h. Inr (h, nxt cur))
        else Inr (h, nxt cur))
     else
       bindE (if nxt cur \<noteq> None then store h (nxt cur) (prv_update (\<lambda>_. prv cur)) else Inr h) (\<lambda>h.
       bindE (if prv cur \<noteq> None then store h (prv cur) (nxt_update (\<lambda>_. nxt cur)) else Inr h) (\<lambda>h.
       Inr (h, front))))"

definition removeNode_62 :: "frame \<Rightarrow> book_l \<Rightarrow> io \<Rightarrow> (book_l \<times> io) res" where
  "removeNode_62 g s w =
     bindE (scanf_d (loc_int g) (printf ''Input ID to delete contact: '' w)) (\<lambda>(i, w).
     bindE (find_node_62 (Suc (brk (hp s))) (hp s) i (head s)) (\<lambda>current.
     if current = None then Inr (s, printf (''Contact not found!'' @ [NL]) w)
     else
       bindE (unlink_62 (hp s) (head s) current) (\<lambda>(h, hd).
       bindE (free h current) (\<lambda>h.
       Inr (s\<lparr>hp := h, head := hd\<rparr>, printf (''Contact deleted.'' @ [NL]) w)))))"

definition node_text_62 :: "contact \<Rightarrow> string res" where
  "node_text_62 c =
     bindE (cstr (firstname c)) (\<lambda>fi. bindE (cstr (lastname c)) (\<lambda>la.
     bindE (cstr (middlename c)) (\<lambda>mi. bindE (cstr (get_number c)) (\<lambda>nu.
     bindE (cstr (get_link c)) (\<lambda>li.
     Inr (''ID: '' @ show_int (con_id c) @ NL # ''Firstname: '' @ fi @ NL # ''Lastname: '' @ la @
       NL # ''Middlename: '' @ mi @ NL # ''Phone: '' @ nu @ NL # ''Link: '' @ li @ [NL, NL]))))))"

fun print_from_62 :: "nat \<Rightarrow> heap \<Rightarrow> ptr \<Rightarrow> io \<Rightarrow> io res" where
  "print_from_62 0 h current w = Inl OutOfFuel"
| "print_from_62 (Suc k) h current w =
     (case current of None \<Rightarrow> Inr w
      | Some _ \<Rightarrow> bindE (load h current) (\<lambda>n.
          bindE (node_text_62 (con n)) (\<lambda>t. print_from_62 k h (nxt n) (printf t w))))"

definition printNode_62 :: "frame \<Rightarrow> book_l \<Rightarrow> io \<Rightarrow> (book_l \<times> io) res" where
  "printNode_62 g s w = bindE (print_from_62 (Suc (brk (hp s))) (hp s) (head s) w) (\<lambda>w. Inr (s, w))"

definition addContact_62 :: "frame \<Rightarrow> book_l \<Rightarrow> io \<Rightarrow> (book_l \<times> io) res" where
  "addContact_62 g s w =
     bindE (scanf_s (lastname (loc_con g)) (printf ''Input lastname: '' w)) (\<lambda>(b, w).
     let newCon = put_lastname b (loc_con g) in
     bindE (scanf_s (firstname newCon) (printf ''Input firstname: '' w)) (\<lambda>(b, w).
     let newCon = put_firstname b newCon in
     bindE (scanf_s (middlename newCon) (printf ''Input middlename: '' w)) (\<lambda>(b, w).
     let newCon = put_middlename b newCon;
         (input, w) = scanf_c (loc_char g) (printf ''If you want to input social data, press Y/N: '' w) in
     bindE (if input = CHR ''Y'' \<or> input = CHR ''y'' then
              bindE (scanf_s (get_link newCon) (printf ''Input link: '' w)) (\<lambda>(b, w).
              let newCon = put_link b newCon in
              bindE (scanf_s (get_number newCon) (printf ''Input number: '' w)) (\<lambda>(b, w).
              let newCon = put_number b newCon in
              Inr (newCon\<lparr>con_id := contactCount s\<rparr>, printf (''Your id: '' @ show_int (contactCount s) @ [NL]) w)))
            else
              let w = printf (''Your id: '' @ show_int (contactCount s) @ [NL]) w;
                  newCon = newCon\<lparr>con_id := contactCount s\<rparr> in
              bindE (aset (get_link newCon) 0 NUL) (\<lambda>b.
              let newCon = put_link b newCon in
              bindE (aset (get_number newCon) 0 NUL) (\<lambda>b.
              Inr (put_number b newCon, w)))) (\<lambda>(newCon, w).
     let w = printf (NL # ''User added'' @ [NL]) w in
     bindE (c_int (contactCount s + 1)) (\<lambda>count.
     bindE (insert_62 (hp s) (head s) newCon) (\<lambda>(h, hd).
     Inr (\<lparr>hp = h, head = hd, contactCount = count\<rparr>, w)))))))"

text \<open>
  One field of \<open>editContact\<close>: the line, the copy of \<open>MAX\<close> characters, the cut at the newline of
  the field itself.
\<close>

definition new_field_62 ::
  "(contact \<Rightarrow> cbuf) \<Rightarrow> (cbuf \<Rightarrow> contact \<Rightarrow> contact) \<Rightarrow> heap \<times> cbuf \<times> io \<Rightarrow> ptr \<Rightarrow> (heap \<times> cbuf \<times> io) res" where
  "new_field_62 get put = (\<lambda>(h, input, w) current.
     bindE (fgets input MAX_C w) (\<lambda>(_, input, w).
     bindE (aget input 0) (\<lambda>c.
     if c \<noteq> NL then
       bindE (load h current) (\<lambda>n.
       bindE (strncpy (get (con n)) input MAX_C) (\<lambda>b.
       bindE (strcspn b [NL]) (\<lambda>k.
       bindE (aset b k NUL) (\<lambda>b.
       bindE (store h current (con_update (put b))) (\<lambda>h. Inr (h, input, w))))))
     else Inr (h, input, w))))"

definition editContact_62 :: "frame \<Rightarrow> book_l \<Rightarrow> io \<Rightarrow> (book_l \<times> io) res" where
  "editContact_62 g s w =
     bindE (scanf_d (loc_int g) (printf ''Input id which contact you want to edit: '' w)) (\<lambda>(idEdit, w).
     bindE (find_node_62 (Suc (brk (hp s))) (hp s) idEdit (head s)) (\<lambda>current.
     if current = None then Inr (s, printf (''Contact not found!'' @ [NL]) w)
     else
       let w = getchar (printf ''Input new lastname(if needed): '' w) in
       bindE (new_field_62 lastname put_lastname (hp s, loc_buf g, w) current) (\<lambda>(h, input, w).
       let w = printf (NL # ''Input new firstname(if needed): '') w in
       bindE (new_field_62 firstname put_firstname (h, input, w) current) (\<lambda>(h, input, w).
       let w = printf (NL # ''Input new middlename(if needed): '') w in
       bindE (new_field_62 middlename put_middlename (h, input, w) current) (\<lambda>(h, input, w).
       let w = printf (NL # ''Input new link(if needed): '') w in
       bindE (new_field_62 get_link put_link (h, input, w) current) (\<lambda>(h, input, w).
       let w = printf (NL # ''Input new number(if needed): '') w in
       bindE (new_field_62 get_number put_number (h, input, w) current) (\<lambda>(h, input, w).
       Inr (s\<lparr>hp := h\<rparr>, printf (''Contact updated. '' @ [NL]) w))))))))"

section \<open>They compute what the functions of Task 4.1 compute\<close>

lemma advance_finds: "advance k P h p = Inr (Some a) \<Longrightarrow> \<exists>n. cells h a = Some n"
  by (induction k arbitrary: p) (auto simp: advance.simps load_def split: option.splits if_splits)

lemma edit_field_some: "edit_field get put scan (Some c) input w = Inr (x, r) \<Longrightarrow> \<exists>c'. x = Some c'"
  by (auto simp: edit_field_def Let_def split: if_splits)

lemma id_before: "c\<lparr>con_id := i, soc := s\<rparr> = c\<lparr>soc := s, con_id := i\<rparr>"
  by simp

lemma if_bindE: "bindE (if b then m else m') f = (if b then bindE m f else bindE m' f)"
  by simp

lemma createNode_61_eq: "createNode_61 = createNode_l"
  by (intro ext) (simp add: createNode_61_def createNode_l_def Let_def)

lemma skip_less_61_eq: "skip_less_61 k h i p = advance k (\<lambda>d. con_id d < i) h p"
  by (induction k arbitrary: p) (auto simp: advance.simps split: option.split cong: if_cong)

lemma to_last_61_eq: "to_last_61 k h p = last_node k h p"
proof (induction k arbitrary: p)
  case (Suc k)
  have "(\<lambda>n :: node. case nxt n of None \<Rightarrow> Inr p | Some _ \<Rightarrow> to_last_61 k h (nxt n)) =
      (\<lambda>n. if nxt n \<noteq> None then last_node k h (nxt n) else Inr p)"
    using Suc by (auto split: option.split)
  then show ?case by (simp only: last_node.simps to_last_61.simps)
qed (simp add: last_node.simps)

lemma find_node_61_eq: "find_node_61 k h i p = advance k (\<lambda>d. con_id d \<noteq> i) h p"
  by (induction k arbitrary: p) (auto simp: advance.simps split: option.split cong: if_cong)

declare skip_less_61.simps [simp del] to_last_61.simps [simp del] find_node_61.simps [simp del]

lemma insert_61_eq: "insert_61 = insert_l"
  by (intro ext) (simp add: insert_61_def insert_l_def createNode_61_eq skip_less_61_eq to_last_61_eq Let_def cong: if_cong)

lemma unlink_61_eq:
  "remove_id h p i = bindE (find_node_61 (Suc (brk h)) h i p) (\<lambda>current.
     if current = None then Inr (False, h, p)
     else bindE (unlink_61 h p current) (\<lambda>(h, hd). bindE (free h current) (\<lambda>h. Inr (True, h, hd))))"
  unfolding remove_id_def find_node_61_eq unlink_61_def
  by (intro bindE_cong refl) (simp add: bindE_assoc split_beta del: not_None_eq, intro impI bindE_cong refl, simp add: bindE_assoc)

lemma removeNode_61_eq:
  "removeNode_61 g s w = bindE (removeNode g (hp s) (head s) w) (\<lambda>(h, hd, w). Inr (s\<lparr>hp := h, head := hd\<rparr>, w))"
  unfolding removeNode_61_def removeNode_def unlink_61_eq
  by (simp add: bindE_assoc split_beta) (auto intro!: bindE_cong simp: bindE_assoc split_beta)

lemma node_text_61_eq: "node_text_61 = show_contact_l"
  by (intro ext) (simp add: node_text_61_def show_contact_l_def)

lemma print_from_61_eq: "print_from_61 k h p w = printNode k h p w"
  by (induction k arbitrary: p w) (auto simp: printNode.simps node_text_61_eq split: option.split)

lemma addContact_61_eq: "addContact_61 = addContact_l"
  by (intro ext) (simp add: addContact_61_def addContact_l_def read_names_def ask_social_def read_social_def
      clear_social_def insert_61_eq bindE_assoc Let_def case_prod_unfold contact_field_defs if_bindE id_before cong: if_cong)

lemma new_field_61_cell:
  assumes "text_field get put" and "cells h a = Some n"
  shows "new_field_61 get put (h, input, w) (Some a) =
    bindE (edit_field get put get (Some (con n)) input w) (\<lambda>(c, input, w).
      Inr (h\<lparr>cells := (cells h)(a := Some (n\<lparr>con := the c\<rparr>))\<rparr>, input, w))"
proof -
  note [simp] = text_field.get_put [OF assms(1)] text_field.put_put [OF assms(1)] and [simp del] = fun_upd_apply
  have same: "h\<lparr>cells := (cells h)(a := Some (n\<lparr>con := con n\<rparr>))\<rparr> = h"
    using assms(2) by (simp add: fun_upd_idem)
  have upd: "con_update (put b) n = n\<lparr>con := put b (con n)\<rparr>" for b by (cases n) simp
  show ?thesis
    unfolding new_field_61_def edit_field_def bindE_assoc prod.case split_beta
    using assms(2) same by (auto intro!: bindE_cong simp: bindE_assoc Let_def upd)
qed

lemma new_field_61_eq:
  "text_field get put \<Longrightarrow>
    new_field_61 get put (h\<lparr>cells := (cells h)(a \<mapsto> n)\<rparr>, input, w) (Some a) =
    bindE (edit_field get put get (Some (con n)) input w) (\<lambda>(c, input, w).
      Inr (h\<lparr>cells := (cells h)(a \<mapsto> n\<lparr>con := the c\<rparr>)\<rparr>, input, w))"
  using new_field_61_cell [of get put "h\<lparr>cells := (cells h)(a \<mapsto> n)\<rparr>" a n input w] by simp

lemmas new_fields_61 =
  new_field_61_eq [OF lastname.text_field_axioms] new_field_61_eq [OF firstname.text_field_axioms]
  new_field_61_eq [OF middlename.text_field_axioms] new_field_61_eq [OF link.text_field_axioms]
  new_field_61_eq [OF number.text_field_axioms]

lemma editing_61:
  assumes "cells h a = Some n"
  shows "(let w = getchar (printf ''Input new lastname(if needed): '' w) in
       bindE (new_field_61 lastname put_lastname (h, input, w) (Some a)) (\<lambda>(h, input, w).
       let w = printf (NL # ''Input new firstname(if needed): '') w in
       bindE (new_field_61 firstname put_firstname (h, input, w) (Some a)) (\<lambda>(h, input, w).
       let w = printf (NL # ''Input new middlename(if needed): '') w in
       bindE (new_field_61 middlename put_middlename (h, input, w) (Some a)) (\<lambda>(h, input, w).
       let w = printf (NL # ''Input new link(if needed): '') w in
       bindE (new_field_61 get_link put_link (h, input, w) (Some a)) (\<lambda>(h, input, w).
       let w = printf (NL # ''Input new number(if needed): '') w in
       bindE (new_field_61 get_number put_number (h, input, w) (Some a)) (\<lambda>(h, input, w).
       Inr (s\<lparr>hp := h\<rparr>, printf (''Contact updated. '' @ [NL]) w))))))) =
     bindE (edit_fields firstname (Some (con n)) input w) (\<lambda>(c, w).
       case c of None \<Rightarrow> Inl NullDeref | Some c \<Rightarrow>
         bindE (store h (Some a) (\<lambda>n. n\<lparr>con := c\<rparr>)) (\<lambda>h. Inr (s\<lparr>hp := h\<rparr>, w)))"
proof -
  have h: "h = h\<lparr>cells := (cells h)(a \<mapsto> n)\<rparr>" using assms by (simp add: fun_upd_idem)
  show ?thesis
    unfolding edit_fields_def edit_rest_def Let_def
    by (subst h, simp add: new_fields_61 bindE_assoc case_prod_unfold assms)
      (auto intro!: bindE_cong dest!: edit_field_some simp: bindE_assoc store_simps [OF assms])
qed

lemma editContact_61_eq: "editContact_61 = editContact_l"
proof (intro ext)
  fix g s w
  show "editContact_61 g s w = editContact_l g s w"
    unfolding editContact_61_def editContact_l_def find_node_61_eq
  proof (intro bindE_cong refl, clarsimp, intro bindE_cong refl, clarsimp, goal_cases)
    case (1 i v a)
    from advance_finds [OF 1(2)] obtain n where n: "cells (hp s) a = Some n" by blast
    from editing_61 [OF n, where input = "loc_buf g" and w = v] n show ?case by simp
  qed
qed

lemmas library_61_eq = removeNode_61_eq addContact_61_eq editContact_61_eq print_from_61_eq

lemma createNode_62_eq: "createNode_62 = createNode_l"
  by (intro ext) (simp add: createNode_62_def createNode_l_def Let_def)

lemma skip_less_62_eq: "skip_less_62 k h i p = advance k (\<lambda>d. con_id d < i) h p"
  by (induction k arbitrary: p) (auto simp: advance.simps split: option.split cong: if_cong)

lemma to_last_62_eq: "to_last_62 k h p = last_node k h p"
proof (induction k arbitrary: p)
  case (Suc k)
  have "(\<lambda>n :: node. case nxt n of None \<Rightarrow> Inr p | Some _ \<Rightarrow> to_last_62 k h (nxt n)) =
      (\<lambda>n. if nxt n \<noteq> None then last_node k h (nxt n) else Inr p)"
    using Suc by (auto split: option.split)
  then show ?case by (simp only: last_node.simps to_last_62.simps)
qed (simp add: last_node.simps)

lemma find_node_62_eq: "find_node_62 k h i p = advance k (\<lambda>d. con_id d \<noteq> i) h p"
  by (induction k arbitrary: p) (auto simp: advance.simps split: option.split cong: if_cong)

declare skip_less_62.simps [simp del] to_last_62.simps [simp del] find_node_62.simps [simp del]

lemma insert_62_eq: "insert_62 = insert_l"
  by (intro ext) (simp add: insert_62_def insert_l_def createNode_62_eq skip_less_62_eq to_last_62_eq Let_def cong: if_cong)

lemma unlink_62_eq:
  "remove_id h p i = bindE (find_node_62 (Suc (brk h)) h i p) (\<lambda>current.
     if current = None then Inr (False, h, p)
     else bindE (unlink_62 h p current) (\<lambda>(h, hd). bindE (free h current) (\<lambda>h. Inr (True, h, hd))))"
  unfolding remove_id_def find_node_62_eq unlink_62_def
  by (intro bindE_cong refl) (simp add: bindE_assoc split_beta del: not_None_eq, intro impI bindE_cong refl, simp add: bindE_assoc)

lemma removeNode_62_eq:
  "removeNode_62 g s w = bindE (removeNode g (hp s) (head s) w) (\<lambda>(h, hd, w). Inr (s\<lparr>hp := h, head := hd\<rparr>, w))"
  unfolding removeNode_62_def removeNode_def unlink_62_eq
  by (simp add: bindE_assoc split_beta) (auto intro!: bindE_cong simp: bindE_assoc split_beta)

lemma node_text_62_eq: "node_text_62 = show_contact_l"
  by (intro ext) (simp add: node_text_62_def show_contact_l_def)

lemma print_from_62_eq: "print_from_62 k h p w = printNode k h p w"
  by (induction k arbitrary: p w) (auto simp: printNode.simps node_text_62_eq split: option.split)

lemma addContact_62_eq: "addContact_62 = addContact_l"
  by (intro ext) (simp add: addContact_62_def addContact_l_def read_names_def ask_social_def read_social_def
      clear_social_def insert_62_eq bindE_assoc Let_def case_prod_unfold contact_field_defs if_bindE id_before cong: if_cong)

lemma new_field_62_cell:
  assumes "text_field get put" and "cells h a = Some n"
  shows "new_field_62 get put (h, input, w) (Some a) =
    bindE (edit_field get put get (Some (con n)) input w) (\<lambda>(c, input, w).
      Inr (h\<lparr>cells := (cells h)(a := Some (n\<lparr>con := the c\<rparr>))\<rparr>, input, w))"
proof -
  note [simp] = text_field.get_put [OF assms(1)] text_field.put_put [OF assms(1)] and [simp del] = fun_upd_apply
  have same: "h\<lparr>cells := (cells h)(a := Some (n\<lparr>con := con n\<rparr>))\<rparr> = h"
    using assms(2) by (simp add: fun_upd_idem)
  have upd: "con_update (put b) n = n\<lparr>con := put b (con n)\<rparr>" for b by (cases n) simp
  show ?thesis
    unfolding new_field_62_def edit_field_def bindE_assoc prod.case split_beta
    using assms(2) same by (auto intro!: bindE_cong simp: bindE_assoc Let_def upd)
qed

lemma new_field_62_eq:
  "text_field get put \<Longrightarrow>
    new_field_62 get put (h\<lparr>cells := (cells h)(a \<mapsto> n)\<rparr>, input, w) (Some a) =
    bindE (edit_field get put get (Some (con n)) input w) (\<lambda>(c, input, w).
      Inr (h\<lparr>cells := (cells h)(a \<mapsto> n\<lparr>con := the c\<rparr>)\<rparr>, input, w))"
  using new_field_62_cell [of get put "h\<lparr>cells := (cells h)(a \<mapsto> n)\<rparr>" a n input w] by simp

lemmas new_fields_62 =
  new_field_62_eq [OF lastname.text_field_axioms] new_field_62_eq [OF firstname.text_field_axioms]
  new_field_62_eq [OF middlename.text_field_axioms] new_field_62_eq [OF link.text_field_axioms]
  new_field_62_eq [OF number.text_field_axioms]

lemma editing_62:
  assumes "cells h a = Some n"
  shows "(let w = getchar (printf ''Input new lastname(if needed): '' w) in
       bindE (new_field_62 lastname put_lastname (h, input, w) (Some a)) (\<lambda>(h, input, w).
       let w = printf (NL # ''Input new firstname(if needed): '') w in
       bindE (new_field_62 firstname put_firstname (h, input, w) (Some a)) (\<lambda>(h, input, w).
       let w = printf (NL # ''Input new middlename(if needed): '') w in
       bindE (new_field_62 middlename put_middlename (h, input, w) (Some a)) (\<lambda>(h, input, w).
       let w = printf (NL # ''Input new link(if needed): '') w in
       bindE (new_field_62 get_link put_link (h, input, w) (Some a)) (\<lambda>(h, input, w).
       let w = printf (NL # ''Input new number(if needed): '') w in
       bindE (new_field_62 get_number put_number (h, input, w) (Some a)) (\<lambda>(h, input, w).
       Inr (s\<lparr>hp := h\<rparr>, printf (''Contact updated. '' @ [NL]) w))))))) =
     bindE (edit_fields firstname (Some (con n)) input w) (\<lambda>(c, w).
       case c of None \<Rightarrow> Inl NullDeref | Some c \<Rightarrow>
         bindE (store h (Some a) (\<lambda>n. n\<lparr>con := c\<rparr>)) (\<lambda>h. Inr (s\<lparr>hp := h\<rparr>, w)))"
proof -
  have h: "h = h\<lparr>cells := (cells h)(a \<mapsto> n)\<rparr>" using assms by (simp add: fun_upd_idem)
  show ?thesis
    unfolding edit_fields_def edit_rest_def Let_def
    by (subst h, simp add: new_fields_62 bindE_assoc case_prod_unfold assms)
      (auto intro!: bindE_cong dest!: edit_field_some simp: bindE_assoc store_simps [OF assms])
qed

lemma editContact_62_eq: "editContact_62 = editContact_l"
proof (intro ext)
  fix g s w
  show "editContact_62 g s w = editContact_l g s w"
    unfolding editContact_62_def editContact_l_def find_node_62_eq
  proof (intro bindE_cong refl, clarsimp, intro bindE_cong refl, clarsimp, goal_cases)
    case (1 i v a)
    from advance_finds [OF 1(2)] obtain n where n: "cells (hp s) a = Some n" by blast
    from editing_62 [OF n, where input = "loc_buf g" and w = v] n show ?case by simp
  qed
qed

lemmas library_62_eq = removeNode_62_eq addContact_62_eq editContact_62_eq print_from_62_eq

end
