(* ===== verification/Contact_Library.thy ===== *)
theory Contact_Library
  imports Library_Functions
begin

text \<open>
  Module 2, Tasks 6.1 and 6.2: the linked list of Task 4.1 moved into a library.
  \<open>linkedList.c\<close> (a static library) and \<open>contactList.c\<close> (a shared library) define the six
  functions again (theory \<open>Library_Functions\<close>); the programs differ in how \<open>main\<close> gets hold
  of them. In Task 6.1 the linker does; in Task 6.2 \<open>main\<close> opens the library and looks the
  functions up by name, without checking that they were found. A function pointer is
  \<open>None\<close> when it is null.

  Proved here: both programs behave like that of Task 4.1 whenever the functions are
  there, and exactly which missing function stops the program of Task 6.2 when.
\<close>

section \<open>Libraries\<close>

type_synonym list_fun = "frame \<Rightarrow> book_l \<Rightarrow> io \<Rightarrow> (book_l \<times> io) res"

record list_lib =
  sym_createNode :: "(heap \<Rightarrow> contact \<Rightarrow> (nat \<times> heap) res) option"
  sym_insert :: "(heap \<Rightarrow> ptr \<Rightarrow> contact \<Rightarrow> (heap \<times> ptr) res) option"
  sym_removeNode :: "list_fun option"
  sym_printNode :: "list_fun option"
  sym_addContact :: "list_fun option"
  sym_editContact :: "list_fun option"

text \<open>The symbols of \<open>linkedList.c\<close>.\<close>

definition linkedList_61 :: list_lib where
  "linkedList_61 = \<lparr>sym_createNode = Some createNode_61, sym_insert = Some insert_61,
     sym_removeNode = Some removeNode_61, sym_printNode = Some printNode_61,
     sym_addContact = Some addContact_61, sym_editContact = Some editContact_61\<rparr>"

text \<open>The symbols of \<open>contactList.c\<close>.\<close>

definition contactList_62 :: list_lib where
  "contactList_62 = \<lparr>sym_createNode = Some createNode_62, sym_insert = Some insert_62,
     sym_removeNode = Some removeNode_62, sym_printNode = Some printNode_62,
     sym_addContact = Some addContact_62, sym_editContact = Some editContact_62\<rparr>"

text \<open>\<open>dlsym\<close> for all six names; \<open>found\<close> says which of them the opened library has.\<close>

definition dlsym_all :: "(string \<Rightarrow> bool) \<Rightarrow> list_lib \<Rightarrow> list_lib" where
  "dlsym_all found lib =
     \<lparr>sym_createNode = (if found ''createNode'' then sym_createNode lib else None),
      sym_insert = (if found ''insert'' then sym_insert lib else None),
      sym_removeNode = (if found ''removeNode'' then sym_removeNode lib else None),
      sym_printNode = (if found ''printNode'' then sym_printNode lib else None),
      sym_addContact = (if found ''addContact'' then sym_addContact lib else None),
      sym_editContact = (if found ''editContact'' then sym_editContact lib else None)\<rparr>"

section \<open>The programs\<close>

definition call :: "list_fun option \<Rightarrow> list_fun" where
  "call f g s w = (case f of None \<Rightarrow> Inl NullDeref | Some f \<Rightarrow> f g s w)"

definition switch_lib :: "list_lib \<Rightarrow> frame \<Rightarrow> int \<Rightarrow> book_l \<Rightarrow> io \<Rightarrow> (book_l \<times> io) res" where
  "switch_lib lib g choice s w =
     (if choice = 1 then call (sym_addContact lib) g s w
      else if choice = 2 then call (sym_editContact lib) g s w
      else if choice = 3 then call (sym_removeNode lib) g s w
      else if choice = 4 then call (sym_printNode lib) g s w
      else if choice = 5 then Inr (s, w)
      else Inr (s, printf (''Invalid choice!'' @ [NL]) w))"

definition body_lib :: "list_lib \<Rightarrow> frame \<Rightarrow> int \<times> book_l \<times> io \<Rightarrow> ((int \<times> book_l \<times> io) \<times> bool) res" where
  "body_lib lib g = (\<lambda>(choice, s, w).
     bindE (scanf_d choice (printf menu_text w)) (\<lambda>(choice, w).
     bindE (switch_lib lib g choice s w) (\<lambda>(s, w).
     Inr ((choice, s, w), choice \<noteq> 5))))"

definition main_61 :: "nat \<Rightarrow> int \<Rightarrow> (nat \<Rightarrow> frame) \<Rightarrow> nat \<Rightarrow> io \<Rightarrow> (int \<times> book_l \<times> io) res" where
  "main_61 fuel choice gs mem w = rounds fuel (\<lambda>k. body_lib linkedList_61 (gs k)) (choice, init_l mem, w)"

text \<open>
  Task 6.2: \<open>dl\<close> is what \<open>dlopen\<close> returns, as the names that are found, or \<open>None\<close>. The program
  ends with status 1 and no book if the library cannot be opened.
\<close>

definition main_62 :: "nat \<Rightarrow> (string \<Rightarrow> bool) option \<Rightarrow> int \<Rightarrow> (nat \<Rightarrow> frame) \<Rightarrow> nat \<Rightarrow> io \<Rightarrow> (int \<times> book_l \<times> io) option res" where
  "main_62 fuel dl choice gs mem w =
     (case dl of None \<Rightarrow> Inr None
      | Some found \<Rightarrow>
          bindE (rounds fuel (\<lambda>k. body_lib (dlsym_all found contactList_62) (gs k)) (choice, init_l mem, w)) (\<lambda>r. Inr (Some r)))"

section \<open>Lemmas\<close>

text \<open>The name of the function a choice of the menu calls.\<close>

definition called :: "int \<Rightarrow> string option" where
  "called choice = (if choice = 1 then Some ''addContact'' else if choice = 2 then Some ''editContact''
     else if choice = 3 then Some ''removeNode'' else if choice = 4 then Some ''printNode'' else None)"

lemma switch_lib_full: "switch_lib linkedList_61 = switch_l"
  by (intro ext) (simp add: switch_lib_def switch_l_def linkedList_61_def call_def printNode_61_def library_61_eq)

lemma switch_lib_full_62: "switch_lib contactList_62 = switch_l"
  by (intro ext) (simp add: switch_lib_def switch_l_def contactList_62_def call_def printNode_62_def library_62_eq)

lemma body_lib_full: "body_lib linkedList_61 g = main_body_l g"
  by (simp add: body_lib_def main_body_l_def switch_lib_full)

text \<open>Without some functions the menu works as before until one of them is called.\<close>

lemma switch_lib_missing:
  "switch_lib (dlsym_all found contactList_62) g choice s w =
     (case called choice of Some f \<Rightarrow> if found f then switch_l g choice s w else Inl NullDeref
      | None \<Rightarrow> switch_l g choice s w)"
  by (auto simp: switch_lib_full_62 [symmetric] switch_lib_def dlsym_all_def called_def call_def
      contactList_62_def)

section \<open>Properties\<close>

text \<open>
  C32: The libraries compute what the functions of Task 4.1 compute, so the programs that
  use them are the program of Task 4.1: the one of Task 6.1 always, the
  one of Task 6.2 when the library can be opened and has the four functions of the menu;
  in every round of the latter a missing function matters exactly when it is called.
\<close>

theorem library_programs_agree:
  "main_61 fuel junk gs mem w = main_l fuel junk gs mem w
    \<and> ((\<forall>choice f. called choice = Some f \<longrightarrow> found f) \<longrightarrow>
        main_62 fuel (Some found) junk gs mem w = bindE (main_l fuel junk gs mem w) (\<lambda>r. Inr (Some r)))
    \<and> switch_lib (dlsym_all found contactList_62) g choice s v =
        (if \<exists>f. called choice = Some f \<and> \<not> found f then Inl NullDeref else switch_l g choice s v)"
proof -
  have "switch_lib (dlsym_all found contactList_62) = switch_l" if "\<forall>choice f. called choice = Some f \<longrightarrow> found f"
    by (intro ext) (auto simp: switch_lib_missing that split: option.split)
  then have "(\<lambda>k. body_lib (dlsym_all found contactList_62) (gs k)) = (\<lambda>k. main_body_l (gs k))" if "\<forall>choice f. called choice = Some f \<longrightarrow> found f"
    using that by (simp add: body_lib_def main_body_l_def)
  then show ?thesis
    by (auto simp: main_61_def main_62_def main_l_def body_lib_full switch_lib_missing split: option.split)
qed

theorem library_programs_agree_witness:
  "main_62 4 (Some (\<lambda>_. True)) 0 (\<lambda>_. blank_frame) 8 (console ''1 a b c N 5'') =
      bindE (main_l 4 0 (\<lambda>_. blank_frame) 8 (console ''1 a b c N 5'')) (\<lambda>r. Inr (Some r))"
  using library_programs_agree [of 4 0 "\<lambda>_. blank_frame" 8 "console ''1 a b c N 5''" "\<lambda>_. True"] by simp

end
