(* ===== verification/PQueue.thy ===== *)
theory PQueue
  imports C_Stdio
begin

text \<open>
  The priority queue of Module 2, Task 4.2: an array of elements kept in falling order of
  priority by bubbling a new element forward. A pointer that was never assigned is
  \<open>None\<close>; using it is the fault \<open>Uninit\<close>. Proved here, for a queue whose
  \<open>elements\<close> do point to an array, which the program never sees to: insertion keeps the order and
  the elements, behind those of the same priority, and refuses a full queue; and the two slips
  of the program (the result of \<open>malloc\<close> is stored in the wrong field, \<open>takeMax\<close> assigns
  instead of comparing) and what they do.
\<close>

section \<open>The queue\<close>

record PQElement =
  val :: int
  priority :: int

record PriorityQueue =
  elements :: "PQElement list option"
  size_q :: int
  capacity :: int

text \<open>
  The pointer \<open>malloc\<close> returns is converted to \<open>int\<close>, stored in \<open>capacity\<close> and overwritten two
  lines below; \<open>elements\<close> keeps what it held.
\<close>

definition initQueue :: "PriorityQueue \<Rightarrow> int \<Rightarrow> PriorityQueue" where
  "initQueue pq cap = pq\<lparr>size_q := 0, capacity := cap\<rparr>"

definition elems :: "PriorityQueue \<Rightarrow> PQElement list res" where
  "elems pq = (case elements pq of None \<Rightarrow> Inl Uninit | Some es \<Rightarrow> Inr es)"

function bubble :: "PQElement list \<Rightarrow> int \<Rightarrow> PQElement list res" where
  "bubble es i =
     (if 0 < i then
        bindE (aget es i) (\<lambda>x. bindE (aget es (i - 1)) (\<lambda>y.
        if priority x > priority y then
          bindE (aset es i y) (\<lambda>es. bindE (aset es (i - 1) x) (\<lambda>es. bubble es (i - 1)))
        else Inr es))
      else Inr es)"
  by pat_completeness auto
termination by (relation "measure (\<lambda>(es, i). nat i)") auto

definition insert_q :: "PriorityQueue \<Rightarrow> int \<Rightarrow> int \<Rightarrow> io \<Rightarrow> (PriorityQueue \<times> io) res" where
  "insert_q pq v p w =
     (if size_q pq \<ge> capacity pq then Inr (pq, printf (''Queue is full.'' @ [NL]) w)
      else bindE (elems pq) (\<lambda>es.
        bindE (aset es (size_q pq) \<lparr>val = v, priority = p\<rparr>) (\<lambda>es.
        bindE (c_int (size_q pq + 1)) (\<lambda>n.
        bindE (bubble es (n - 1)) (\<lambda>es.
        Inr (pq\<lparr>elements := Some es, size_q := n\<rparr>, w))))))"

text \<open>\<open>for (int i = 1; i < size; i++) elements[i - 1] = elements[i];\<close>\<close>

function shift_q :: "PQElement list \<Rightarrow> int \<Rightarrow> int \<Rightarrow> PQElement list res" where
  "shift_q es i n =
     (if i < n then bindE (aget es i) (\<lambda>x. bindE (aset es (i - 1) x) (\<lambda>es. shift_q es (i + 1) n))
      else Inr es)"
  by pat_completeness auto
termination by (relation "measure (\<lambda>(es, i, n). nat (n - i))") auto

text \<open>The condition \<open>pq->size = 0\<close> is an assignment with the value 0, that is, false.\<close>

definition takeMax :: "PriorityQueue \<Rightarrow> (PQElement \<times> PriorityQueue) res" where
  "takeMax pq =
     (let pq = pq\<lparr>size_q := 0\<rparr> in
      bindE (elems pq) (\<lambda>es.
      bindE (aget es 0) (\<lambda>max.
      bindE (shift_q es 1 (size_q pq)) (\<lambda>es.
      Inr (max, pq\<lparr>elements := Some es, size_q := size_q pq - 1\<rparr>)))))"

fun insert_all :: "(int \<times> int) list \<Rightarrow> PriorityQueue \<times> io \<Rightarrow> (PriorityQueue \<times> io) res" where
  "insert_all [] s = Inr s"
| "insert_all (x # xs) s = bindE (insert_q (fst s) (fst x) (snd x) (snd s)) (insert_all xs)"

definition main_q :: "PriorityQueue \<Rightarrow> io \<Rightarrow> io res" where
  "main_q pq w =
     bindE (insert_all [(20, 16), (72, 20), (20, 13), (20, 12), (20, 1), (20, 4)] (initQueue pq 10, w)) (\<lambda>(pq, w).
     bindE (takeMax pq) (\<lambda>(max, pq).
     let w = printf (''Value: '' @ show_int (val max) @ '', Priority: '' @ show_int (priority max) @ [NL]) w in
     bindE (elems pq) (\<lambda>_. Inr w)))"

section \<open>Specification\<close>

definition live :: "PriorityQueue \<Rightarrow> PQElement list" where
  "live pq = take (nat (size_q pq)) (case elements pq of None \<Rightarrow> [] | Some es \<Rightarrow> es)"

definition falling :: "PQElement list \<Rightarrow> bool" where
  "falling es = sorted_wrt (\<lambda>x y. priority x \<ge> priority y) es"

definition queue_inv :: "PriorityQueue \<Rightarrow> bool" where
  "queue_inv pq = (0 \<le> size_q pq \<and> size_q pq \<le> capacity pq \<and> capacity pq \<le> INT_MAX
     \<and> (\<exists>es. elements pq = Some es \<and> int (length es) = capacity pq) \<and> falling (live pq))"

text \<open>The place of a new element: behind all elements of at least its priority.\<close>

definition enqueue :: "PQElement \<Rightarrow> PQElement list \<Rightarrow> PQElement list" where
  "enqueue x es = takeWhile (\<lambda>y. priority y \<ge> priority x) es @ x # dropWhile (\<lambda>y. priority y \<ge> priority x) es"

definition empty_queue :: "nat \<Rightarrow> PriorityQueue" where
  "empty_queue n = \<lparr>elements = Some (replicate n \<lparr>val = 0, priority = 0\<rparr>), size_q = 0, capacity = int n\<rparr>"

definition ins_q :: "PQElement \<Rightarrow> PriorityQueue \<times> io \<Rightarrow> (PriorityQueue \<times> io) res" where
  "ins_q x = (\<lambda>(pq, w). insert_q pq (val x) (priority x) w)"

text \<open>The interface: what a client of a queue with limited room may rely on.\<close>

locale bounded_queue =
  fixes ins :: "'e \<Rightarrow> 's \<Rightarrow> 's res"
    and items :: "'s \<Rightarrow> 'e list"
    and prio :: "'e \<Rightarrow> int"
    and invar :: "'s \<Rightarrow> bool"
    and room :: "'s \<Rightarrow> nat"
  assumes items_falling: "invar s \<Longrightarrow> sorted_wrt (\<lambda>x y. prio x \<ge> prio y) (items s)"
    and ins_ok: "invar s \<Longrightarrow> 0 < room s \<Longrightarrow> \<exists>s'. ins x s = Inr s' \<and> invar s'
      \<and> Suc (room s') = room s \<and> mset (items s') = add_mset x (mset (items s))"
begin

lemma ins_all:
  "invar s \<Longrightarrow> length xs \<le> room s \<Longrightarrow>
    \<exists>s'. foldl (\<lambda>m x. bindE m (ins x)) (Inr s) xs = Inr s' \<and> invar s'
      \<and> mset (items s') = mset (items s) + mset xs"
proof (induction xs arbitrary: s)
  case Nil
  then show ?case by simp
next
  case (Cons x xs)
  with ins_ok [of s x] obtain s1 where
    1: "ins x s = Inr s1" "invar s1" "Suc (room s1) = room s" "mset (items s1) = add_mset x (mset (items s))"
    by auto
  with Cons.IH [of s1] Cons.prems show ?case by auto
qed

lemma front_is_max: "invar s \<Longrightarrow> x \<in> set (items s) \<Longrightarrow> prio x \<le> prio (hd (items s))"
  using items_falling [of s] by (cases "items s") auto

end

section \<open>Lemmas\<close>

declare bubble.simps [simp del] shift_q.simps [simp del]

lemma falling_simps [simp]:
  "falling []"
  "falling (x # xs) \<longleftrightarrow> (\<forall>y \<in> set xs. priority y \<le> priority x) \<and> falling xs"
  "falling (xs @ ys) \<longleftrightarrow> falling xs \<and> falling ys \<and> (\<forall>x \<in> set xs. \<forall>y \<in> set ys. priority y \<le> priority x)"
  by (auto simp: falling_def sorted_wrt_append)

lemma enqueue_snoc:
  "falling (xs @ [y]) \<Longrightarrow> enqueue x (xs @ [y]) =
    (if priority x > priority y then enqueue x xs @ [y] else xs @ [y, x])"
  unfolding enqueue_def
  by (auto simp: takeWhile_append dropWhile_append takeWhile_eq_all_conv [THEN iffD2])

lemma mset_enqueue: "mset (enqueue x es) = add_mset x (mset es)"
proof -
  have "mset (takeWhile P es @ dropWhile P es) = mset es" for P by simp
  then show ?thesis unfolding enqueue_def by (simp del: takeWhile_dropWhile_id)
qed

lemma set_enqueue [simp]: "set (enqueue x es) = insert x (set es)"
  using arg_cong [OF mset_enqueue [of x es], of set_mset] by simp

lemma enqueue_Cons:
  "enqueue x (y # es) = (if priority x \<le> priority y then y # enqueue x es else x # y # es)"
  by (simp add: enqueue_def)

lemma falling_enqueue: "falling es \<Longrightarrow> falling (enqueue x es)"
proof (induction es)
  case Nil
  then show ?case by (simp add: enqueue_def)
next
  case (Cons y es)
  then show ?case by (auto simp: enqueue_Cons)
qed

text \<open>Bubbling moves the element behind the ordered part to its place.\<close>

lemma bubble_enqueue:
  "falling xs \<Longrightarrow> bubble (xs @ x # rest) (int (length xs)) = Inr (enqueue x xs @ rest)"
proof (induction xs arbitrary: rest rule: rev_induct)
  case Nil
  then show ?case by (simp add: bubble.simps enqueue_def)
next
  case (snoc y xs)
  let ?es = "(xs @ [y]) @ x # rest"
  have get: "aget ?es (1 + int (length xs)) = Inr x" "aget ?es (int (length xs)) = Inr y"
    by (simp_all add: aget_def nth_append nat_add_distrib)
  show ?case
  proof (cases "priority x > priority y")
    case True
    have "aset ?es (1 + int (length xs)) y = Inr (xs @ y # y # rest)"
      by (simp add: aset_def nat_add_distrib list_update_append)
    moreover have "aset (xs @ y # y # rest) (int (length xs)) x = Inr (xs @ x # y # rest)"
      by (simp add: aset_def)
    ultimately have "bubble ?es (int (length (xs @ [y]))) = bubble (xs @ x # y # rest) (int (length xs))"
      using True get by (subst bubble.simps) simp
    with snoc True enqueue_snoc [of xs y x] show ?thesis by simp
  next
    case False
    with get snoc.prems enqueue_snoc [of xs y x] show ?thesis
      by (subst bubble.simps) simp
  qed
qed

lemma insert_q_room:
  assumes "queue_inv pq" and "size_q pq < capacity pq"
  shows "\<exists>pq'. insert_q pq v p w = Inr (pq', w) \<and> queue_inv pq' \<and> capacity pq' = capacity pq
    \<and> size_q pq' = size_q pq + 1 \<and> live pq' = enqueue \<lparr>val = v, priority = p\<rparr> (live pq)"
proof -
  let ?x = "\<lparr>val = v, priority = p\<rparr>"
  from assms(1) obtain es where es: "elements pq = Some es" "int (length es) = capacity pq"
    and n: "0 \<le> size_q pq" "capacity pq \<le> INT_MAX" and f: "falling (live pq)"
    by (auto simp: queue_inv_def)
  let ?k = "nat (size_q pq)"
  have k: "?k < length es" using es n assms(2) by linarith
  have live: "live pq = take ?k es" by (simp add: live_def es)
  have set: "aset es (size_q pq) ?x = Inr (take ?k es @ ?x # drop (Suc ?k) es)"
    using k n(1) by (simp add: aset_def upd_conv_take_nth_drop)
  have int: "c_int (size_q pq + 1) = Inr (size_q pq + 1)"
    using assms(2) n by (simp add: c_int_def c_arith)
  have bub: "bubble (take ?k es @ ?x # drop (Suc ?k) es) (size_q pq) = Inr (enqueue ?x (take ?k es) @ drop (Suc ?k) es)"
    using bubble_enqueue [of "take ?k es" ?x "drop (Suc ?k) es"] f live k n(1) by (simp add: min_absorb2)
  let ?es = "enqueue ?x (take ?k es) @ drop (Suc ?k) es"
  have len: "length (enqueue ?x (take ?k es)) = Suc ?k"
    using arg_cong [OF mset_enqueue [of ?x "take ?k es"], of size] k by (simp add: min_absorb2)
  have "insert_q pq v p w = Inr (pq\<lparr>elements := Some ?es, size_q := size_q pq + 1\<rparr>, w)"
    using assms(2) es(1) set int bub by (simp add: insert_q_def elems_def)
  moreover have l: "live (pq\<lparr>elements := Some ?es, size_q := size_q pq + 1\<rparr>) = enqueue ?x (live pq)"
    using len n(1) by (simp add: live_def nat_add_distrib es)
  moreover have "queue_inv (pq\<lparr>elements := Some ?es, size_q := size_q pq + 1\<rparr>)"
    unfolding queue_inv_def using l falling_enqueue [OF f, of ?x] n assms(2) len k es(2) by auto
  ultimately show ?thesis by auto
qed

lemma insert_q_full:
  "size_q pq \<ge> capacity pq \<Longrightarrow> insert_q pq v p w = Inr (pq, printf (''Queue is full.'' @ [NL]) w)"
  by (simp add: insert_q_def)

interpretation array_queue: bounded_queue ins_q "\<lambda>(pq, w). live pq" priority "\<lambda>(pq, w). queue_inv pq"
    "\<lambda>(pq, w). nat (capacity pq - size_q pq)"
proof (unfold_locales, goal_cases)
  case (1 s)
  then show ?case by (auto simp: queue_inv_def falling_def)
next
  case (2 s x)
  obtain pq w where s: "s = (pq, w)" by (cases s)
  with 2 insert_q_room [of pq "val x" "priority x" w] show ?case
    by (auto simp: ins_q_def mset_enqueue)
qed

lemma ins_q_apply: "ins_q x (pq, w) = insert_q pq (val x) (priority x) w"
  by (simp add: ins_q_def)

lemma insert_all_foldl:
  "insert_all xs s = foldl (\<lambda>m x. bindE m (ins_q x)) (Inr s) (map (\<lambda>(v, p). \<lparr>val = v, priority = p\<rparr>) xs)"
proof (induction xs arbitrary: s)
  case Nil
  then show ?case by simp
next
  case (Cons x xs)
  have fail: "foldl (\<lambda>m x. bindE m (ins_q x)) (Inl e) ys = Inl e" for e ys by (induction ys) auto
  obtain pq w where s: "s = (pq, w)" by (cases s)
  obtain v p where x: "x = (v, p)" by (cases x)
  show ?case
    using Cons fail by (cases "insert_q pq v p w") (simp_all add: ins_q_apply s x)
qed

lemma empty_queue_inv: "int n \<le> INT_MAX \<Longrightarrow> queue_inv (empty_queue n)"
  by (simp add: queue_inv_def empty_queue_def live_def)

lemma live_empty [simp]: "live (empty_queue n) = []"
  by (simp add: live_def empty_queue_def)

section \<open>Properties\<close>

text \<open>
  Inserting into a queue that is not full puts the element behind all elements of at
  least its priority and before the others, keeps the queue ordered and prints nothing; a
  full queue is left as it is with a message.
\<close>

theorem pq_insert:
  assumes "queue_inv pq"
  shows "\<exists>pq' w'. insert_q pq v p w = Inr (pq', w') \<and> queue_inv pq'
    \<and> (if size_q pq < capacity pq
       then live pq' = enqueue \<lparr>val = v, priority = p\<rparr> (live pq) \<and> size_q pq' = size_q pq + 1 \<and> w' = w
       else pq' = pq \<and> w' = printf (''Queue is full.'' @ [NL]) w)"
proof (cases "size_q pq < capacity pq")
  case True
  from insert_q_room [OF assms True, of v p w] True show ?thesis by auto
next
  case False
  with insert_q_full [of pq] assms show ?thesis by simp
qed


theorem pq_insert_witness:
  "\<exists>pq' w'. insert_q (empty_queue 3) 20 16 (console []) = Inr (pq', w') \<and> queue_inv pq'
    \<and> live pq' = [\<lparr>val = 20, priority = 16\<rparr>]"
  using pq_insert [OF empty_queue_inv [of 3], of 20 16 "console []"]
  by (auto simp: c_arith empty_queue_def [of 3, THEN arg_cong, of size_q]
      empty_queue_def [of 3, THEN arg_cong, of capacity] enqueue_def)

text \<open>
  As many insertions as there is room for all succeed; afterwards the queue holds
  exactly the inserted elements besides the old ones, in falling order, and its first
  element has the greatest priority of all.
\<close>

theorem pq_insert_all:
  assumes "queue_inv pq" and "int (length xs) \<le> capacity pq - size_q pq"
  shows "\<exists>pq' w'. insert_all xs (pq, w) = Inr (pq', w') \<and> queue_inv pq'
    \<and> mset (live pq') = mset (live pq) + mset (map (\<lambda>(v, p). \<lparr>val = v, priority = p\<rparr>) xs)
    \<and> (\<forall>x \<in> set (live pq'). priority x \<le> priority (hd (live pq')))"
proof -
  let ?xs = "map (\<lambda>(v, p). \<lparr>val = v, priority = p\<rparr>) xs"
  have "length xs \<le> nat (capacity pq - size_q pq)" using assms(2) by linarith
  with array_queue.ins_all [of "(pq, w)" ?xs] assms(1) obtain pq' w' where
    1: "insert_all xs (pq, w) = Inr (pq', w')" "queue_inv pq'" "mset (live pq') = mset (live pq) + mset ?xs"
    by (auto simp: insert_all_foldl)
  with array_queue.front_is_max [of "(pq', w')"] show ?thesis by auto
qed

theorem pq_insert_all_witness:
  "\<exists>pq' w'. insert_all [(20, 16), (72, 20)] (empty_queue 10, console []) = Inr (pq', w') \<and> queue_inv pq'
    \<and> mset (live pq') = {#\<lparr>val = 20, priority = 16\<rparr>, \<lparr>val = 72, priority = 20\<rparr>#}"
  using pq_insert_all [of "empty_queue 10" "[(20, 16), (72, 20)]" "console []"] empty_queue_inv [of 10]
  by (fastforce simp: c_arith empty_queue_def [of 10, THEN arg_cong, of size_q]
      empty_queue_def [of 10, THEN arg_cong, of capacity])

text \<open>
  \<open>takeMax\<close> returns the first element, but the assignment in its test forgets the
  number of elements: whatever the queue held, its size is -1 afterwards, and the next
  insertion writes before the array.
\<close>

theorem pq_takeMax_forgets:
  assumes "queue_inv pq" and "0 < size_q pq"
  shows "\<exists>pq'. takeMax pq = Inr (hd (live pq), pq') \<and> size_q pq' = -1
    \<and> insert_q pq' v p w = Inl OutOfBounds"
proof -
  from assms obtain es where es: "elements pq = Some es" "int (length es) = capacity pq"
    by (auto simp: queue_inv_def)
  moreover have "es \<noteq> []" using es assms by (auto simp: queue_inv_def)
  ultimately have "aget es 0 = Inr (hd (live pq))"
    using assms by (auto simp: aget_def live_def hd_conv_nth queue_inv_def)
  then have "takeMax pq = Inr (hd (live pq), pq\<lparr>size_q := -1\<rparr>)"
    using es(1) by (cases pq) (simp add: takeMax_def elems_def shift_q.simps)
  moreover have "insert_q (pq\<lparr>size_q := -1\<rparr>) v p w = Inl OutOfBounds"
    using assms es(1) by (auto simp: insert_q_def elems_def aset_def queue_inv_def)
  ultimately show ?thesis by auto
qed

theorem pq_takeMax_forgets_witness:
  "\<exists>pq pq'. insert_q (empty_queue 3) 20 16 (console []) = Inr (pq, console []) \<and>
     takeMax pq = Inr (hd (live pq), pq') \<and> size_q pq' = -1 \<and> insert_q pq' 1 1 (console []) = Inl OutOfBounds"
proof -
  have "size_q (empty_queue 3) < capacity (empty_queue 3)" "size_q (empty_queue 3) = 0"
    by (simp_all add: empty_queue_def)
  with insert_q_room [OF empty_queue_inv [of 3], of 20 16 "console []"] obtain pq where
    pq: "insert_q (empty_queue 3) 20 16 (console []) = Inr (pq, console [])" "queue_inv pq" "0 < size_q pq"
    by (auto simp: c_arith)
  from pq(1) pq_takeMax_forgets [OF pq(2,3)] show ?thesis by blast
qed

text \<open>
  The program as written never gets that far: \<open>initQueue\<close> does not set \<open>elements\<close>, and
  the first insertion goes through the unset pointer.
\<close>

theorem pq_main_faults:
  assumes "elements pq = None"
  shows "main_q pq w = Inl Uninit"
  using assms by (simp add: main_q_def initQueue_def insert_q_def elems_def)

theorem pq_main_faults_witness:
  "main_q \<lparr>elements = None, size_q = 0, capacity = 0\<rparr> (console []) = Inl Uninit"
  by (rule pq_main_faults) simp

end
