(* ===== verification/Chmod.thy ===== *)
theory Chmod
  imports C_Stdio
begin

unbundle bit_operations_syntax

text \<open>
  The file shell of Module 2, Task 3.1: \<open>touch\<close>, \<open>ls\<close>, \<open>ls -l\<close> and \<open>chmod\<close> with octal and
  symbolic modes. A mode is a 32-bit word. The operating system is not part of the
  program: its calls are the fields of the record \<open>os\<close>, over a state the model does not
  look into. Proved here: the bits a symbolic mode changes; an octal mode is handed over as it
  is and printed back; the two texts for a mode agree; \<open>ls\<close> lists hidden files.
\<close>

section \<open>Modes\<close>

type_synonym mode = "32 word"

definition S_IRUSR :: mode where "S_IRUSR = 0x100"
definition S_IWUSR :: mode where "S_IWUSR = 0x080"
definition S_IXUSR :: mode where "S_IXUSR = 0x040"
definition S_IRGRP :: mode where "S_IRGRP = 0x020"
definition S_IWGRP :: mode where "S_IWGRP = 0x010"
definition S_IXGRP :: mode where "S_IXGRP = 0x008"
definition S_IROTH :: mode where "S_IROTH = 0x004"
definition S_IWOTH :: mode where "S_IWOTH = 0x002"
definition S_IXOTH :: mode where "S_IXOTH = 0x001"

definition S_IRWXU :: mode where "S_IRWXU = 0x1C0"
definition S_IRWXG :: mode where "S_IRWXG = 0x038"
definition S_IRWXO :: mode where "S_IRWXO = 0x007"

definition S_ISDIR :: "mode \<Rightarrow> bool" where
  "S_ISDIR m = (m AND 0xF000 = 0x4000)"

section \<open>The operating system\<close>

record 's os =
  sys_stat :: "'s \<Rightarrow> string \<Rightarrow> mode option"
  sys_chmod :: "'s \<Rightarrow> string \<Rightarrow> mode \<Rightarrow> 's option"
  sys_creat :: "'s \<Rightarrow> string \<Rightarrow> mode \<Rightarrow> 's option"
  sys_readdir :: "'s \<Rightarrow> string list option"

section \<open>Listing\<close>

text \<open>A \<open>char\<close> is signed; \<open>lit\<close> is the address of the string literal it is compared with.\<close>

definition char_int :: "char \<Rightarrow> int" where
  "char_int c = (let n = of_char c :: int in if n < 128 then n else n - 256)"

definition simpleCheck :: "int \<Rightarrow> 's os \<Rightarrow> 's \<Rightarrow> io \<Rightarrow> io" where
  "simpleCheck lit K s w =
     (case sys_readdir K s of None \<Rightarrow> w
      | Some names \<Rightarrow> fold (\<lambda>d w.
          if char_int (hd (d @ [NUL])) \<noteq> lit then printf (d @ [NL]) w else w) names w)"

definition flag :: "bool \<Rightarrow> char \<Rightarrow> string" where
  "flag b c = [if b then c else CHR ''-'']"

definition coolCheck :: "int \<Rightarrow> 's os \<Rightarrow> 's \<Rightarrow> io \<Rightarrow> io" where
  "coolCheck lit K s w =
     (case sys_readdir K s of None \<Rightarrow> w
      | Some names \<Rightarrow> fold (\<lambda>d w.
          if char_int (hd (d @ [NUL])) = lit then w
          else case sys_stat K s d of None \<Rightarrow> w
          | Some m \<Rightarrow>
            let w = printf (flag (S_ISDIR m) (CHR ''d'')) w;
                w = printf (flag (m AND S_IRUSR \<noteq> 0) (CHR ''r'')) w;
                w = printf (flag (m AND S_IWUSR \<noteq> 0) (CHR ''w'')) w;
                w = printf (flag (m AND S_IXUSR \<noteq> 0) (CHR ''x'')) w;
                w = printf (flag (m AND S_IRGRP \<noteq> 0) (CHR ''r'')) w;
                w = printf (flag (m AND S_IWGRP \<noteq> 0) (CHR ''w'')) w;
                w = printf (flag (m AND S_IXGRP \<noteq> 0) (CHR ''x'')) w;
                w = printf (flag (m AND S_IROTH \<noteq> 0) (CHR ''r'')) w;
                w = printf (flag (m AND S_IWOTH \<noteq> 0) (CHR ''w'')) w;
                w = printf (flag (m AND S_IXOTH \<noteq> 0) (CHR ''x'')) w
            in printf (CHR '' '' # d @ [NL]) w) names w)"

definition createFile :: "'s os \<Rightarrow> string option \<Rightarrow> 's \<Rightarrow> 's" where
  "createFile K filename s =
     (case filename of None \<Rightarrow> s
      | Some f \<Rightarrow> (case sys_creat K s f 0x1A4 of None \<Rightarrow> s | Some s \<Rightarrow> s))"

section \<open>Texts for a mode\<close>

definition printBit :: "mode \<Rightarrow> io \<Rightarrow> io" where
  "printBit m w = printf [NL] (fold (\<lambda>i w. printf (show_int (uint (drop_bit i m AND 1))) w) (rev [0..<9]) w)"

definition set_if :: "bool \<Rightarrow> int \<Rightarrow> char \<Rightarrow> cbuf \<Rightarrow> cbuf res" where
  "set_if b i c str = (if b then aset str i c else Inr str)"

definition toString :: "mode \<Rightarrow> cbuf \<Rightarrow> cbuf res" where
  "toString m str =
     bindE (put_str str ''----------'') (\<lambda>str.
     bindE (set_if (S_ISDIR m) 0 (CHR ''d'') str) (\<lambda>str.
     bindE (set_if (m AND S_IRUSR \<noteq> 0) 1 (CHR ''r'') str) (\<lambda>str.
     bindE (set_if (m AND S_IWUSR \<noteq> 0) 2 (CHR ''w'') str) (\<lambda>str.
     bindE (set_if (m AND S_IXUSR \<noteq> 0) 3 (CHR ''x'') str) (\<lambda>str.
     bindE (set_if (m AND S_IRGRP \<noteq> 0) 4 (CHR ''r'') str) (\<lambda>str.
     bindE (set_if (m AND S_IWGRP \<noteq> 0) 5 (CHR ''w'') str) (\<lambda>str.
     bindE (set_if (m AND S_IXGRP \<noteq> 0) 6 (CHR ''x'') str) (\<lambda>str.
     bindE (set_if (m AND S_IROTH \<noteq> 0) 7 (CHR ''r'') str) (\<lambda>str.
     bindE (set_if (m AND S_IWOTH \<noteq> 0) 8 (CHR ''w'') str) (\<lambda>str.
     set_if (m AND S_IXOTH \<noteq> 0) 9 (CHR ''x'') str))))))))))"

section \<open>Changing a mode\<close>

definition who_bits :: "char \<Rightarrow> mode" where
  "who_bits c =
     (if c = CHR ''u'' then S_IRUSR OR S_IWUSR OR S_IXUSR
      else if c = CHR ''g'' then S_IRGRP OR S_IWGRP OR S_IXGRP
      else if c = CHR ''o'' then S_IROTH OR S_IWOTH OR S_IXOTH
      else if c = CHR ''a'' then S_IRWXU OR S_IRWXG OR S_IRWXO
      else 0)"

fun scan_who :: "mode \<Rightarrow> string \<Rightarrow> mode \<times> string" where
  "scan_who who [] = (who, [])"
| "scan_who who (c # cs) =
     (if c \<in> {CHR ''u'', CHR ''g'', CHR ''o'', CHR ''a''} then scan_who (who OR who_bits c) cs
      else (who, c # cs))"

definition perm_bits :: "char \<Rightarrow> mode" where
  "perm_bits c =
     (if c = CHR ''r'' then S_IRUSR OR S_IRGRP OR S_IROTH
      else if c = CHR ''w'' then S_IWUSR OR S_IWGRP OR S_IWOTH
      else if c = CHR ''x'' then S_IXUSR OR S_IXGRP OR S_IXOTH
      else 0)"

fun scan_perm :: "mode \<Rightarrow> string \<Rightarrow> mode" where
  "scan_perm perm [] = perm"
| "scan_perm perm (c # cs) = scan_perm (perm OR perm_bits c) cs"

definition symbolicAccess :: "mode \<Rightarrow> string \<Rightarrow> io \<Rightarrow> mode \<times> io" where
  "symbolicAccess m symbolic w =
     (let (who, ptr) = scan_who 0 symbolic;
          who = (if who = 0 then S_IRWXU OR S_IRWXG OR S_IRWXO else who);
          op = hd (ptr @ [NUL]);
          perm = scan_perm 0 (drop 1 ptr)
      in if op \<notin> {CHR ''+'', CHR ''-'', CHR ''=''} then (m, printf (''Invalid operation: '' @ [op, NL]) w)
         else if op = CHR ''='' then ((m AND NOT who) OR (perm AND who), w)
         else if op = CHR ''+'' then (m OR (perm AND who), w)
         else (m AND NOT (perm AND who), w))"

text \<open>\<open>strtol(s, NULL, 8)\<close> on a string that starts with a decimal digit, stored in a \<open>mode_t\<close>.\<close>

definition isoct :: "char \<Rightarrow> bool" where
  "isoct c = (isdigit c \<and> digit_val c < 8)"

definition oct_val :: "string \<Rightarrow> nat" where
  "oct_val s = foldl (\<lambda>a c. 8 * a + digit_val c) 0 s"

definition strtol8 :: "string \<Rightarrow> mode" where
  "strtol8 s = of_nat (min (oct_val (takeWhile isoct s)) (2 ^ 63 - 1))"

fun show_oct :: "nat \<Rightarrow> string" where
  "show_oct n = (if n < 8 then [digit_char n] else show_oct (n div 8) @ [digit_char (n mod 8)])"

declare show_oct.simps [simp del]

definition Chmod :: "'s os \<Rightarrow> string option \<Rightarrow> string option \<Rightarrow> cbuf \<Rightarrow> 's \<Rightarrow> io \<Rightarrow> ('s \<times> io) res" where
  "Chmod K access filename buf s w =
     (case (access, filename) of
        (Some a, Some f) \<Rightarrow>
          (case sys_stat K s f of None \<Rightarrow> Inr (s, w)
           | Some st \<Rightarrow>
             let (m, w) = (if isdigit (hd (a @ [NUL])) then (strtol8 a, w) else symbolicAccess st a w)
             in case sys_chmod K s f m of None \<Rightarrow> Inr (s, w)
                | Some s' \<Rightarrow>
                  bindE (toString m buf) (\<lambda>buf. bindE (cstr buf) (\<lambda>str.
                  Inr (s', printBit m (printf (''Permissions of '' @ [CHR 0x27] @ f @ [CHR 0x27] @ '' changed to:'' @ [NL]
                    @ ''Octal: '' @ show_oct (unat m) @ [NL] @ ''Symbolic: '' @ str @ [NL] @ ''Bitwise: '') w)))))
      | _ \<Rightarrow> Inr (s, printf (''Incorrect usage: chmod <access> <filename>'' @ [NL]) w))"

section \<open>The shell\<close>

text \<open>
  \<open>input\<close> keeps its contents from round to round: at end of input \<open>fgets\<close> leaves it alone.
  \<open>strtok\<close> ends the first word with a NUL, and what is behind it is never read again.
\<close>

definition exec :: "int \<Rightarrow> 's os \<Rightarrow> cbuf \<Rightarrow> string \<Rightarrow> string option \<Rightarrow> string option \<Rightarrow> 's \<Rightarrow> io \<Rightarrow> ('s \<times> io) res" where
  "exec lit K buf command arg1 arg2 s w =
     (if command = ''touch'' then Inr (createFile K arg1 s, w)
      else if command = ''ls'' then
        Inr (s, if arg1 = Some ''-l'' then coolCheck lit K s w else simpleCheck lit K s w)
      else if command = ''chmod'' then Chmod K arg1 arg2 buf s w
      else Inr (s, printf (''Unknown command: '' @ command @ [NL]) w))"

definition words3 :: "string \<Rightarrow> (string \<times> string option \<times> string option) option" where
  "words3 line =
     (case strtok line '' '' of None \<Rightarrow> None
      | Some (c, r) \<Rightarrow> (case strtok r '' '' of None \<Rightarrow> Some (c, None, None)
        | Some (a, r) \<Rightarrow> (case strtok r '' '' of None \<Rightarrow> Some (c, Some a, None)
          | Some (b, _) \<Rightarrow> Some (c, Some a, Some b))))"

definition shell_body :: "int \<Rightarrow> 's os \<Rightarrow> cbuf \<Rightarrow> cbuf \<times> 's \<times> io \<Rightarrow> ((cbuf \<times> 's \<times> io) \<times> bool) res" where
  "shell_body lit K buf = (\<lambda>(input, s, w).
     bindE (fgets input 100 (printf ''>>> '' w)) (\<lambda>(_, input, w).
     bindE (strcspn input [NL]) (\<lambda>k.
     bindE (aset input k NUL) (\<lambda>input.
     bindE (cstr input) (\<lambda>line.
     case words3 line of None \<Rightarrow> Inr ((input, s, w), True)
     | Some (command, arg1, arg2) \<Rightarrow>
       bindE (put_str input (takeWhile (\<lambda>c. c = CHR '' '') line @ command)) (\<lambda>input.
       if command = ''exit'' then Inr ((input, s, w), False)
       else bindE (exec lit K buf command arg1 arg2 s w) (\<lambda>(s, w). Inr ((input, s, w), True))))))))"

definition main_c :: "nat \<Rightarrow> int \<Rightarrow> 's os \<Rightarrow> cbuf \<Rightarrow> cbuf \<Rightarrow> 's \<Rightarrow> io \<Rightarrow> (cbuf \<times> 's \<times> io) res" where
  "main_c fuel lit K buf input s w = do_while fuel (shell_body lit K buf) (input, s, w)"

section \<open>Specification\<close>

text \<open>The permission with bit \<open>n\<close>: its class and its kind.\<close>

definition class_of :: "nat \<Rightarrow> char" where
  "class_of n = (if n div 3 = 2 then CHR ''u'' else if n div 3 = 1 then CHR ''g'' else CHR ''o'')"

definition kind_of :: "nat \<Rightarrow> char" where
  "kind_of n = (if n mod 3 = 2 then CHR ''r'' else if n mod 3 = 1 then CHR ''w'' else CHR ''x'')"

definition meant :: "string \<Rightarrow> nat \<Rightarrow> bool" where
  "meant ws n = (n < 9 \<and> (ws = [] \<or> CHR ''a'' \<in> set ws \<or> class_of n \<in> set ws))"

definition named :: "string \<Rightarrow> nat \<Rightarrow> bool" where
  "named ps n = (n < 9 \<and> kind_of n \<in> set ps)"

definition mode_text :: "mode \<Rightarrow> string" where
  "mode_text m = (if S_ISDIR m then CHR ''d'' else CHR ''-'')
     # map (\<lambda>n. if bit m n then kind_of n else CHR ''-'') (rev [0..<9])"

text \<open>What the program prints after it has set the mode \<open>n\<close>.\<close>

definition changed_text :: "string \<Rightarrow> nat \<Rightarrow> string" where
  "changed_text f n = ''Permissions of '' @ [CHR 0x27] @ f @ [CHR 0x27] @ '' changed to:'' @ [NL] @ ''Octal: '' @ show_oct n @ [NL]
     @ ''Symbolic: '' @ mode_text (of_nat n) @ [NL]
     @ ''Bitwise: '' @ map (\<lambda>i. if bit n i then CHR ''1'' else CHR ''0'') (rev [0..<9]) @ [NL]"

text \<open>A file system in memory, for the examples.\<close>

definition mem_fs :: "(string \<times> mode) list os" where
  "mem_fs = \<lparr>sys_stat = map_of,
     sys_chmod = (\<lambda>s f m. if map_of s f = None then None
       else Some (map (\<lambda>(g, old). if g = f then (g, (old AND 0xF000) OR (m AND 0xFFF)) else (g, old)) s)),
     sys_creat = (\<lambda>s f m. Some (if map_of s f = None then (f, 0x8000 OR m) # s else s)),
     sys_readdir = (\<lambda>s. Some (map fst s))\<rparr>"

section \<open>Lemmas\<close>

lemmas S_defs = S_IRUSR_def S_IWUSR_def S_IXUSR_def S_IRGRP_def S_IWGRP_def S_IXGRP_def
  S_IROTH_def S_IWOTH_def S_IXOTH_def

lemma S_exp: "S_IRUSR = 2 ^ 8" "S_IWUSR = 2 ^ 7" "S_IXUSR = 2 ^ 6" "S_IRGRP = 2 ^ 5" "S_IWGRP = 2 ^ 4"
  "S_IXGRP = 2 ^ 3" "S_IROTH = 2 ^ 2" "S_IWOTH = 2 ^ 1" "S_IXOTH = 2 ^ 0"
  by (simp_all add: S_defs)

lemma bit_exp_word: "k < 32 \<Longrightarrow> bit (2 ^ k :: mode) n \<longleftrightarrow> n = k"
  by (auto simp: bit_exp_iff)

lemma bit_S [simp]:
  "bit S_IRUSR n \<longleftrightarrow> n = 8" "bit S_IWUSR n \<longleftrightarrow> n = 7" "bit S_IXUSR n \<longleftrightarrow> n = 6"
  "bit S_IRGRP n \<longleftrightarrow> n = 5" "bit S_IWGRP n \<longleftrightarrow> n = 4" "bit S_IXGRP n \<longleftrightarrow> n = 3"
  "bit S_IROTH n \<longleftrightarrow> n = 2" "bit S_IWOTH n \<longleftrightarrow> n = 1" "bit S_IXOTH n \<longleftrightarrow> n = 0"
  unfolding S_exp by (rule bit_exp_word, simp)+

lemma and_S_iff [simp]:
  "(m AND S_IRUSR = 0) = (\<not> bit m 8)" "(m AND S_IWUSR = 0) = (\<not> bit m 7)" "(m AND S_IXUSR = 0) = (\<not> bit m 6)"
  "(m AND S_IRGRP = 0) = (\<not> bit m 5)" "(m AND S_IWGRP = 0) = (\<not> bit m 4)" "(m AND S_IXGRP = 0) = (\<not> bit m 3)"
  "(m AND S_IROTH = 0) = (\<not> bit m 2)" "(m AND S_IWOTH = 0) = (\<not> bit m 1)" "(m AND S_IXOTH = 0) = (\<not> bit m 0)"
  unfolding S_exp by (rule and_exp_eq_0_iff_not_bit)+

lemma less_9: "n < 9 \<longleftrightarrow> n = 0 \<or> n = 1 \<or> n = 2 \<or> n = 3 \<or> n = 4 \<or> n = 5 \<or> n = 6 \<or> n = 7 \<or> n = (8::nat)"
  by linarith

lemma S_rwx: "S_IRWXU = 2 ^ 8 OR 2 ^ 7 OR 2 ^ 6" "S_IRWXG = 2 ^ 5 OR 2 ^ 4 OR 2 ^ 3" "S_IRWXO = 2 ^ 2 OR 2 ^ 1 OR 2 ^ 0"
  by (simp_all add: S_IRWXU_def S_IRWXG_def S_IRWXO_def)

lemma bit_rwx [simp]:
  "bit S_IRWXU n \<longleftrightarrow> n = 8 \<or> n = 7 \<or> n = 6"
  "bit S_IRWXG n \<longleftrightarrow> n = 5 \<or> n = 4 \<or> n = 3"
  "bit S_IRWXO n \<longleftrightarrow> n = 2 \<or> n = 1 \<or> n = 0"
  unfolding S_rwx bit_or_iff by (simp_all only: bit_exp_word)

lemma bit_all9: "bit (S_IRWXU OR S_IRWXG OR S_IRWXO) n \<longleftrightarrow> n < 9"
  by (auto simp: bit_or_iff less_9)

lemma class_kind_simps [simp]:
  "class_of 0 = CHR ''o''" "class_of (Suc 0) = CHR ''o''" "class_of 2 = CHR ''o''"
  "class_of 3 = CHR ''g''" "class_of 4 = CHR ''g''" "class_of 5 = CHR ''g''"
  "class_of 6 = CHR ''u''" "class_of 7 = CHR ''u''" "class_of 8 = CHR ''u''"
  "kind_of 0 = CHR ''x''" "kind_of (Suc 0) = CHR ''w''" "kind_of 2 = CHR ''r''"
  "kind_of 3 = CHR ''x''" "kind_of 4 = CHR ''w''" "kind_of 5 = CHR ''r''"
  "kind_of 6 = CHR ''x''" "kind_of 7 = CHR ''w''" "kind_of 8 = CHR ''r''"
  by (simp_all add: class_of_def kind_of_def)

lemma bit_who_bits:
  assumes "c \<in> {CHR ''u'', CHR ''g'', CHR ''o'', CHR ''a''}"
  shows "bit (who_bits c) n \<longleftrightarrow> n < 9 \<and> (c = CHR ''a'' \<or> class_of n = c)"
  using assms by (auto simp: who_bits_def bit_or_iff bit_all9 less_9)

lemma bit_perm_bits: "bit (perm_bits c) n \<longleftrightarrow> n < 9 \<and> kind_of n = c"
proof -
  have "kind_of n \<in> {CHR ''r'', CHR ''w'', CHR ''x''}" by (simp add: kind_of_def)
  then show ?thesis by (auto simp: perm_bits_def bit_or_iff less_9)
qed

lemma bit_scan_perm: "bit (scan_perm p ps) n \<longleftrightarrow> bit p n \<or> named ps n"
  by (induction ps arbitrary: p) (auto simp: named_def bit_or_iff bit_perm_bits)

lemma scan_who_prefix:
  assumes "set ws \<subseteq> {CHR ''u'', CHR ''g'', CHR ''o'', CHR ''a''}"
    and "c \<notin> {CHR ''u'', CHR ''g'', CHR ''o'', CHR ''a''}"
  shows "snd (scan_who who (ws @ c # r)) = c # r"
    and "bit (fst (scan_who who (ws @ c # r))) n \<longleftrightarrow>
      bit who n \<or> n < 9 \<and> (CHR ''a'' \<in> set ws \<or> class_of n \<in> set ws)"
  using assms
proof (induction ws arbitrary: who)
  case Nil
  case 1
  then show ?case by simp
next
  case Nil
  case 2
  then show ?case by simp
next
  case (Cons d ws)
  case 1
  with Cons(1) show ?case by simp
next
  case (Cons d ws)
  case 2
  then have d: "d \<in> {CHR ''u'', CHR ''g'', CHR ''o'', CHR ''a''}" by simp
  with 2 Cons(2) [of "who OR who_bits d"] bit_who_bits [OF d, of n] show ?case
    by (auto simp: bit_or_iff)
qed

text \<open>The set of bits that is meant, with everyone as the default.\<close>

lemma bit_meant:
  assumes "set ws \<subseteq> {CHR ''u'', CHR ''g'', CHR ''o'', CHR ''a''}"
    and "c \<notin> {CHR ''u'', CHR ''g'', CHR ''o'', CHR ''a''}"
  shows "bit (let who = fst (scan_who 0 (ws @ c # r)) in if who = 0 then S_IRWXU OR S_IRWXG OR S_IRWXO else who) n \<longleftrightarrow> meant ws n"
proof (cases "ws = []")
  case True
  with assms(2) show ?thesis by (simp add: meant_def bit_all9)
next
  case False
  let ?who = "fst (scan_who 0 (ws @ c # r))"
  obtain d ds where ws: "ws = d # ds" using False by (cases ws) auto
  define k :: nat where "k = (if d = CHR ''u'' then 8 else if d = CHR ''g'' then 5 else 2)"
  have "bit ?who k"
    unfolding scan_who_prefix(2) [OF assms] using assms(1) ws by (auto simp: k_def)
  then have "?who \<noteq> 0" by auto
  with False show ?thesis
    by (simp add: meant_def scan_who_prefix(2) [OF assms])
qed

lemma symbolicAccess_bits:
  assumes "set ws \<subseteq> {CHR ''u'', CHR ''g'', CHR ''o'', CHR ''a''}"
    and "op \<in> {CHR ''+'', CHR ''-'', CHR ''=''}"
  shows "snd (symbolicAccess m (ws @ op # ps) w) = w"
    and "bit (fst (symbolicAccess m (ws @ op # ps) w)) n \<longleftrightarrow>
      (if meant ws n then (if op = CHR ''='' then named ps n
          else if op = CHR ''+'' then bit m n \<or> named ps n else bit m n \<and> \<not> named ps n)
       else bit m n)"
proof -
  have op: "op \<notin> {CHR ''u'', CHR ''g'', CHR ''o'', CHR ''a''}" using assms(2) by auto
  obtain who where s: "scan_who 0 (ws @ op # ps) = (who, op # ps)"
    using scan_who_prefix(1) [OF assms(1) op, of 0 ps] by (cases "scan_who 0 (ws @ op # ps)") auto
  let ?who = "if who = 0 then S_IRWXU OR S_IRWXG OR S_IRWXO else who"
  have who: "bit ?who k \<longleftrightarrow> meant ws k" for k
    using bit_meant [OF assms(1) op, of ps k] s by simp
  show "snd (symbolicAccess m (ws @ op # ps) w) = w"
    using assms(2) by (auto simp: symbolicAccess_def s)
  have "n < 32" if "meant ws n" using that by (simp add: meant_def)
  then have "bit (fst (symbolicAccess m (ws @ op # ps) w)) n \<longleftrightarrow>
      (if op = CHR ''='' then bit m n \<and> \<not> bit ?who n \<or> bit (scan_perm 0 ps) n \<and> bit ?who n
       else if op = CHR ''+'' then bit m n \<or> bit (scan_perm 0 ps) n \<and> bit ?who n
       else bit m n \<and> \<not> (bit (scan_perm 0 ps) n \<and> bit ?who n))"
    using assms(2) bit_imp_le_length [of m n]
    by (auto simp: symbolicAccess_def s bit_or_iff bit_and_iff bit_not_iff Let_def)
  then show "bit (fst (symbolicAccess m (ws @ op # ps) w)) n \<longleftrightarrow>
      (if meant ws n then (if op = CHR ''='' then named ps n
          else if op = CHR ''+'' then bit m n \<or> named ps n else bit m n \<and> \<not> named ps n)
       else bit m n)"
    unfolding who bit_scan_perm by auto
qed

subsection \<open>Texts\<close>

lemma set_if_val:
  "0 \<le> i \<Longrightarrow> nat i < length str \<Longrightarrow> set_if b i c str = Inr (str[nat i := if b then c else str ! nat i])"
  by (simp add: set_if_def aset_def nat_less_iff)

lemma toString_text:
  assumes "11 \<le> length buf"
  shows "toString m buf = Inr (mode_text m @ NUL # drop 11 buf)"
proof -
  have n: "[0..<9] = [0, 1, 2, 3, 4, 5, 6, 7, 8 :: nat]" by (simp add: upt_rec)
  have "put_str buf ''----------'' = Inr (''----------'' @ NUL # drop 11 buf)"
    using assms by (simp add: put_str_def eval_nat_numeral)
  then show ?thesis
    using assms
    by (simp add: toString_def set_if_val mode_text_def n)
qed

lemma char_int_range: "- 128 \<le> char_int c \<and> char_int c < 128"
proof -
  have "(of_char c :: int) = of_char c mod 256" by simp
  moreover have "0 \<le> (of_char c mod 256 :: int)" "of_char c mod 256 < (256 :: int)"
    by (rule pos_mod_sign pos_mod_bound; simp)+
  ultimately have "0 \<le> (of_char c :: int)" "of_char c < (256 :: int)" by linarith+
  then show ?thesis by (simp add: char_int_def Let_def)
qed

lemma printf_printf [simp]: "printf t (printf s w) = printf (s @ t) w"
  by (simp add: printf_def)

lemma printf_Nil [simp]: "printf [] w = w"
  by (simp add: printf_def)

lemma fold_printf: "fold (\<lambda>d w. printf (f d) w) ds w = printf (concat (map f ds)) w"
  by (induction ds arbitrary: w) auto

subsection \<open>Octal numbers\<close>

lemma isoct_digit_char [simp]: "d < 8 \<Longrightarrow> isoct (digit_char d)"
  by (simp add: isoct_def)

lemma oct_val_show_oct: "oct_val (show_oct n) = n"
proof (induction n rule: show_oct.induct)
  case (1 n)
  then show ?case
    by (cases "n < 8") (simp_all add: show_oct.simps [of n] oct_val_def)
qed

lemma show_oct_digits: "\<forall>c \<in> set (show_oct n). isoct c"
proof (induction n rule: show_oct.induct)
  case (1 n)
  then show ?case by (cases "n < 8") (auto simp: show_oct.simps [of n])
qed

lemma show_oct_hd: "isdigit (hd (show_oct n @ r))"
proof -
  have "show_oct n \<noteq> []" by (simp add: show_oct.simps [of n])
  then show ?thesis using show_oct_digits [of n] by (cases "show_oct n") (auto simp: isoct_def)
qed

lemma strtol8_show_oct:
  assumes "n < 2 ^ 63"
  shows "strtol8 (show_oct n) = of_nat n"
proof -
  have "takeWhile isoct (show_oct n) = show_oct n"
    using show_oct_digits [of n] by (simp add: takeWhile_eq_all_conv)
  then have "strtol8 (show_oct n) = of_nat (min n (2 ^ 63 - 1))"
    by (simp only: strtol8_def oct_val_show_oct)
  moreover have "min n (2 ^ 63 - 1) = n" using assms by simp
  ultimately show ?thesis by (simp only:)
qed

lemma strtol8_digits: "\<forall>c \<in> set a. isoct c \<Longrightarrow> oct_val a < 2 ^ 63 \<Longrightarrow> strtol8 a = of_nat (oct_val a)"
  by (simp add: strtol8_def takeWhile_eq_all_conv [THEN iffD2])

lemma printBit_text:
  "printBit m w = printf (map (\<lambda>i. if bit m i then CHR ''1'' else CHR ''0'') (rev [0..<9]) @ [NL]) w"
proof -
  have "show_int (uint (drop_bit i m AND 1)) = [if bit m i then CHR ''1'' else CHR ''0'']" for i
    by (simp add: and_one_eq bit_iff_odd_drop_bit odd_iff_mod_2_eq_one) (code_simp)
  then show ?thesis by (simp add: printBit_def fold_printf map_concat)
qed

lemma mode_text_NUL: "NUL \<notin> set (mode_text m)"
  by (auto simp: mode_text_def kind_of_def NUL_def)

text \<open>The call of \<open>chmod\<close> with a text for the mode \<open>n\<close>.\<close>

lemma Chmod_octal:
  assumes "isdigit (hd (a @ [NUL]))" and "strtol8 a = of_nat n" and "n < 4096"
    and "11 \<le> length buf" and "sys_stat K s f = Some old"
  shows "Chmod K (Some a) (Some f) buf s w =
      Inr (case sys_chmod K s f (of_nat n) of None \<Rightarrow> (s, w) | Some s' \<Rightarrow> (s', printf (changed_text f n) w))"
proof -
  have u: "unat (of_nat n :: mode) = n" using assms(3) by (simp add: unat_of_nat take_bit_nat_eq_self)
  have b: "map (\<lambda>i. if bit (of_nat n :: mode) i then CHR ''1'' else CHR ''0'') (rev [0..<9]) =
      map (\<lambda>i. if bit n i then CHR ''1'' else CHR ''0'') (rev [0..<9])"
    by (intro map_cong) (auto simp: bit_of_nat_iff)
  have c: "cstr (mode_text (of_nat n) @ NUL # drop 11 buf) = Inr (mode_text (of_nat n))"
    using mode_text_NUL [of "of_nat n"] by (simp add: cstr_def)
  show ?thesis
    using assms(1,2,5)
    by (simp add: Chmod_def toString_text [OF assms(4)] c u changed_text_def printBit_text b split: option.split)
qed

section \<open>Properties\<close>

text \<open>
  C25: A symbolic mode, any of u, g, o, a (everyone when there is none), an operator and
  permission letters, changes bit by bit exactly what it says: \<open>=\<close> sets the named
  permissions of the classes meant and clears their others, \<open>+\<close> adds them, \<open>-\<close> takes them
  away, and all other bits of the mode, the file type included, stay.
\<close>

theorem chmod_symbolic_bits:
  assumes "set ws \<subseteq> {CHR ''u'', CHR ''g'', CHR ''o'', CHR ''a''}"
    and "op \<in> {CHR ''+'', CHR ''-'', CHR ''=''}"
  shows "bit (fst (symbolicAccess m (ws @ op # ps) w)) n \<longleftrightarrow>
      (if meant ws n then (if op = CHR ''='' then named ps n
          else if op = CHR ''+'' then bit m n \<or> named ps n else bit m n \<and> \<not> named ps n)
       else bit m n)"
  using assms by (rule symbolicAccess_bits(2))

theorem chmod_symbolic_bits_witness:
  "bit (fst (symbolicAccess 0x81A4 (''ug'' @ CHR ''+'' # ''x'') (console []))) 3
    \<and> \<not> bit (fst (symbolicAccess 0x81A4 (''ug'' @ CHR ''+'' # ''x'') (console []))) 0"
proof -
  have ws: "set ''ug'' \<subseteq> {CHR ''u'', CHR ''g'', CHR ''o'', CHR ''a''}"
    and op: "CHR ''+'' \<in> {CHR ''+'', CHR ''-'', CHR ''=''}" by auto
  show ?thesis
    unfolding chmod_symbolic_bits [OF ws op] by (simp add: meant_def named_def)
qed

text \<open>
  The ten letters \<open>toString\<close> puts into its buffer of 11 characters and the ones \<open>ls -l\<close>
  prints before a name are the same: the type, then for each of the nine permission bits,
  highest first, its letter or a dash.
\<close>

theorem chmod_texts_agree:
  assumes "11 \<le> length buf" and "128 \<le> lit" and "sys_readdir K s = Some [d]" and "sys_stat K s d = Some m"
  shows "toString m buf = Inr (mode_text m @ NUL # drop 11 buf)
    \<and> coolCheck lit K s w = printf (mode_text m @ CHR '' '' # d @ [NL]) w"
proof -
  have n: "[0..<9] = [0, 1, 2, 3, 4, 5, 6, 7, 8 :: nat]" by (simp add: upt_rec)
  have "char_int (hd (d @ [NUL])) \<noteq> lit" using char_int_range [of "hd (d @ [NUL])"] assms(2) by linarith
  then have "coolCheck lit K s w = printf (mode_text m @ CHR '' '' # d @ [NL]) w"
    using assms(3,4) by (simp add: coolCheck_def mode_text_def flag_def n)
  with toString_text [OF assms(1), of m] show ?thesis by simp
qed

theorem chmod_texts_agree_witness:
  "toString 0x81A4 (replicate 11 NUL) = Inr (''-rw-r--r--'' @ [NUL])"
proof -
  have "toString 0x81A4 (replicate 11 NUL) = Inr (mode_text 0x81A4 @ NUL # drop 11 (replicate 11 NUL))
    \<and> coolCheck 4096 mem_fs [(''f'', 0x81A4)] (console []) = printf (mode_text 0x81A4 @ CHR '' '' # ''f'' @ [NL]) (console [])"
    by (rule chmod_texts_agree) (simp_all add: mem_fs_def)
  moreover have "mode_text 0x81A4 = ''-rw-r--r--''"
    by (simp add: mode_text_def S_ISDIR_def upt_rec kind_of_def)
  ultimately show ?thesis by simp
qed

text \<open>
  C29: An octal mode below 4096 goes to the operating system unchanged, and only once: if
  the call succeeds, the program prints the mode back in octal without leading zeros, as the
  ten letters of \<open>ls -l\<close> and as its nine permission bits; if it fails, nothing is printed. Giving
  the printed octal text to \<open>chmod\<close> again asks for the same mode.
\<close>

theorem chmod_octal_roundtrip:
  assumes "a \<noteq> []" and "\<forall>c \<in> set a. isoct c" and "oct_val a < 4096" and "11 \<le> length buf" and "sys_stat K s f = Some old"
  shows "Chmod K (Some a) (Some f) buf s w =
      Inr (case sys_chmod K s f (of_nat (oct_val a)) of None \<Rightarrow> (s, w)
        | Some s' \<Rightarrow> (s', printf (changed_text f (oct_val a)) w))
    \<and> Chmod K (Some (show_oct (oct_val a))) (Some f) buf s w = Chmod K (Some a) (Some f) buf s w"
proof -
  have digits: "isdigit (hd (a @ [NUL]))" using assms(1,2) by (cases a) (auto simp: isoct_def)
  have n: "oct_val a < 2 ^ 63" using assms(3) by simp
  show ?thesis
    using Chmod_octal [OF digits strtol8_digits [OF assms(2) n] assms(3,4,5)]
      Chmod_octal [OF show_oct_hd strtol8_show_oct [OF n] assms(3,4,5)] by simp
qed

theorem chmod_octal_roundtrip_witness:
  "Chmod mem_fs (Some ''0755'') (Some ''f'') (replicate 11 NUL) [(''f'', 0x81A4)] (console []) =
      Inr ([(''f'', 0x81ED)], printf (changed_text ''f'' 493) (console []))
    \<and> Chmod mem_fs (Some (show_oct 493)) (Some ''f'') (replicate 11 NUL) [(''f'', 0x81A4)] (console []) =
      Inr ([(''f'', 0x81ED)], printf (changed_text ''f'' 493) (console []))
    \<and> changed_text ''f'' 493 = ''Permissions of '' @ [CHR 0x27] @ ''f'' @ [CHR 0x27] @ '' changed to:'' @ [NL] @ ''Octal: 755'' @ [NL]
      @ ''Symbolic: -rwxr-xr-x'' @ [NL] @ ''Bitwise: 111101101'' @ [NL]"
proof -
  have v: "oct_val ''0755'' = 493" by code_simp
  have c: "changed_text ''f'' 493 = ''Permissions of '' @ [CHR 0x27] @ ''f'' @ [CHR 0x27] @ '' changed to:'' @ [NL] @ ''Octal: 755'' @ [NL]
      @ ''Symbolic: -rwxr-xr-x'' @ [NL] @ ''Bitwise: 111101101'' @ [NL]"
    by code_simp
  have o: "''0755'' \<noteq> []" "\<forall>c \<in> set ''0755''. isoct c" "oct_val ''0755'' < 4096" by (simp, code_simp, code_simp)
  have l: "11 \<le> length (replicate 11 NUL)" by simp
  have st: "sys_stat mem_fs [(''f'', 0x81A4)] ''f'' = Some 0x81A4"
    and ch: "sys_chmod mem_fs [(''f'', 0x81A4)] ''f'' (of_nat 493) = Some [(''f'', 0x81ED)]"
    by (simp_all add: mem_fs_def)
  from chmod_octal_roundtrip [OF o l st, of "console []"] show ?thesis
    unfolding v ch c by simp
qed

text \<open>
  The test that should hide names with a leading dot compares a character with the
  address of a string, and no address is that small: \<open>ls\<close> prints every name.
\<close>

theorem ls_shows_hidden:
  assumes "128 \<le> lit" and "sys_readdir K s = Some names"
  shows "simpleCheck lit K s w = printf (concat (map (\<lambda>d. d @ [NL]) names)) w"
proof -
  have "char_int (hd (d @ [NUL])) \<noteq> lit" for d
    using char_int_range [of "hd (d @ [NUL])"] assms(1) by linarith
  with assms(2) show ?thesis by (simp add: simpleCheck_def fold_printf)
qed

theorem ls_shows_hidden_witness:
  "simpleCheck 4096 mem_fs [(''.profile'', 0x81A4)] (console []) = printf (''.profile'' @ [NL]) (console [])"
  using ls_shows_hidden [of 4096 mem_fs "[(''.profile'', 0x81A4)]" "[''.profile'']" "console []"]
  by (simp add: mem_fs_def)

end
