(* ===== verification/Subnet.thy ===== *)
theory Subnet
  imports C_Stdio
begin

unbundle bit_operations_syntax

text \<open>
  The subnet counter of Module 2, Task 3.2: addresses in dotted decimal become 32-bit words,
  random addresses are drawn, and those in the gateway's subnet are counted. The values
  \<open>rand\<close> returns are an argument, as is the text \<open>%.2f\<close> makes of the percentage. Proved
  here: what the parser makes of four numbers, that an address in range is read back from
  its text, what membership in a subnet means for a mask of leading ones, and what the
  program counts.
\<close>

section \<open>Addresses\<close>

text \<open>The loop over the four octets: \<open>token\<close> is the current token with the rest of the string.\<close>

fun octets :: "nat \<Rightarrow> 32 word \<Rightarrow> (string \<times> string) option \<Rightarrow> 32 word res" where
  "octets 0 v token = Inr v"
| "octets (Suc k) v token =
     (case token of None \<Rightarrow> Inr 0
      | Some (t, rest) \<Rightarrow> bindE (atoi t) (\<lambda>x.
          let octet = word_of_int x :: 8 word
          in octets k (push_bit 8 v OR ucast octet) (strtok rest ''.'')))"

text \<open>\<open>ok\<close> says whether \<open>strdup\<close> got its memory.\<close>

definition IpToUint32 :: "bool \<Rightarrow> string \<Rightarrow> 32 word res" where
  "IpToUint32 ok ip = (if \<not> ok then Inr 0 else octets 4 0 (strtok ip ''.''))"

definition IsInSubnet :: "32 word \<Rightarrow> 32 word \<Rightarrow> 32 word \<Rightarrow> bool" where
  "IsInSubnet ip subnet msk = (ip AND msk = subnet AND msk)"

text \<open>\<open>rnd k\<close> is the \<open>k\<close>-th value of \<open>rand\<close>; the four calls are made from left to right.\<close>

definition GenerateRandomIP :: "(nat \<Rightarrow> nat) \<Rightarrow> nat \<Rightarrow> 32 word" where
  "GenerateRandomIP rnd k =
     push_bit 24 (of_nat (rnd k)) OR push_bit 16 (of_nat (rnd (k + 1)))
     OR push_bit 8 (of_nat (rnd (k + 2))) OR of_nat (rnd (k + 3))"

section \<open>The program\<close>

function count_loop :: "(nat \<Rightarrow> nat) \<Rightarrow> 32 word \<Rightarrow> 32 word \<Rightarrow> int \<Rightarrow> int \<Rightarrow> int \<Rightarrow> int" where
  "count_loop rnd gateway msk n i cnt =
     (if i < n then
        let random_ip = GenerateRandomIP rnd (4 * nat i)
        in count_loop rnd gateway msk n (i + 1)
             (if IsInSubnet random_ip gateway msk then cnt + 1 else cnt)
      else cnt)"
  by pat_completeness auto
termination by (relation "measure (\<lambda>(rnd, g, m, n, i, c). nat (n - i))") auto

definition EXIT_SUCCESS :: int where "EXIT_SUCCESS = 0"
definition EXIT_FAILURE :: int where "EXIT_FAILURE = 1"

definition main_s :: "bool \<Rightarrow> (nat \<Rightarrow> nat) \<Rightarrow> (int \<Rightarrow> int \<Rightarrow> string) \<Rightarrow> string list \<Rightarrow> io \<Rightarrow> (int \<times> io) res" where
  "main_s ok rnd percent argv w =
     (if length argv \<noteq> 4 then
        Inr (EXIT_FAILURE, printf (''Usage: '' @ hd (argv @ [[]]) @ '' <IP_address> <subnet_mask> <number_of_packets>'' @ [NL]) w)
      else bindE (atoi (argv ! 3)) (\<lambda>n.
        if n \<le> 0 then Inr (EXIT_FAILURE, printf (''Number of packets must be positive'' @ [NL]) w)
        else
          bindE (IpToUint32 ok (argv ! 1)) (\<lambda>gateway.
          bindE (IpToUint32 ok (argv ! 2)) (\<lambda>msk.
          if gateway = 0 \<and> argv ! 1 \<noteq> ''0.0.0.0'' then
            Inr (EXIT_FAILURE, printf (''Invalid IP format: '' @ argv ! 1 @ [NL]) w)
          else if msk = 0 \<and> argv ! 2 \<noteq> ''0.0.0.0'' then
            Inr (EXIT_FAILURE, printf (''Invalid subnet mask format: '' @ argv ! 2 @ [NL]) w)
          else
            let own_subnet_count = count_loop rnd gateway msk n 0 0
            in Inr (EXIT_SUCCESS, printf (''Packets in the same subnet: '' @ show_int own_subnet_count @ ''/''
                 @ show_int n @ '' ('' @ percent own_subnet_count n @ ''%)'' @ [NL]) w)))))"

section \<open>Specification\<close>

definition dotted :: "nat \<Rightarrow> nat \<Rightarrow> nat \<Rightarrow> nat \<Rightarrow> string" where
  "dotted a b c d = show_nat a @ ''.'' @ show_nat b @ ''.'' @ show_nat c @ ''.'' @ show_nat d"

definition address :: "nat \<Rightarrow> nat \<Rightarrow> nat \<Rightarrow> nat \<Rightarrow> 32 word" where
  "address a b c d = of_nat (((a * 256 + b) * 256 + c) * 256 + d)"

definition leading_ones :: "nat \<Rightarrow> 32 word" where
  "leading_ones k = NOT (mask (32 - k))"

section \<open>Lemmas\<close>

declare count_loop.simps [simp del]

lemma show_nat_no_dot: "CHR ''.'' \<notin> set (show_nat n)"
  using show_nat_digits [of n] isdigit_not_dot by blast

lemmas strtok_show = strtok_word [OF show_nat_no_dot show_nat_nonempty]

lemma atoi_show_nat: "int n \<le> INT_MAX \<Longrightarrow> atoi (show_nat n) = Inr (int n)"
  using atoi_show_int [of "int n"] by (simp add: show_int_def c_arith)

text \<open>Shifting an octet in is multiplying by 256 and adding.\<close>

lemma push_octet:
  "push_bit 8 (of_nat v :: 32 word) OR ucast (of_nat x :: 8 word) = of_nat (v * 256 + x mod 256)"
proof -
  have "(ucast (of_nat x :: 8 word) :: 32 word) = of_nat (take_bit 8 x)"
    by (simp only: unsigned_of_nat) simp
  also have "\<dots> = take_bit 8 (of_nat x)" by (rule take_bit_of_nat [symmetric])
  finally have u: "(ucast (of_nat x :: 8 word) :: 32 word) = take_bit 8 (of_nat x)" .
  have "push_bit 8 (of_nat v :: 32 word) OR take_bit 8 (of_nat x) = push_bit 8 (of_nat v) + take_bit 8 (of_nat x)"
    by (rule disjunctive_add [symmetric]) (auto simp: bit_push_bit_iff bit_take_bit_iff)
  also have "\<dots> = of_nat (v * 256 + x mod 256)"
    unfolding take_bit_of_nat by (simp add: push_bit_eq_mult take_bit_eq_mod [of 8 x])
  finally show ?thesis using u by simp
qed

lemma octets_step:
  assumes "int a \<le> INT_MAX"
  shows "octets (Suc k) (of_nat v) (Some (show_nat a, r)) = octets k (of_nat (v * 256 + a mod 256)) (strtok r ''.'')"
proof -
  have "(word_of_int (int a) :: 8 word) = of_nat a" by simp
  with push_octet [of v a] show ?thesis by (simp only: octets.simps option.case prod.case atoi_show_nat [OF assms] bindE_simps Let_def)
qed

lemma IpToUint32_dotted:
  assumes "int a \<le> INT_MAX" "int b \<le> INT_MAX" "int c \<le> INT_MAX" "int d \<le> INT_MAX"
  shows "IpToUint32 True (dotted a b c d) = Inr (address (a mod 256) (b mod 256) (c mod 256) (d mod 256))"
proof -
  have 4: "4 = Suc (Suc (Suc (Suc 0)))" by simp
  have z: "(0 :: 32 word) = of_nat 0" by simp
  have "octets 4 0 (strtok (dotted a b c d) ''.'') = octets 4 0 (Some (show_nat a, show_nat b @ ''.'' @ show_nat c @ ''.'' @ show_nat d))"
    by (simp add: dotted_def strtok_show)
  also have "\<dots> = octets 3 (of_nat (0 * 256 + a mod 256)) (strtok (show_nat b @ ''.'' @ show_nat c @ ''.'' @ show_nat d) ''.'')"
    unfolding 4 z octets_step [OF assms(1)] by (simp only: numeral_3_eq_3)
  also have "\<dots> = octets 2 (of_nat ((a mod 256) * 256 + b mod 256)) (strtok (show_nat c @ ''.'' @ show_nat d) ''.'')"
    using octets_step [OF assms(2), of 2 "0 * 256 + a mod 256"] by (simp add: strtok_show numeral_3_eq_3 del: octets.simps of_nat_add of_nat_mult)
  also have "\<dots> = octets 1 (of_nat (((a mod 256) * 256 + b mod 256) * 256 + c mod 256)) (strtok (show_nat d) ''.'')"
    using octets_step [OF assms(3), of 1 "(a mod 256) * 256 + b mod 256"] by (simp add: strtok_show numeral_2_eq_2 del: octets.simps of_nat_add of_nat_mult)
  also have "\<dots> = octets (Suc 0) (of_nat (((a mod 256) * 256 + b mod 256) * 256 + c mod 256)) (Some (show_nat d, []))"
    by (simp only: strtok_show One_nat_def)
  also have "\<dots> = Inr (address (a mod 256) (b mod 256) (c mod 256) (d mod 256))"
    unfolding octets_step [OF assms(4)] by (simp only: octets.simps address_def)
  finally show ?thesis by (simp add: IpToUint32_def)
qed

text \<open>The counter of the loop counts the drawn addresses in the subnet.\<close>

lemma count_loop_count:
  "0 \<le> i \<Longrightarrow> i \<le> n \<Longrightarrow> count_loop rnd g m n i c =
    c + int (length (filter (\<lambda>k. IsInSubnet (GenerateRandomIP rnd (4 * k)) g m) [nat i..<nat n]))"
proof (induction rnd g m n i c rule: count_loop.induct)
  case (1 rnd g m n i c)
  show ?case
  proof (cases "i < n")
    case False
    with 1 have "i = n" by simp
    then show ?thesis by (simp add: count_loop.simps)
  next
    case True
    then have "[nat i..<nat n] = nat i # [nat (i + 1)..<nat n]"
      using 1(2) by (simp add: upt_conv_Cons nat_add_distrib)
    with 1(1) [OF True refl] True 1(2) show ?thesis
      by (simp add: count_loop.simps [of rnd g m n i c] Let_def)
  qed
qed

lemma and_leading_ones: "k \<le> 32 \<Longrightarrow> bit (x AND leading_ones k) n \<longleftrightarrow> bit x n \<and> 32 - k \<le> n"
  using bit_imp_le_length [of x n]
  by (auto simp: leading_ones_def bit_and_iff bit_not_iff bit_mask_iff)

section \<open>Properties\<close>

text \<open>
  C26: Four numbers with dots between them are read as the address with these octets, each
  number taken modulo 256; so an address in range is read back from its text, and an
  address out of range such as 256.1.2.3 is not rejected but read as another one.
\<close>

theorem ip_parse_dotted:
  assumes "int a \<le> INT_MAX" "int b \<le> INT_MAX" "int c \<le> INT_MAX" "int d \<le> INT_MAX"
  shows "IpToUint32 True (dotted a b c d) = Inr (address (a mod 256) (b mod 256) (c mod 256) (d mod 256))"
  using assms by (rule IpToUint32_dotted)

theorem ip_parse_dotted_witness:
  "IpToUint32 True (dotted 192 168 1 10) = Inr (address 192 168 1 10)
    \<and> IpToUint32 True (dotted 256 1 2 3) = Inr (address 0 1 2 3)"
  using ip_parse_dotted [of 192 168 1 10] ip_parse_dotted [of 256 1 2 3] by (simp add: c_arith)

text \<open>
  For a mask of \<open>k\<close> leading ones, an address is in the subnet exactly if its first
  \<open>k\<close> bits are those of the gateway.
\<close>

theorem subnet_leading_bits:
  assumes "k \<le> 32"
  shows "IsInSubnet ip gateway (leading_ones k) \<longleftrightarrow> drop_bit (32 - k) ip = drop_bit (32 - k) gateway"
proof -
  have "IsInSubnet ip gateway (leading_ones k) \<longleftrightarrow> (\<forall>n. 32 - k \<le> n \<longrightarrow> bit ip n = bit gateway n)"
    unfolding IsInSubnet_def bit_eq_iff and_leading_ones [OF assms]
    using bit_imp_le_length [of ip] bit_imp_le_length [of gateway] by auto
  also have "\<dots> \<longleftrightarrow> (\<forall>n. bit ip (32 - k + n) = bit gateway (32 - k + n))"
    by (metis le_Suc_ex le_add1)
  also have "\<dots> \<longleftrightarrow> drop_bit (32 - k) ip = drop_bit (32 - k) gateway"
  proof -
    have "drop_bit (32 - k) ip = drop_bit (32 - k) gateway \<longleftrightarrow>
        (\<forall>n. bit (drop_bit (32 - k) ip) n = bit (drop_bit (32 - k) gateway) n)"
      by (auto intro: bit_eqI)
    then show ?thesis by (simp only: bit_drop_bit_eq o_def)
  qed
  finally show ?thesis .
qed

theorem subnet_leading_bits_witness:
  "IsInSubnet (address 192 168 1 77) (address 192 168 1 1) (leading_ones 24)"
  using subnet_leading_bits [of 24 "address 192 168 1 77" "address 192 168 1 1"]
  by (simp add: address_def drop_bit_eq_div)

text \<open>
  With arguments in the right format the program draws as many addresses as asked
  for, reports exactly how many of them are in the gateway's subnet, at most all, and
  succeeds.
\<close>

theorem subnet_main_counts:
  assumes "0 < n" and "int n \<le> INT_MAX"
    and "a < 256" "b < 256" "c < 256" "d < 256" and "k < 256" "l < 256" "m < 256" "r < 256"
    and "address a b c d \<noteq> 0" and "address k l m r \<noteq> 0"
    and "cnt = length (filter (\<lambda>i. IsInSubnet (GenerateRandomIP rnd (4 * i)) (address a b c d) (address k l m r)) [0..<n])"
  shows "main_s True rnd percent [prog, dotted a b c d, dotted k l m r, show_nat n] w =
      Inr (EXIT_SUCCESS, printf (''Packets in the same subnet: '' @ show_int (int cnt) @ ''/'' @ show_int (int n)
        @ '' ('' @ percent (int cnt) (int n) @ ''%)'' @ [NL]) w) \<and> cnt \<le> n"
proof -
  have "IpToUint32 True (dotted a b c d) = Inr (address a b c d)"
    "IpToUint32 True (dotted k l m r) = Inr (address k l m r)"
    using IpToUint32_dotted [of a b c d] IpToUint32_dotted [of k l m r] assms(3-10) by (simp_all add: c_arith)
  moreover have "cnt \<le> n" unfolding assms(13) by (rule order_trans [OF length_filter_le]) simp
  ultimately show ?thesis
    using assms(1,2,11,12,13) atoi_show_nat [of n]
    by (simp add: main_s_def count_loop_count Let_def)
qed

theorem subnet_main_counts_witness:
  "main_s True (\<lambda>_. 0) (\<lambda>_ _. ''0.00'') [''prog'', dotted 10 0 0 1, dotted 255 0 0 0, show_nat 2] (console []) =
      Inr (EXIT_SUCCESS, printf (''Packets in the same subnet: '' @ show_int 0 @ ''/'' @ show_int 2
        @ '' ('' @ ''0.00'' @ ''%)'' @ [NL]) (console []))"
proof -
  have "(0 :: nat) = length (filter (\<lambda>i. IsInSubnet (GenerateRandomIP (\<lambda>_. 0) (4 * i)) (address 10 0 0 1) (address 255 0 0 0)) [0..<2])"
    by (simp add: IsInSubnet_def GenerateRandomIP_def address_def)
  from subnet_main_counts [of 2 10 0 0 1 255 0 0 0, OF _ _ _ _ _ _ _ _ _ _ _ _ this] show ?thesis
    by (simp add: c_arith address_def)
qed

end
