(* ===== verification/C_Float.thy ===== *)
theory C_Float
  imports C_Stdio
begin

text \<open>
  Floating-point numbers as the calculators use them. The type \<open>double\<close> itself is a
  parameter: a record of its operations, of the conversion \<open>%lf\<close> and of the format
  \<open>%.2lf\<close>. Nothing is assumed about them; integers serve as an example.
\<close>

record 'd fp =
  fadd :: "'d \<Rightarrow> 'd \<Rightarrow> 'd"
  fsub :: "'d \<Rightarrow> 'd \<Rightarrow> 'd"
  fmul :: "'d \<Rightarrow> 'd \<Rightarrow> 'd"
  fdiv :: "'d \<Rightarrow> 'd \<Rightarrow> 'd"
  fzero :: 'd
  ftwo :: 'd
  is_zero :: "'d \<Rightarrow> bool"                      \<comment> \<open>the test \<open>== 0\<close>\<close>
  scan_lf :: "string \<Rightarrow> 'd option \<times> string"    \<comment> \<open>\<open>%lf\<close>: the number, if there is one, and the unread rest\<close>
  show_lf :: "'d \<Rightarrow> string"                     \<comment> \<open>\<open>%.2lf\<close>\<close>

definition scanf_lf :: "'d fp \<Rightarrow> 'd \<Rightarrow> io \<Rightarrow> 'd \<times> io" where
  "scanf_lf fp x w =
     (case scan_lf fp (stdin w) of (None, r) \<Rightarrow> (x, w\<lparr>stdin := r\<rparr>) | (Some v, r) \<Rightarrow> (v, w\<lparr>stdin := r\<rparr>))"

definition int_fp :: "int fp" where
  "int_fp = \<lparr>fadd = (+), fsub = (-), fmul = (*), fdiv = (div), fzero = 0, ftwo = 2, is_zero = (\<lambda>x. x = 0),
     scan_lf = scan_int, show_lf = (\<lambda>x. show_int x @ ''.00'')\<rparr>"

end
