(* ===== verification/Calculators.thy ===== *)
theory Calculators
  imports C_Float
begin

text \<open>
  The calculators of Module 2: Task 2.2 (functions with a variable number of arguments),
  Task 2.3 (the same functions in a table) and Task 6.3 (one shared library for each
  operation, all with a function \<open>calc\<close>). A call with a variable number of arguments gets
  the list of the arguments that were really passed; reading more of them has no defined
  behaviour. An array \<open>double numbers[count]\<close> has \<open>count\<close> elements, which must be at least
  one; \<open>junk i\<close> is what its element \<open>i\<close> holds before it is read.

  Proved here: what the operations compute, that the program of Task 2.2 never calculates
  anything, that those of Tasks 2.3 and 6.3 have a defined result for exactly one number
  of operands, and that the addition of Task 6.3 counts every number twice.
\<close>

section \<open>Operations with a variable number of arguments\<close>

text \<open>\<open>n\<close> rounds of \<open>result = f(result, va_arg(factor, double))\<close>.\<close>

fun va_fold :: "('d \<Rightarrow> 'd \<Rightarrow> 'd) \<Rightarrow> nat \<Rightarrow> 'd \<Rightarrow> 'd list \<Rightarrow> 'd res" where
  "va_fold f 0 result args = Inr result"
| "va_fold f (Suc n) result [] = Inl OutOfBounds"
| "va_fold f (Suc n) result (x # args) = va_fold f n (f result x) args"

text \<open>The first argument is read before the loop, which starts at 1.\<close>

definition va_fold1 :: "('d \<Rightarrow> 'd \<Rightarrow> 'd) \<Rightarrow> int \<Rightarrow> 'd list \<Rightarrow> 'd res" where
  "va_fold1 f n args = (case args of [] \<Rightarrow> Inl OutOfBounds | x # args \<Rightarrow> va_fold f (nat (n - 1)) x args)"

type_synonym 'd va_fun = "int \<Rightarrow> 'd list \<Rightarrow> 'd res"

definition addition_v :: "'d fp \<Rightarrow> 'd va_fun" where
  "addition_v fp n args = va_fold (fadd fp) (nat n) (fzero fp) args"

definition substraction_v :: "'d fp \<Rightarrow> 'd va_fun" where
  "substraction_v fp n args = va_fold1 (fsub fp) n args"

definition multiplicate_v :: "'d fp \<Rightarrow> 'd va_fun" where
  "multiplicate_v fp n args = va_fold1 (fmul fp) n args"

definition division_v :: "'d fp \<Rightarrow> 'd va_fun" where
  "division_v fp n args = va_fold1 (fdiv fp) n args"

text \<open>The arguments \<open>numbers[0]\<close> to \<open>numbers[k - 1]\<close> of a call.\<close>

definition call_args :: "nat \<Rightarrow> 'd list \<Rightarrow> 'd list res" where
  "call_args k numbers = (if k \<le> length numbers then Inr (take k numbers) else Inl OutOfBounds)"

section \<open>Input\<close>

definition calc_menu :: string where
  "calc_menu = [NL] @ ''-----Calculator Menu-----'' @ [NL] @ ''1. +'' @ [NL] @ ''2. -'' @ [NL] @ ''3. *'' @ [NL]
     @ ''4. /'' @ [NL] @ ''5. Exit'' @ [NL] @ ''Choose option.'' @ [NL]"

fun read_numbers :: "'d fp \<Rightarrow> 'd list \<Rightarrow> io \<Rightarrow> 'd list \<times> io" where
  "read_numbers fp [] w = ([], w)"
| "read_numbers fp (x # xs) w =
     (let (v, w) = scanf_lf fp x (printf ''Enter number: '' w);
          (vs, w) = read_numbers fp xs w
      in (v # vs, w))"

text \<open>The question for the count and the numbers.\<close>

definition ask_numbers :: "'d fp \<Rightarrow> (nat \<Rightarrow> 'd) \<Rightarrow> int \<Rightarrow> io \<Rightarrow> (int \<times> 'd list \<times> io) res" where
  "ask_numbers fp junk cnt w =
     bindE (scanf_d cnt (printf ''How many numbers you want to use: '' w)) (\<lambda>(cnt, w).
     if cnt \<le> 0 then Inl OutOfBounds
     else let (ns, w) = read_numbers fp (map junk [0..<nat cnt]) w in Inr (cnt, ns, w))"

section \<open>Task 2.2\<close>

definition switch_22 :: "'d fp \<Rightarrow> int \<Rightarrow> int \<Rightarrow> 'd list \<Rightarrow> io \<Rightarrow> io res" where
  "switch_22 fp choice cnt numbers w =
     (let run = (\<lambda>f. bindE (call_args 10 numbers) (\<lambda>args. bindE (f cnt args) (\<lambda>r. Inr (printf (show_lf fp r) w))))
      in if choice = 1 then run (addition_v fp) else if choice = 2 then run (substraction_v fp)
         else if choice = 3 then run (multiplicate_v fp) else if choice = 4 then run (division_v fp) else Inr w)"

text \<open>The condition \<open>choice = 5\<close> is an assignment; its value is 5.\<close>

definition body_22 :: "'d fp \<Rightarrow> (nat \<Rightarrow> 'd) \<Rightarrow> int \<times> int \<times> io \<Rightarrow> ((int \<times> int \<times> io) \<times> bool) res" where
  "body_22 fp junk = (\<lambda>(choice, cnt, w).
     bindE (scanf_d choice (printf calc_menu w)) (\<lambda>(choice, w).
     let choice = 5 in
     if choice \<noteq> 0 then Inr ((choice, cnt, w), False)
     else bindE (ask_numbers fp junk cnt w) (\<lambda>(cnt, ns, w).
       bindE (switch_22 fp choice cnt ns w) (\<lambda>w. Inr ((choice, cnt, w), choice \<noteq> 5)))))"

definition main_22 :: "nat \<Rightarrow> 'd fp \<Rightarrow> (nat \<Rightarrow> 'd) \<Rightarrow> int \<Rightarrow> int \<Rightarrow> io \<Rightarrow> (int \<times> int \<times> io) res" where
  "main_22 fuel fp junk choice cnt w = do_while fuel (body_22 fp junk) (choice, cnt, w)"

section \<open>Task 2.3\<close>

definition operations_23 :: "'d fp \<Rightarrow> int \<Rightarrow> int \<Rightarrow> 'd list \<Rightarrow> 'd res" where
  "operations_23 fp choice cnt numbers =
     bindE (aget [addition_v fp, substraction_v fp, multiplicate_v fp, division_v fp] (choice - 1)) (\<lambda>f.
     bindE (call_args 10 numbers) (\<lambda>args. f cnt args))"

definition body_23 :: "'d fp \<Rightarrow> (nat \<Rightarrow> 'd) \<Rightarrow> int \<times> int \<times> io \<Rightarrow> ((int \<times> int \<times> io) \<times> bool) res" where
  "body_23 fp junk = (\<lambda>(choice, cnt, w).
     bindE (scanf_d choice (printf calc_menu w)) (\<lambda>(choice, w).
     if choice = 5 then Inr ((choice, cnt, w), False)
     else bindE (ask_numbers fp junk cnt w) (\<lambda>(cnt, ns, w).
       bindE (operations_23 fp choice cnt ns) (\<lambda>r.
       Inr ((choice, cnt, printf (''Result: '' @ show_lf fp r) w), choice \<noteq> 5)))))"

definition main_23 :: "nat \<Rightarrow> 'd fp \<Rightarrow> (nat \<Rightarrow> 'd) \<Rightarrow> int \<Rightarrow> int \<Rightarrow> io \<Rightarrow> (int \<times> int \<times> io) res" where
  "main_23 fuel fp junk choice cnt w = do_while fuel (body_23 fp junk) (choice, cnt, w)"

section \<open>Task 6.3\<close>

text \<open>The four libraries, one function \<open>calc\<close> each.\<close>

definition addition_63 :: "'d fp \<Rightarrow> 'd va_fun" where
  "addition_63 fp n args = va_fold (\<lambda>r x. fadd fp r (fmul fp (ftwo fp) x)) (nat n) (fzero fp) args"

definition substraction_63 :: "'d fp \<Rightarrow> 'd va_fun" where
  "substraction_63 fp n args = va_fold1 (fsub fp) n args"

definition multiplicate_63 :: "'d fp \<Rightarrow> 'd va_fun" where
  "multiplicate_63 fp n args = va_fold1 (fmul fp) n args"

definition division_63 :: "'d fp \<Rightarrow> 'd va_fun" where
  "division_63 fp n args = va_fold1 (fdiv fp) n args"

text \<open>
  The field \<open>path\<close> of the table has 20 characters; a longer initialiser is cut, and one of
  exactly 20 characters leaves no room for the NUL.
\<close>

definition path_of :: "string \<Rightarrow> cbuf" where
  "path_of s = take 20 (s @ replicate 20 NUL)"

definition Oper_63 :: "cbuf list" where
  "Oper_63 = map path_of [''./libaddition.so'', ''./libsubstraction.so'', ''./libmultiplicate.so'', ''./libdivision.so'']"

text \<open>\<open>dl p\<close> says whether the library at the path \<open>p\<close> can be opened and has the function.\<close>

definition load_63 :: "(string \<Rightarrow> bool) \<Rightarrow> int \<Rightarrow> bool res" where
  "load_63 dl choice =
     (if 1 \<le> choice \<and> choice \<le> 4 then bindE (aget Oper_63 (choice - 1)) (\<lambda>b. bindE (cstr b) (\<lambda>p. Inr (dl p)))
      else Inr True)"

definition calc_63 :: "'d fp \<Rightarrow> int \<Rightarrow> int \<Rightarrow> 'd list \<Rightarrow> 'd res" where
  "calc_63 fp choice cnt numbers =
     bindE (aget [addition_63 fp, substraction_63 fp, multiplicate_63 fp, division_63 fp] (choice - 1)) (\<lambda>f.
     bindE (call_args 7 numbers) (\<lambda>args. f cnt args))"

text \<open>The status 1 of the early returns is \<open>Some 1\<close> in the state.\<close>

definition body_63 :: "(string \<Rightarrow> bool) \<Rightarrow> 'd fp \<Rightarrow> (nat \<Rightarrow> 'd) \<Rightarrow> int \<times> int \<times> io \<times> int option
    \<Rightarrow> ((int \<times> int \<times> io \<times> int option) \<times> bool) res" where
  "body_63 dl fp junk = (\<lambda>(choice, cnt, w, status).
     bindE (scanf_d choice (printf calc_menu w)) (\<lambda>(choice, w).
     if choice = 5 then Inr ((choice, cnt, w, Some 0), False)
     else bindE (load_63 dl choice) (\<lambda>loaded.
       if \<not> loaded then Inr ((choice, cnt, w, Some 1), False)
       else bindE (ask_numbers fp junk cnt w) (\<lambda>(cnt, ns, w).
         bindE (calc_63 fp choice cnt ns) (\<lambda>r.
         Inr ((choice, cnt, printf (''Result: '' @ show_lf fp r @ [NL]) w, status), choice \<noteq> 5))))))"

definition main_63 :: "nat \<Rightarrow> (string \<Rightarrow> bool) \<Rightarrow> 'd fp \<Rightarrow> (nat \<Rightarrow> 'd) \<Rightarrow> int \<Rightarrow> int \<Rightarrow> io
    \<Rightarrow> (int \<times> int \<times> io \<times> int option) res" where
  "main_63 fuel dl fp junk choice cnt w = do_while fuel (body_63 dl fp junk) (choice, cnt, w, None)"

text \<open>The result of each operation on a list of numbers.\<close>

definition op_result :: "'d fp \<Rightarrow> int \<Rightarrow> 'd list \<Rightarrow> 'd" where
  "op_result fp choice xs =
     (if choice = 1 then foldl (fadd fp) (fzero fp) xs else if choice = 2 then foldl (fsub fp) (hd xs) (tl xs)
      else if choice = 3 then foldl (fmul fp) (hd xs) (tl xs) else foldl (fdiv fp) (hd xs) (tl xs))"

section \<open>Lemmas\<close>

text \<open>With enough arguments the loop is a fold over the first of them.\<close>

lemma va_fold_foldl: "va_fold f n r args = (if n \<le> length args then Inr (foldl f r (take n args)) else Inl OutOfBounds)"
  by (induction f n r args rule: va_fold.induct) auto

lemma va_fold1_foldl:
  "1 \<le> n \<Longrightarrow> va_fold1 f n args =
    (if nat n \<le> length args then Inr (foldl f (hd args) (tl (take (nat n) args))) else Inl OutOfBounds)"
  by (cases args; cases "nat n") (auto simp: va_fold1_def va_fold_foldl nat_diff_distrib)

text \<open>A call that passes \<open>k\<close> numbers of an array of \<open>n\<close>: only \<open>n = k\<close> has a result.\<close>

lemma va_call:
  assumes "length xs = nat n" and "1 \<le> n"
  shows "bindE (call_args k xs) (va_fold f (nat n) r) = (if n = int k then Inr (foldl f r xs) else Inl OutOfBounds)"
    and "bindE (call_args k xs) (va_fold1 f n) = (if n = int k then Inr (foldl f (hd xs) (tl xs)) else Inl OutOfBounds)"
proof -
  have c: "call_args k xs = (if int k \<le> n then Inr (take k xs) else Inl OutOfBounds)"
    using assms by (auto simp: call_args_def)
  show "bindE (call_args k xs) (va_fold f (nat n) r) = (if n = int k then Inr (foldl f r xs) else Inl OutOfBounds)"
    unfolding c using assms by (auto simp: va_fold_foldl)
  show "bindE (call_args k xs) (va_fold1 f n) = (if n = int k then Inr (foldl f (hd xs) (tl xs)) else Inl OutOfBounds)"
    unfolding c using assms by (auto simp: va_fold1_foldl)
qed

lemma choice_cases: "1 \<le> c \<Longrightarrow> c \<le> 4 \<Longrightarrow> c = 1 \<or> c = 2 \<or> c = 3 \<or> c = (4 :: int)"
  by auto

text \<open>Which of the paths end within their field.\<close>

lemma Oper_63_paths:
  "map cstr Oper_63 = [Inr ''./libaddition.so'', Inl OutOfBounds, Inl OutOfBounds, Inr ''./libdivision.so'']"
  by code_simp

lemma length_Oper_63: "length Oper_63 = 4"
  by (simp add: Oper_63_def)

lemma load_63_cases:
  "load_63 dl choice = (if choice = 1 then Inr (dl ''./libaddition.so'') else if choice = 4 then Inr (dl ''./libdivision.so'')
     else if choice = 2 \<or> choice = 3 then Inl OutOfBounds else Inr True)"
proof (cases "1 \<le> choice \<and> choice \<le> 4")
  case True
  then consider "choice = 1" | "choice = 2" | "choice = 3" | "choice = 4" using choice_cases by blast
  moreover have "map cstr Oper_63 ! nat (choice - 1) = cstr (Oper_63 ! nat (choice - 1))"
    using True by (intro nth_map) (auto simp: length_Oper_63)
  then have "load_63 dl choice = bindE (map cstr Oper_63 ! nat (choice - 1)) (\<lambda>p. Inr (dl p))"
    using True by (simp add: load_63_def aget_def length_Oper_63)
  ultimately show ?thesis by cases (simp_all add: Oper_63_paths eval_nat_numeral)
qed (auto simp: load_63_def)

section \<open>Properties\<close>

text \<open>
  The operation chosen in Task 2.3 is applied to all numbers, from the left, if there are
  exactly ten of them; with fewer the call reads behind the array, with more the operation
  reads behind its arguments, and a choice that is not in the table reads behind the table.
\<close>

theorem calc_23_needs_ten:
  assumes "length xs = nat n" and "1 \<le> n"
  shows "operations_23 fp choice n xs =
    (if 1 \<le> choice \<and> choice \<le> 4 \<and> n = 10 then Inr (op_result fp choice xs) else Inl OutOfBounds)"
proof (cases "1 \<le> choice \<and> choice \<le> 4")
  case True
  then consider "choice = 1" | "choice = 2" | "choice = 3" | "choice = 4" using choice_cases by blast
  then show ?thesis
    by cases (simp_all add: operations_23_def aget_def addition_v_def [abs_def] substraction_v_def [abs_def]
        multiplicate_v_def [abs_def] division_v_def [abs_def] va_call [OF assms] op_result_def)
next
  case False
  then show ?thesis by (auto simp: operations_23_def aget_def)
qed

theorem calc_23_needs_ten_witness:
  "operations_23 int_fp 2 10 [50, 1, 2, 3, 4, 5, 6, 7, 8, 9] =
    (if 1 \<le> (2 :: int) \<and> (2 :: int) \<le> 4 \<and> (10 :: int) = 10
     then Inr (op_result int_fp 2 [50, 1, 2, 3, 4, 5, 6, 7, 8, 9]) else Inl OutOfBounds)"
  by (rule calc_23_needs_ten) simp_all

text \<open>
  The program of Task 2.2 leaves after the first choice, whatever it is, and prints nothing
  but its menu.
\<close>

theorem calc_22_never_calculates:
  assumes "scanf_d choice (printf calc_menu w) = Inr (x, w')"
  shows "main_22 (Suc fuel) fp junk choice cnt w = Inr (5, cnt, w') \<and> stdout w' = stdout w @ calc_menu"
  using assms by (auto simp: main_22_def body_22_def scanf_d_def printf_def split: prod.splits option.splits)

theorem calc_22_never_calculates_witness:
  "main_22 (Suc 0) int_fp (\<lambda>_. 0) 0 0 (console ''1 2 3 4'') =
      Inr (5, 0, printf calc_menu (console ''1 2 3 4'')\<lparr>stdin := '' 2 3 4''\<rparr>)
    \<and> stdout (printf calc_menu (console ''1 2 3 4'')\<lparr>stdin := '' 2 3 4''\<rparr>) = stdout (console ''1 2 3 4'') @ calc_menu"
proof (rule calc_22_never_calculates)
  show "scanf_d 0 (printf calc_menu (console ''1 2 3 4'')) = Inr (1, printf calc_menu (console ''1 2 3 4'')\<lparr>stdin := '' 2 3 4''\<rparr>)"
    by code_simp
qed

text \<open>
  The program of Task 6.3 has a defined result for exactly seven numbers, and its addition
  adds the double of every number.
\<close>

theorem calc_63_needs_seven:
  assumes "length xs = nat n" and "1 \<le> n"
  shows "calc_63 fp choice n xs =
    (if 1 \<le> choice \<and> choice \<le> 4 \<and> n = 7
     then Inr (if choice = 1 then foldl (\<lambda>r x. fadd fp r (fmul fp (ftwo fp) x)) (fzero fp) xs else op_result fp choice xs)
     else Inl OutOfBounds)"
proof (cases "1 \<le> choice \<and> choice \<le> 4")
  case True
  then consider "choice = 1" | "choice = 2" | "choice = 3" | "choice = 4" using choice_cases by blast
  then show ?thesis
    by cases (simp_all add: calc_63_def aget_def addition_63_def [abs_def] substraction_63_def [abs_def]
        multiplicate_63_def [abs_def] division_63_def [abs_def] va_call [OF assms] op_result_def)
next
  case False
  then show ?thesis by (auto simp: calc_63_def aget_def)
qed

theorem calc_63_needs_seven_witness:
  "calc_63 int_fp 1 7 [1, 2, 3, 4, 5, 6, 7] =
    (if 1 \<le> (1 :: int) \<and> (1 :: int) \<le> 4 \<and> (7 :: int) = 7
     then Inr (if (1 :: int) = 1 then foldl (\<lambda>r x. fadd int_fp r (fmul int_fp (ftwo int_fp) x)) (fzero int_fp) [1, 2, 3, 4, 5, 6, 7]
       else op_result int_fp 1 [1, 2, 3, 4, 5, 6, 7])
     else Inl OutOfBounds)"
  by (rule calc_63_needs_seven) simp_all

text \<open>
  In the program of Task 6.3 subtraction and multiplication cannot be chosen: the paths of
  their libraries fill the field of the table completely, so that \<open>dlopen\<close> reads behind it.
  Addition and division end the program with status 1 if their library is missing.
\<close>

theorem calc_63_path_unterminated:
  assumes "scanf_d choice (printf calc_menu w) = Inr (x, w')" and "1 \<le> x" and "x \<le> 4"
  shows "(x = 2 \<or> x = 3 \<longrightarrow> main_63 (Suc fuel) dl fp junk choice cnt w = Inl OutOfBounds)
    \<and> (x = 1 \<and> \<not> dl ''./libaddition.so'' \<or> x = 4 \<and> \<not> dl ''./libdivision.so'' \<longrightarrow>
        main_63 (Suc fuel) dl fp junk choice cnt w = Inr (x, cnt, w', Some 1))"
proof -
  have "body_63 dl fp junk (choice, cnt, w, None) = Inl OutOfBounds" if "x = 2 \<or> x = 3"
    using assms that by (auto simp: body_63_def load_63_cases)
  moreover have "body_63 dl fp junk (choice, cnt, w, None) = Inr ((x, cnt, w', Some 1), False)"
    if "x = 1 \<and> \<not> dl ''./libaddition.so'' \<or> x = 4 \<and> \<not> dl ''./libdivision.so''"
    using assms that by (elim disjE) (simp_all add: body_63_def load_63_cases)
  ultimately show ?thesis by (simp add: main_63_def)
qed

theorem calc_63_path_unterminated_witness:
  "((3 :: int) = 2 \<or> (3 :: int) = 3 \<longrightarrow> main_63 (Suc 0) (\<lambda>_. True) int_fp (\<lambda>_. 0) 0 0 (console ''3'') = Inl OutOfBounds)
    \<and> ((3 :: int) = 1 \<and> \<not> True \<or> (3 :: int) = 4 \<and> \<not> True \<longrightarrow>
        main_63 (Suc 0) (\<lambda>_. True) int_fp (\<lambda>_. 0) 0 0 (console ''3'')
          = Inr (3, 0, printf calc_menu (console ''3'')\<lparr>stdin := []\<rparr>, Some 1))"
proof (rule calc_63_path_unterminated [where dl = "\<lambda>_. True"])
  show "scanf_d 0 (printf calc_menu (console ''3'')) = Inr (3, printf calc_menu (console ''3'')\<lparr>stdin := []\<rparr>)"
    by code_simp
qed simp_all

end
