(* ===== verification/Raw_Udp.thy ===== *)
theory Raw_Udp
  imports C_Stdio
begin

unbundle bit_operations_syntax

text \<open>
  The echo service over raw sockets of Additional Tasks, Task 1 (\<open>client.c\<close>, \<open>server.c\<close>):
  IP and UDP headers built by hand in a buffer of 1024 bytes, the Internet checksum, the
  server's table of clients and its handling of one datagram, the client's messages; the
  programs as a whole are in \<open>Raw_Echo\<close>. Memory
  is a list of bytes on a little-endian machine; sockets are the datagrams that arrive and
  the datagrams that are sent. Proved here: the header checksum verifies, where the UDP
  checksum reads outside its buffer, the table is a finite map from addresses to counters,
  the server understands what the client sends, and where a long message overruns the
  packet.
\<close>

section \<open>Memory\<close>

type_synonym byte = "8 word"

definition le16 :: "16 word \<Rightarrow> byte list" where
  "le16 x = [ucast x, ucast (drop_bit 8 x)]"

definition le32 :: "32 word \<Rightarrow> byte list" where
  "le32 x = [ucast x, ucast (drop_bit 8 x), ucast (drop_bit 16 x), ucast (drop_bit 24 x)]"

definition join16 :: "byte \<Rightarrow> byte \<Rightarrow> 16 word" where
  "join16 lo hi = ucast lo OR push_bit 8 (ucast hi)"

definition load16 :: "byte list \<Rightarrow> nat \<Rightarrow> 16 word res" where
  "load16 b i = (if Suc i < length b then Inr (join16 (b ! i) (b ! Suc i)) else Inl OutOfBounds)"

definition load32 :: "byte list \<Rightarrow> nat \<Rightarrow> 32 word res" where
  "load32 b i =
     bindE (load16 b i) (\<lambda>lo. bindE (load16 b (i + 2)) (\<lambda>hi.
     Inr (ucast lo OR push_bit 16 (ucast hi))))"

definition poke :: "byte list \<Rightarrow> nat \<Rightarrow> byte list \<Rightarrow> byte list res" where
  "poke b i v = (if i + length v \<le> length b then Inr (take i b @ v @ drop (i + length v) b) else Inl OutOfBounds)"

definition htons :: "16 word \<Rightarrow> 16 word" where
  "htons x = push_bit 8 x OR drop_bit 8 x"

definition ntohs :: "16 word \<Rightarrow> 16 word" where
  "ntohs x = push_bit 8 x OR drop_bit 8 x"

definition bytes_of :: "string \<Rightarrow> byte list" where
  "bytes_of s = map of_char s"

definition chars_of :: "byte list \<Rightarrow> string" where
  "chars_of b = map (\<lambda>x. char_of (unat x)) b"

section \<open>Checksums\<close>

text \<open>\<open>buf\<close> is the memory from the pointer to the end of the object it points into.\<close>

fun csum_loop :: "byte list \<Rightarrow> nat \<Rightarrow> 64 word \<Rightarrow> 64 word res" where
  "csum_loop buf 0 s = Inr s"
| "csum_loop (lo # hi # buf) (Suc n) s =
     (let s = s + ucast (join16 lo hi);
          s = drop_bit 16 s + (s AND 0xFFFF)
      in csum_loop buf n s)"
| "csum_loop _ (Suc n) s = Inl OutOfBounds"

definition csum :: "byte list \<Rightarrow> nat \<Rightarrow> 16 word res" where
  "csum buf nwords = bindE (csum_loop buf nwords 0) (\<lambda>s. Inr (ucast (NOT s)))"

text \<open>
  \<open>ok\<close> says whether \<open>malloc\<close> got its memory; \<open>udph\<close> are the eight bytes of the UDP header and
  \<open>len\<close> its length field as stored.
\<close>

definition udp_checksum :: "bool \<Rightarrow> 32 word \<Rightarrow> 32 word \<Rightarrow> 16 word \<Rightarrow> byte list \<Rightarrow> byte list \<Rightarrow> 16 word res" where
  "udp_checksum ok saddr daddr len udph data =
     (let ph = le32 saddr @ le32 daddr @ [0, 17] @ le16 len;
          total_len = length ph + length udph + length data
      in if \<not> ok then Inr 0
         else csum (ph @ udph @ data) ((total_len + 1) div 2))"

section \<open>Packets\<close>

definition BUFFER_SIZE :: nat where "BUFFER_SIZE = 1024"

definition ip_header :: "16 word \<Rightarrow> 16 word \<Rightarrow> 16 word \<Rightarrow> 32 word \<Rightarrow> 32 word \<Rightarrow> byte list" where
  "ip_header tot_len ident check saddr daddr =
     [0x45, 0] @ le16 tot_len @ le16 ident @ [0, 0] @ [64, 17] @ le16 check @ le32 saddr @ le32 daddr"

definition udp_header :: "16 word \<Rightarrow> 16 word \<Rightarrow> 16 word \<Rightarrow> 16 word \<Rightarrow> byte list" where
  "udp_header source dest len check = le16 source @ le16 dest @ le16 len @ le16 check"

text \<open>
  The packet for a message: the ports and \<open>ident\<close> are in network order already. The result is
  what \<open>sendto\<close> is given: as many bytes of the buffer as the header says.
\<close>

definition make_packet :: "bool \<Rightarrow> 16 word \<Rightarrow> 32 word \<Rightarrow> 32 word \<Rightarrow> 16 word \<Rightarrow> 16 word \<Rightarrow> string \<Rightarrow> byte list res" where
  "make_packet ok ident saddr daddr source dest msg =
     (let n = length msg + 1;
          tot_len = htons (of_nat (28 + n));
          len = htons (of_nat (8 + n));
          data = bytes_of msg @ [0]
      in bindE (poke (replicate BUFFER_SIZE 0) 0 (ip_header tot_len ident 0 saddr daddr)) (\<lambda>packet.
         bindE (csum packet 10) (\<lambda>check.
         bindE (poke packet 0 (ip_header tot_len ident check saddr daddr)) (\<lambda>packet.
         bindE (poke packet 20 (udp_header source dest len 0)) (\<lambda>packet.
         bindE (poke packet 28 data) (\<lambda>packet.
         bindE (udp_checksum ok saddr daddr len (udp_header source dest len 0) data) (\<lambda>check.
         bindE (poke packet 20 (udp_header source dest len check)) (\<lambda>packet.
         Inr (take (unat (ntohs tot_len)) packet)))))))))"

section \<open>The table of clients\<close>

definition MAX_CLIENTS :: nat where "MAX_CLIENTS = 100"

record ClientInfo =
  ip :: "32 word"
  port :: "16 word"
  seen :: int

definition zero_client :: ClientInfo where
  "zero_client = \<lparr>ip = 0, port = 0, seen = 0\<rparr>"

text \<open>The loops look for the first index below the length; \<open>-1\<close> is \<open>None\<close>.\<close>

fun find_from :: "(ClientInfo \<Rightarrow> bool) \<Rightarrow> ClientInfo list \<Rightarrow> nat \<Rightarrow> nat option" where
  "find_from P [] i = None"
| "find_from P (c # cs) i = (if P c then Some i else find_from P cs (Suc i))"

definition find_client_index :: "ClientInfo list \<Rightarrow> 32 word \<Rightarrow> 16 word \<Rightarrow> nat option" where
  "find_client_index clients a p = find_from (\<lambda>c. ip c = a \<and> port c = p) clients 0"

definition add_client :: "ClientInfo list \<Rightarrow> 32 word \<Rightarrow> 16 word \<Rightarrow> nat option \<times> ClientInfo list" where
  "add_client clients a p =
     (case find_from (\<lambda>c. ip c = 0 \<and> port c = 0) clients 0 of
        None \<Rightarrow> (None, clients)
      | Some i \<Rightarrow> (Some i, clients[i := \<lparr>ip = a, port = p, seen = 0\<rparr>]))"

definition remove_client :: "ClientInfo list \<Rightarrow> 32 word \<Rightarrow> 16 word \<Rightarrow> ClientInfo list" where
  "remove_client clients a p =
     (case find_client_index clients a p of None \<Rightarrow> clients | Some i \<Rightarrow> clients[i := zero_client])"

section \<open>The server\<close>

definition SERVER_PORT :: "16 word" where "SERVER_PORT = 9090"

definition octet_text :: "32 word \<Rightarrow> nat \<Rightarrow> string" where
  "octet_text a k = show_nat (unat (drop_bit (8 * k) a AND 0xFF))"

definition inet_ntoa :: "32 word \<Rightarrow> string" where
  "inet_ntoa a = octet_text a 0 @ ''.'' @ octet_text a 1 @ ''.'' @ octet_text a 2 @ ''.'' @ octet_text a 3"

record server =
  clients :: "ClientInfo list"
  sent :: "(32 word \<times> 16 word \<times> byte list) list"
  log :: io

record request =
  from_ip :: "32 word"
  to_ip :: "32 word"
  from_port :: "16 word"
  to_port :: "16 word"
  payload :: string

text \<open>
  What the server reads out of the datagram in its buffer: \<open>None\<close> if it is not for it. The
  ports are as stored, in network order.
\<close>

definition parse :: "byte list \<Rightarrow> request option res" where
  "parse buffer =
     (let iphdrlen = 4 * unat (buffer ! 0 AND 0x0F) in
      bindE (load16 buffer (iphdrlen + 2)) (\<lambda>dest.
      if buffer ! 9 \<noteq> 17 \<or> ntohs dest \<noteq> SERVER_PORT then Inr None
      else bindE (load32 buffer 12) (\<lambda>saddr. bindE (load32 buffer 16) (\<lambda>daddr.
        bindE (load16 buffer iphdrlen) (\<lambda>source.
        bindE (cstr (chars_of (drop (iphdrlen + 8) buffer))) (\<lambda>data.
        Inr (Some \<lparr>from_ip = saddr, to_ip = daddr, from_port = source, to_port = dest, payload = data\<rparr>)))))))"

definition lookup_or_add :: "ClientInfo list \<Rightarrow> 32 word \<Rightarrow> 16 word \<Rightarrow> nat option \<times> ClientInfo list" where
  "lookup_or_add cs a p =
     (case find_client_index cs a p of Some i \<Rightarrow> (Some i, cs) | None \<Rightarrow> add_client cs a p)"

definition reply_text :: "string \<Rightarrow> int \<Rightarrow> string" where
  "reply_text data n = take (BUFFER_SIZE - 1) (data @ '' '' @ show_int n)"

text \<open>\<open>ok\<close> and \<open>snd_ok\<close>: whether \<open>malloc\<close> and \<open>sendto\<close> succeed.\<close>

definition answer :: "bool \<Rightarrow> bool \<Rightarrow> request \<Rightarrow> nat \<Rightarrow> ClientInfo list \<Rightarrow> server \<Rightarrow> server res" where
  "answer ok snd_ok r i cs s =
     bindE (c_int (seen (cs ! i) + 1)) (\<lambda>n.
     let cs = cs[i := (cs ! i)\<lparr>seen := n\<rparr>];
         reply = reply_text (payload r) n;
         who = inet_ntoa (from_ip r) @ '':'' @ show_nat (unat (ntohs (from_port r)));
         w = printf (''Received from '' @ who @ '': '' @ payload r @ [NL] @ ''Sending reply: '' @ reply @ [NL]) (log s)
     in bindE (make_packet ok (htons 54321) (to_ip r) (from_ip r) (to_port r) (from_port r) reply) (\<lambda>packet.
        Inr (if snd_ok
             then s\<lparr>clients := cs, sent := sent s @ [(from_ip r, from_port r, packet)],
                    log := printf (''Sent reply to '' @ who @ [NL]) w\<rparr>
             else s\<lparr>clients := cs, log := w\<rparr>)))"

definition handle_request :: "bool \<Rightarrow> bool \<Rightarrow> request \<Rightarrow> server \<Rightarrow> server res" where
  "handle_request ok snd_ok r s =
     (let port = ntohs (from_port r);
          who = inet_ntoa (from_ip r) @ '':'' @ show_nat (unat port)
      in if payload r = ''CLOSE_CONNECTION'' then
           Inr (s\<lparr>clients := remove_client (clients s) (from_ip r) port,
                  log := printf (''Client '' @ who @ '' closed connection'' @ [NL]) (log s)\<rparr>)
         else (case lookup_or_add (clients s) (from_ip r) port of
             (None, cs) \<Rightarrow> Inr (s\<lparr>clients := cs, log := printf (''Too many clients'' @ [NL]) (log s)\<rparr>)
           | (Some i, cs) \<Rightarrow> answer ok snd_ok r i cs s))"

text \<open>
  One round of the loop: \<open>recvfrom\<close> gives at most 1024 bytes into a buffer of zeros, or
  fails (\<open>None\<close>).
\<close>

definition server_round :: "bool \<Rightarrow> bool \<Rightarrow> byte list option \<Rightarrow> server \<Rightarrow> server res" where
  "server_round ok snd_ok datagram s =
     (case datagram of None \<Rightarrow> Inr s
      | Some d \<Rightarrow>
        let d = take BUFFER_SIZE d
        in bindE (parse (d @ replicate (BUFFER_SIZE - length d) 0)) (\<lambda>r.
           case r of None \<Rightarrow> Inr s | Some r \<Rightarrow> handle_request ok snd_ok r s))"

fun server_rounds :: "(bool \<times> bool \<times> byte list option) list \<Rightarrow> server \<Rightarrow> server res" where
  "server_rounds [] s = Inr s"
| "server_rounds ((ok, snd_ok, d) # ds) s = bindE (server_round ok snd_ok d s) (server_rounds ds)"

definition init_server :: server where
  "init_server = \<lparr>clients = replicate MAX_CLIENTS zero_client, sent = [], log = console []\<rparr>"

section \<open>The client\<close>

definition LOOPBACK :: "32 word" where "LOOPBACK = 0x0100007F"

definition CLIENT_PORT :: "16 word" where "CLIENT_PORT = 54321"

definition client_packet :: "bool \<Rightarrow> string \<Rightarrow> byte list res" where
  "client_packet ok msg =
     make_packet ok (htons 12345) LOOPBACK LOOPBACK (htons CLIENT_PORT) (htons SERVER_PORT) msg"

definition send_close_message :: "bool \<Rightarrow> byte list res" where
  "send_close_message ok = client_packet ok ''CLOSE_CONNECTION''"

text \<open>The text of a reply that is for this client.\<close>

definition client_reply :: "byte list \<Rightarrow> string option res" where
  "client_reply buffer =
     (let iphdrlen = 4 * unat (buffer ! 0 AND 0x0F) in
      bindE (load16 buffer (iphdrlen + 2)) (\<lambda>dest.
      if buffer ! 9 \<noteq> 17 \<or> ntohs dest \<noteq> CLIENT_PORT then Inr None
      else bindE (cstr (chars_of (drop (iphdrlen + 8) buffer))) (\<lambda>data. Inr (Some data))))"

section \<open>Specification\<close>

text \<open>The Internet checksum on numbers: addition with the carry added back.\<close>

definition fold16 :: "nat \<Rightarrow> nat \<Rightarrow> nat" where
  "fold16 s x = (s + x) div 65536 + (s + x) mod 65536"

fun words_of :: "byte list \<Rightarrow> nat list" where
  "words_of (lo # hi # b) = (unat lo + 256 * unat hi) # words_of b"
| "words_of _ = []"

text \<open>The layout of a packet with given checksums.\<close>

definition layout :: "16 word \<Rightarrow> 16 word \<Rightarrow> 32 word \<Rightarrow> 32 word \<Rightarrow> 16 word \<Rightarrow> 16 word \<Rightarrow> string \<Rightarrow> 16 word \<Rightarrow> byte list" where
  "layout ident check saddr daddr source dest msg ucheck =
     ip_header (htons (of_nat (29 + length msg))) ident check saddr daddr
       @ udp_header source dest (htons (of_nat (9 + length msg))) ucheck @ bytes_of msg @ [0]"

text \<open>
  The table as a map from addresses to counters; the address 0 with port 0 marks a free
  slot. No address has two slots.
\<close>

definition key :: "ClientInfo \<Rightarrow> 32 word \<times> 16 word" where
  "key c = (ip c, port c)"

definition tbl :: "ClientInfo list \<Rightarrow> 32 word \<times> 16 word \<Rightarrow> int option" where
  "tbl cs k = (if k = (0, 0) then None else map_option seen (find (\<lambda>c. key c = k) cs))"

definition table_inv :: "ClientInfo list \<Rightarrow> bool" where
  "table_inv cs = (length cs = MAX_CLIENTS \<and> (\<forall>i < length cs. \<forall>j < length cs.
     key (cs ! i) = key (cs ! j) \<and> key (cs ! i) \<noteq> (0, 0) \<longrightarrow> i = j))"

definition has_free :: "ClientInfo list \<Rightarrow> bool" where
  "has_free cs = (\<exists>c \<in> set cs. key c = (0, 0))"

definition sender :: "request \<Rightarrow> 32 word \<times> 16 word" where
  "sender r = (from_ip r, ntohs (from_port r))"

section \<open>Lemmas\<close>

subsection \<open>Bytes\<close>

lemma unat_join16: "unat (join16 lo hi) = unat lo + 256 * unat hi"
proof -
  have "join16 lo hi = ucast lo + push_bit 8 (ucast hi)"
    unfolding join16_def
    by (rule disjunctive_add [symmetric]) (auto simp: bit_push_bit_iff bit_ucast_iff dest: bit_imp_le_length)
  moreover have lt: "unat lo < 256" "unat hi < 256"
    using unsigned_less [of lo, where ?'a = nat] unsigned_less [of hi, where ?'a = nat] by simp_all
  moreover have "unat (ucast lo :: 16 word) = unat lo" "unat (ucast hi :: 16 word) = unat hi"
    using lt by (simp_all add: unsigned_ucast_eq take_bit_nat_eq_self)
  ultimately show ?thesis
    by (simp add: unat_word_ariths push_bit_eq_mult)
qed

lemma join16_le16 [simp]: "join16 (ucast x) (ucast (drop_bit 8 x)) = x"
  by (rule bit_word_eqI)
    (auto simp: join16_def bit_or_iff bit_push_bit_iff bit_ucast_iff bit_drop_bit_eq)

subsection \<open>The checksum\<close>

lemma fold16_le: "s \<le> 65535 \<Longrightarrow> x \<le> 65535 \<Longrightarrow> fold16 s x \<le> 65535"
proof -
  assume *: "s \<le> 65535" "x \<le> 65535"
  let ?q = "(s + x) div 65536" and ?r = "(s + x) mod 65536"
  have "?q * 65536 + ?r = s + x" by (rule div_mult_mod_eq)
  moreover have "?r < 65536" by simp
  ultimately show ?thesis using * unfolding fold16_def by (cases "?q = 0") linarith+
qed

lemma fold16_mod: "fold16 s x mod 65535 = (s + x) mod 65535"
proof -
  let ?q = "(s + x) div 65536" and ?r = "(s + x) mod 65536"
  have "s + x = ?q * 65535 + (?q + ?r)" using div_mult_mod_eq [of "s + x" 65536] by linarith
  then have "(s + x) mod 65535 = (?q * 65535 + (?q + ?r)) mod 65535" by (simp only:)
  also have "\<dots> = (?q + ?r) mod 65535" by (rule mod_mult_self3)
  finally show ?thesis by (simp only: fold16_def)
qed

lemma fold16_eq_0: "fold16 s x = 0 \<longleftrightarrow> s = 0 \<and> x = 0"
proof -
  have "(s + x) div 65536 * 65536 + (s + x) mod 65536 = s + x" by (rule div_mult_mod_eq)
  then show ?thesis unfolding fold16_def by auto
qed

lemma sum16_le:
  "s \<le> 65535 \<Longrightarrow> \<forall>x \<in> set xs. x \<le> 65535 \<Longrightarrow> foldl fold16 s xs \<le> 65535"
  by (induction xs arbitrary: s) (auto simp: fold16_le)

lemma sum16_mod: "foldl fold16 s xs mod 65535 = (s + sum_list xs) mod 65535"
proof (induction xs arbitrary: s)
  case Nil
  then show ?case by simp
next
  case (Cons x xs)
  have "(fold16 s x + sum_list xs) mod 65535 = (s + x + sum_list xs) mod 65535"
    using fold16_mod [of s x] by (metis mod_add_left_eq)
  with Cons show ?case by (simp add: add.assoc)
qed

lemma sum16_eq_0: "foldl fold16 s xs = 0 \<longleftrightarrow> s = 0 \<and> (\<forall>x \<in> set xs. x = 0)"
  by (induction xs arbitrary: s) (auto simp: fold16_eq_0)

text \<open>Putting the complement of the sum into a word that was zero makes the sum all ones.\<close>

lemma sum16_complement:
  assumes "k < length xs" and "xs ! k = 0" and "\<forall>x \<in> set xs. x \<le> 65535"
  shows "foldl fold16 0 (xs[k := 65535 - foldl fold16 0 xs]) = 65535"
proof -
  let ?s = "foldl fold16 0 xs"
  let ?ys = "xs[k := 65535 - ?s]"
  have s: "?s \<le> 65535" using assms(3) by (intro sum16_le) auto
  have "\<forall>x \<in> set ?ys. x \<le> 65535"
    using assms(3) set_update_subset_insert [of xs k "65535 - ?s"] by auto
  then have le: "foldl fold16 0 ?ys \<le> 65535" by (intro sum16_le) auto
  have "sum_list ?ys = sum_list xs + (65535 - ?s)"
    using assms(1,2) by (simp add: sum_list_update)
  then have "foldl fold16 0 ?ys mod 65535 = (sum_list xs + (65535 - ?s)) mod 65535"
    by (simp add: sum16_mod)
  also have "\<dots> = (?s + (65535 - ?s)) mod 65535"
    using sum16_mod [of 0 xs] by (metis add_0 mod_add_left_eq)
  finally have m: "foldl fold16 0 ?ys mod 65535 = 0" using s by simp
  have "\<not> (\<forall>x \<in> set ?ys. x = 0)"
  proof
    assume all: "\<forall>x \<in> set ?ys. x = 0"
    have "?ys ! k \<in> set ?ys" using assms(1) by (intro nth_mem) simp
    then have "?ys ! k = 0" using all by blast
    with assms(1) s have "?s = 65535" by simp
    moreover from this all assms(1,2) have "\<forall>x \<in> set xs. x = 0"
      by (metis diff_self_eq_0 list_update_id)
    then have "?s = 0" by (simp add: sum16_eq_0)
    ultimately show False by simp
  qed
  then have "foldl fold16 0 ?ys \<noteq> 0" by (simp only: sum16_eq_0) simp
  with le m show ?thesis by (metis le_neq_implies_less mod_less)
qed

lemma words_of_le: "\<forall>x \<in> set (words_of b). x \<le> 65535"
proof (induction b rule: words_of.induct)
  case (1 lo hi b)
  have "unat lo < 256" "unat hi < 256"
    using unsigned_less [of lo, where ?'a = nat] unsigned_less [of hi, where ?'a = nat] by simp_all
  with 1 show ?case by simp
qed simp_all

lemma length_words_of: "length (words_of b) = length b div 2"
  by (induction b rule: words_of.induct) auto

lemma csum_step:
  assumes "unat (s :: 64 word) \<le> 65535"
  shows "unat (drop_bit 16 (s + ucast x) + ((s + ucast (x :: 16 word)) AND 0xFFFF)) = fold16 (unat s) (unat x)"
proof -
  have x: "unat x < 65536" using unsigned_less [of x, where ?'a = nat] by simp
  have "unat (ucast x :: 64 word) = unat x"
    using x by (simp add: unsigned_ucast_eq take_bit_nat_eq_self)
  then have t: "unat (s + ucast x) = unat s + unat x"
    using assms x by (simp add: unat_word_ariths)
  have "(0xFFFF :: 64 word) = mask 16" by (simp add: mask_eq_exp_minus_1)
  then have "unat ((s + ucast x) AND 0xFFFF) = (unat s + unat x) mod 65536"
    by (simp only: take_bit_eq_mask [symmetric] unsigned_take_bit_eq t) (simp add: take_bit_eq_mod)
  moreover have "unat (drop_bit 16 (s + ucast x)) = (unat s + unat x) div 65536"
    by (simp only: unat_drop_bit_eq t) (simp add: drop_bit_eq_div)
  ultimately show ?thesis
    using assms x by (simp add: unat_word_ariths fold16_def)
qed

lemma csum_loop_words:
  "unat s \<le> 65535 \<Longrightarrow> n \<le> length (words_of b) \<Longrightarrow>
    \<exists>s'. csum_loop b n s = Inr s' \<and> unat s' = foldl fold16 (unat s) (take n (words_of b)) \<and> unat s' \<le> 65535"
proof (induction b n s rule: csum_loop.induct)
  case (1 buf s)
  then show ?case by simp
next
  case (2 lo hi buf n s)
  let ?t = "drop_bit 16 (s + ucast (join16 lo hi)) + ((s + ucast (join16 lo hi)) AND 0xFFFF)"
  have t: "unat ?t = fold16 (unat s) (unat lo + 256 * unat hi)"
    using csum_step [OF 2(2), of "join16 lo hi"] by (simp only: unat_join16)
  have "unat lo + 256 * unat hi \<le> 65535" using words_of_le [of "lo # hi # buf"] by simp
  with t fold16_le [OF 2(2)] have "unat ?t \<le> 65535" by simp
  with 2(1) [OF refl refl] 2(3) t show ?case by (simp only: csum_loop.simps Let_def) simp
qed simp_all

lemma csum_loop_short: "length (words_of b) < n \<Longrightarrow> csum_loop b n s = Inl OutOfBounds"
  by (induction b n s rule: csum_loop.induct) (simp_all add: Let_def)

lemma csum_words:
  assumes "n \<le> length (words_of b)"
  shows "csum b n = Inr (of_nat (65535 - foldl fold16 0 (take n (words_of b))))"
proof -
  from csum_loop_words [of 0 n b] assms obtain s where
    s: "csum_loop b n 0 = Inr s" "unat s = foldl fold16 0 (take n (words_of b))" "unat s \<le> 65535" by auto
  have "(ucast (NOT s) :: 16 word) = NOT (ucast s)"
    by (rule bit_word_eqI) (simp add: bit_ucast_iff bit_not_iff)
  also have "(ucast s :: 16 word) = of_nat (unat s)" by (rule unsigned_word_eqI) (simp add: unsigned_ucast_eq unsigned_of_nat)
  also have "NOT (of_nat (unat s) :: 16 word) = of_nat (65535 - unat s)"
    using s(3) by (simp add: not_eq_complement of_nat_diff)
  finally show ?thesis using s(1,2) by (simp add: csum_def)
qed

lemma csum_verifies:
  assumes "n \<le> length (words_of b)" and "k < n" and "words_of b ! k = 0" and "csum b n = Inr c"
    and "words_of b' = (words_of b)[k := unat c]"
  shows "csum b' n = Inr 0"
proof -
  let ?xs = "take n (words_of b)"
  have le: "\<forall>x \<in> set ?xs. x \<le> 65535" using words_of_le [of b] by (meson in_set_takeD)
  have "c = of_nat (65535 - foldl fold16 0 ?xs)"
    using csum_words [OF assms(1)] assms(4) by (simp only: sum.inject)
  moreover have "65535 - foldl fold16 0 ?xs < 65536" by simp
  ultimately have "unat c = 65535 - foldl fold16 0 ?xs"
    by (simp only: unat_of_nat) (simp add: take_bit_nat_eq_self)
  then have "take n (words_of b') = ?xs[k := 65535 - foldl fold16 0 ?xs]"
    by (simp only: assms(5) take_update_swap)
  moreover have "foldl fold16 0 (?xs[k := 65535 - foldl fold16 0 ?xs]) = 65535"
    by (rule sum16_complement) (use assms(1,2,3) le in auto)
  ultimately show ?thesis
    using csum_words [of n b'] assms(1,5) by simp
qed

lemma words_of_append: "even (length a) \<Longrightarrow> words_of (a @ b) = words_of a @ words_of b"
  by (induction a rule: words_of.induct) auto

lemma words_le16 [simp]: "words_of (le16 x @ b) = unat x # words_of b"
  unfolding le16_def by (simp add: unat_join16 [symmetric])

subsection \<open>Packets\<close>

lemma length_headers [simp]:
  "length (le16 x) = 2" "length (le32 a) = 4"
  "length (ip_header t i c sa da) = 20" "length (udp_header so de l c) = 8" "length (bytes_of m) = length m"
  by (simp_all add: le16_def le32_def ip_header_def udp_header_def bytes_of_def)

lemma words_ip_header: "words_of (ip_header t i c sa da @ b) = (words_of (ip_header t i 0 sa da @ b))[5 := unat c]"
  by (simp add: ip_header_def)

lemma words_ip_header_5: "words_of (ip_header t i 0 sa da @ b) ! 5 = 0"
  by (simp add: ip_header_def)

lemma words_udp_header: "words_of (udp_header so de l c @ b) = (words_of (udp_header so de l 0 @ b))[3 := unat c]"
  by (simp add: udp_header_def eval_nat_numeral)

lemma words_udp_header_3: "words_of (udp_header so de l 0 @ b) ! 3 = 0"
  by (simp add: udp_header_def eval_nat_numeral)

lemma ntohs_htons [simp]: "ntohs (htons x) = x"
  by (rule bit_word_eqI)
    (auto simp: ntohs_def htons_def bit_or_iff bit_push_bit_iff bit_drop_bit_eq dest: bit_imp_le_length)

lemma udp_checksum_odd:
  assumes "length udph = 8" and "odd (length data)"
  shows "udp_checksum True sa da l udph data = Inl OutOfBounds"
proof -
  have "csum_loop (le32 sa @ le32 da @ [0, 17] @ le16 l @ udph @ data) ((20 + length data + 1) div 2) 0 = Inl OutOfBounds"
    using assms by (intro csum_loop_short) (auto simp: length_words_of elim!: oddE)
  with assms(1) show ?thesis by (simp add: udp_checksum_def csum_def)
qed

lemma udp_checksum_even:
  assumes "even (length data)"
  shows "\<exists>c. udp_checksum True sa da l (udp_header so de l' 0) data = Inr c
    \<and> udp_checksum True sa da l (udp_header so de l' c) data = Inr 0"
proof -
  let ?ph = "le32 sa @ le32 da @ [0, 17] @ le16 l"
  let ?n = "(20 + length data + 1) div 2"
  let ?b = "\<lambda>c. ?ph @ udp_header so de l' c @ data"
  have n: "?n \<le> length (words_of (?b c))" for c using assms by (auto simp: length_words_of elim!: evenE)
  obtain c where c: "csum (?b 0) ?n = Inr c" using csum_words [OF n] by blast
  have ph: "length (words_of ?ph) = 6" "even (length ?ph)" by (simp_all add: length_words_of)
  have "words_of (?b 0) ! 9 = 0"
    unfolding words_of_append [OF ph(2)] using words_udp_header_3 [of so de l' data] ph(1) by (simp add: nth_append)
  moreover have "words_of (?b c) = (words_of (?b 0))[9 := unat c]"
    unfolding words_of_append [OF ph(2)] words_udp_header [of so de l' c data]
    using ph(1) by (simp add: list_update_append)
  moreover have "9 < ?n" by simp
  ultimately have "csum (?b c) ?n = Inr 0" using csum_verifies [OF n _ _ c] by blast
  with c show ?thesis by (intro exI [of _ c]) (simp add: udp_checksum_def)
qed

lemma poke_at:
  "length a = i \<Longrightarrow> length b = length v \<Longrightarrow> poke (a @ b @ c) i v = Inr (a @ v @ c)"
  by (simp add: poke_def)

lemma length_layout [simp]: "length (layout i c sa da so de m u) = 29 + length m"
  by (simp add: layout_def)

lemma make_packet_layout:
  assumes "length msg + 29 \<le> BUFFER_SIZE"
  shows "\<exists>c. make_packet ok i sa da so de msg =
      bindE (udp_checksum ok sa da (htons (of_nat (9 + length msg)))
        (udp_header so de (htons (of_nat (9 + length msg))) 0) (bytes_of msg @ [0]))
        (\<lambda>u. Inr (layout i c sa da so de msg u))
    \<and> (\<forall>u. csum (layout i c sa da so de msg u) 10 = Inr 0)"
proof -
  let ?t = "htons (of_nat (29 + length msg))" and ?l = "htons (of_nat (9 + length msg))"
  let ?data = "bytes_of msg @ [0]"
  let ?r = "replicate (BUFFER_SIZE - 29 - length msg) (0 :: byte)"
  let ?z = "replicate 8 (0 :: byte) @ replicate (length msg + 1) 0 @ ?r"
  have z: "replicate BUFFER_SIZE (0 :: byte) = [] @ replicate 20 0 @ ?z"
    using assms(1) by (simp add: replicate_add [symmetric] BUFFER_SIZE_def del: replicate_Suc)
  have 1: "poke (replicate BUFFER_SIZE 0) 0 (ip_header ?t i 0 sa da) = Inr (ip_header ?t i 0 sa da @ ?z)"
    unfolding z by (subst poke_at) simp_all
  have n: "10 \<le> length (words_of (ip_header ?t i c sa da @ b))" for c b by (simp add: length_words_of)
  obtain c where c: "csum (ip_header ?t i 0 sa da @ ?z) 10 = Inr c" using csum_words [OF n] by blast
  have ver: "csum (ip_header ?t i c sa da @ b) 10 = Inr 0" for b
  proof -
    have same: "csum (ip_header ?t i 0 sa da @ b) 10 = Inr c"
      using c csum_words [OF n] by (simp add: words_of_append length_words_of)
    show ?thesis
      by (rule csum_verifies [OF n _ words_ip_header_5 same words_ip_header]) simp
  qed
  have 3: "poke (ip_header ?t i 0 sa da @ ?z) 0 (ip_header ?t i c sa da) = Inr (ip_header ?t i c sa da @ ?z)"
    using poke_at [of "[]" 0 "ip_header ?t i 0 sa da" "ip_header ?t i c sa da" ?z] by simp
  have 4: "poke (ip_header ?t i c sa da @ ?z) 20 (udp_header so de ?l 0) =
      Inr (ip_header ?t i c sa da @ udp_header so de ?l 0 @ replicate (length msg + 1) 0 @ ?r)"
    by (rule poke_at) simp_all
  have 5: "poke (ip_header ?t i c sa da @ udp_header so de ?l 0 @ replicate (length msg + 1) 0 @ ?r) 28 ?data =
      Inr (ip_header ?t i c sa da @ udp_header so de ?l 0 @ ?data @ ?r)"
    using poke_at [of "ip_header ?t i c sa da @ udp_header so de ?l 0" 28 "replicate (length msg + 1) 0" ?data ?r] by simp
  have 6: "poke (ip_header ?t i c sa da @ udp_header so de ?l 0 @ ?data @ ?r) 20 (udp_header so de ?l u) =
      Inr (ip_header ?t i c sa da @ udp_header so de ?l u @ ?data @ ?r)" for u
    by (rule poke_at) simp_all
  have len: "unat (ntohs ?t) = 29 + length msg"
    using assms(1) by (simp only: ntohs_htons unat_of_nat) (simp add: BUFFER_SIZE_def take_bit_nat_eq_self)
  have "28 + (length msg + 1) = 29 + length msg" "8 + (length msg + 1) = 9 + length msg" by simp_all
  then have "make_packet ok i sa da so de msg =
      bindE (udp_checksum ok sa da ?l (udp_header so de ?l 0) ?data) (\<lambda>u.
        Inr (take (29 + length msg) (ip_header ?t i c sa da @ udp_header so de ?l u @ ?data @ ?r)))"
    by (simp only: make_packet_def Let_def 1 c 3 4 5 6 len bindE_simps)
  moreover have "take (29 + length msg) (ip_header ?t i c sa da @ udp_header so de ?l u @ ?data @ ?r) =
      layout i c sa da so de msg u" for u
    by (simp add: layout_def)
  moreover have "csum (layout i c sa da so de msg u) 10 = Inr 0" for u
    using ver by (simp add: layout_def)
  ultimately show ?thesis by auto
qed

lemma make_packet_faults:
  assumes "BUFFER_SIZE < length msg + 29"
  shows "make_packet ok i sa da so de msg = Inl OutOfBounds"
proof -
  let ?t = "htons (of_nat (28 + (length msg + 1)))" and ?l = "htons (of_nat (8 + (length msg + 1)))"
  have fits: "\<exists>b'. poke b k v = Inr b' \<and> length b' = 1024" if "length b = 1024" "k + length v \<le> 1024" for b k v
    using that by (simp add: poke_def)
  have over: "poke b 28 (bytes_of msg @ [0]) = Inl OutOfBounds" if "length b = 1024" for b
    using assms that by (simp add: poke_def BUFFER_SIZE_def)
  obtain b1 where 1: "poke (replicate BUFFER_SIZE 0) 0 (ip_header ?t i 0 sa da) = Inr b1" "length b1 = 1024"
    using fits [of "replicate BUFFER_SIZE 0" 0 "ip_header ?t i 0 sa da"] by (auto simp: BUFFER_SIZE_def)
  obtain c where 2: "csum b1 10 = Inr c"
    using csum_words [of 10 b1] 1(2) by (simp add: length_words_of)
  obtain b2 where 3: "poke b1 0 (ip_header ?t i c sa da) = Inr b2" "length b2 = 1024"
    using fits [OF 1(2), of 0 "ip_header ?t i c sa da"] by auto
  obtain b3 where 4: "poke b2 20 (udp_header so de ?l 0) = Inr b3" "length b3 = 1024"
    using fits [OF 3(2), of 20 "udp_header so de ?l 0"] by auto
  show ?thesis
    by (simp only: make_packet_def Let_def 1(1) 2 3(1) 4(1) over [OF 4(2)] bindE_simps)
qed

text \<open>
  With memory for the checksum, exactly the messages of odd length up to 995 make a packet,
  and both its checksums verify.
\<close>

lemma make_packet_odd:
  assumes "odd (length msg)" and "length msg \<le> 995"
  shows "\<exists>c u. make_packet True i sa da so de msg = Inr (layout i c sa da so de msg u)
    \<and> csum (layout i c sa da so de msg u) 10 = Inr 0
    \<and> udp_checksum True sa da (htons (of_nat (9 + length msg)))
        (udp_header so de (htons (of_nat (9 + length msg))) u) (bytes_of msg @ [0]) = Inr 0"
proof -
  let ?l = "htons (of_nat (9 + length msg)) :: 16 word"
  from udp_checksum_even [of "bytes_of msg @ [0]" sa da ?l so de ?l] assms(1) obtain u where
    u: "udp_checksum True sa da ?l (udp_header so de ?l 0) (bytes_of msg @ [0]) = Inr u"
      "udp_checksum True sa da ?l (udp_header so de ?l u) (bytes_of msg @ [0]) = Inr 0" by auto
  from make_packet_layout [of msg True i sa da so de] assms(2) obtain c where
    c: "make_packet True i sa da so de msg =
      bindE (udp_checksum True sa da ?l (udp_header so de ?l 0) (bytes_of msg @ [0]))
        (\<lambda>u. Inr (layout i c sa da so de msg u))"
      "\<forall>u. csum (layout i c sa da so de msg u) 10 = Inr 0" by (auto simp: BUFFER_SIZE_def)
  with u show ?thesis by (metis bindE_simps(1))
qed

lemma make_packet_even:
  assumes "even (length msg)"
  shows "make_packet True i sa da so de msg = Inl OutOfBounds"
proof (cases "length msg + 29 \<le> BUFFER_SIZE")
  case True
  have "length (bytes_of msg @ [0]) = length msg + 1" by simp
  with assms have "odd (length (bytes_of msg @ [0]))" by presburger
  with udp_checksum_odd [of _ "bytes_of msg @ [0]"] make_packet_layout [OF True, of True i sa da so de]
  show ?thesis by (metis bindE_simps(2) length_headers(4))
next
  case False
  then show ?thesis by (simp add: make_packet_faults)
qed

subsection \<open>Reading a packet\<close>

lemma char_byte [simp]: "char_of (unat (of_char c :: byte)) = c"
proof -
  have "(of_char c :: byte) = of_nat (of_char c)" by (simp add: of_nat_of_char)
  then have "unat (of_char c :: byte) = of_char c"
    by (simp only: unat_of_nat) (simp add: take_bit_nat_eq_self)
  then show ?thesis by (simp only: char_of_char)
qed

lemma chars_bytes [simp]: "chars_of (bytes_of s @ b) = s @ chars_of b"
  by (simp add: chars_of_def bytes_of_def o_def)

lemma cstr_data: "NUL \<notin> set s \<Longrightarrow> cstr (chars_of (bytes_of s @ 0 # b)) = Inr s"
proof -
  assume s: "NUL \<notin> set s"
  have "chars_of (bytes_of s @ 0 # b) = s @ NUL # chars_of b"
    unfolding chars_bytes by (simp add: chars_of_def NUL_def char_of_def)
  with s show ?thesis by (simp add: cstr_def)
qed

lemma load16_at: "length a = i \<Longrightarrow> load16 (a @ le16 x @ b) i = Inr x"
  by (simp add: load16_def nth_append le16_def)

lemma load32_at: "length a = i \<Longrightarrow> load32 (a @ le32 x @ b) i = Inr x"
proof -
  assume i: "length a = i"
  have "load32 (a @ le32 x @ b) i = Inr (ucast (join16 (ucast x) (ucast (drop_bit 8 x)))
      OR push_bit 16 (ucast (join16 (ucast (drop_bit 16 x)) (ucast (drop_bit 24 x)))))"
    using i by (simp add: load32_def load16_def nth_append le32_def eval_nat_numeral)
  also have "\<dots> = Inr x"
  proof (rule arg_cong [where f = Inr], rule bit_word_eqI)
    fix n assume "n < LENGTH(32)"
    then have "n < 32" by simp
    then consider "n < 8" | "8 \<le> n" "n < 16" | "16 \<le> n" "n < 32" "16 + (n - 16) = n" by linarith
    then show "bit (ucast (join16 (ucast x) (ucast (drop_bit 8 x)))
        OR push_bit 16 (ucast (join16 (ucast (drop_bit 16 x)) (ucast (drop_bit 24 x)))) :: 32 word) n = bit x n"
      by cases (auto simp: join16_def bit_or_iff bit_push_bit_iff bit_ucast_iff bit_drop_bit_eq)
  qed
  finally show ?thesis .
qed

text \<open>The fields of a packet, wherever a program reads them.\<close>

lemma header_fields:
  fixes t i c so de l u :: "16 word" and sa da :: "32 word" and d :: "byte list"
  defines "p \<equiv> ip_header t i c sa da @ udp_header so de l u @ d"
  shows "p ! 0 = 0x45" "p ! 9 = 17" "load32 p 12 = Inr sa" "load32 p 16 = Inr da"
    "load16 p 20 = Inr so" "load16 p 22 = Inr de" "drop 28 p = d"
proof -
  let ?h = "[0x45, 0] @ le16 t @ le16 i @ [0, 0] @ [64, 17] @ le16 c"
  have p: "p = ?h @ le32 sa @ le32 da @ le16 so @ le16 de @ le16 l @ le16 u @ d"
    by (simp add: p_def ip_header_def udp_header_def)
  show "p ! 0 = 0x45" "p ! 9 = 17" unfolding p by (simp_all add: le16_def)
  show "load32 p 12 = Inr sa" unfolding p by (rule load32_at) simp
  show "load32 p 16 = Inr da" using load32_at [of "?h @ le32 sa" 16 da] unfolding p by simp
  show "load16 p 20 = Inr so" using load16_at [of "?h @ le32 sa @ le32 da" 20 so] unfolding p by simp
  show "load16 p 22 = Inr de" using load16_at [of "?h @ le32 sa @ le32 da @ le16 so" 22] unfolding p by simp
  show "drop 28 p = d" unfolding p by simp
qed

lemma parse_layout:
  assumes "NUL \<notin> set msg"
  shows "parse (layout i c sa da so (htons SERVER_PORT) msg u @ b) =
    Inr (Some \<lparr>from_ip = sa, to_ip = da, from_port = so, to_port = htons SERVER_PORT, payload = msg\<rparr>)"
proof -
  let ?t = "htons (of_nat (29 + length msg)) :: 16 word" and ?l = "htons (of_nat (9 + length msg)) :: 16 word"
  have p: "layout i c sa da so (htons SERVER_PORT) msg u @ b =
      ip_header ?t i c sa da @ udp_header so (htons SERVER_PORT) ?l u @ bytes_of msg @ 0 # b"
    by (simp add: layout_def)
  show ?thesis
    using cstr_data [OF assms, of b] unfolding p
    by (simp add: parse_def Let_def header_fields)
qed

lemma server_round_layout:
  assumes "length msg \<le> 995" and "NUL \<notin> set msg"
  shows "server_round ok snd_ok (Some (layout i c sa da so (htons SERVER_PORT) msg u)) s =
    handle_request ok snd_ok \<lparr>from_ip = sa, to_ip = da, from_port = so, to_port = htons SERVER_PORT, payload = msg\<rparr> s"
proof -
  have "take BUFFER_SIZE (layout i c sa da so (htons SERVER_PORT) msg u) = layout i c sa da so (htons SERVER_PORT) msg u"
    using assms(1) by (simp add: BUFFER_SIZE_def)
  then show ?thesis by (simp only: server_round_def option.case Let_def bindE_simps parse_layout [OF assms(2)])
qed

lemma client_reply_layout:
  assumes "NUL \<notin> set msg"
  shows "client_reply (layout i c sa da so (htons CLIENT_PORT) msg u @ b) = Inr (Some msg)"
proof -
  let ?t = "htons (of_nat (29 + length msg)) :: 16 word" and ?l = "htons (of_nat (9 + length msg)) :: 16 word"
  have p: "layout i c sa da so (htons CLIENT_PORT) msg u @ b =
      ip_header ?t i c sa da @ udp_header so (htons CLIENT_PORT) ?l u @ bytes_of msg @ 0 # b"
    by (simp add: layout_def)
  show ?thesis
    using cstr_data [OF assms, of b] unfolding p by (simp add: client_reply_def Let_def header_fields)
qed

subsection \<open>The table\<close>

lemma find_from_Some:
  "find_from P cs i = Some k \<Longrightarrow> i \<le> k \<and> k < i + length cs \<and> P (cs ! (k - i))"
proof (induction cs arbitrary: i)
  case Nil
  then show ?case by simp
next
  case (Cons c cs)
  show ?case
  proof (cases "P c")
    case True
    with Cons.prems show ?thesis by simp
  next
    case False
    with Cons.prems Cons.IH [of "Suc i"] have "Suc i \<le> k" "k < Suc i + length cs" "P (cs ! (k - Suc i))" by auto
    moreover from this have "k - i = Suc (k - Suc i)" by simp
    ultimately show ?thesis by simp
  qed
qed

lemma find_from_None: "find_from P cs i = None \<longleftrightarrow> (\<forall>c \<in> set cs. \<not> P c)"
  by (induction cs arbitrary: i) auto

lemma tbl_eq_Some:
  assumes "table_inv cs"
  shows "tbl cs k = Some v \<longleftrightarrow> k \<noteq> (0, 0) \<and> (\<exists>i < length cs. key (cs ! i) = k \<and> seen (cs ! i) = v)"
proof
  assume "tbl cs k = Some v"
  then show "k \<noteq> (0, 0) \<and> (\<exists>i < length cs. key (cs ! i) = k \<and> seen (cs ! i) = v)"
    by (auto simp: tbl_def find_Some_iff split: if_splits)
next
  assume "k \<noteq> (0, 0) \<and> (\<exists>i < length cs. key (cs ! i) = k \<and> seen (cs ! i) = v)"
  then obtain i where i: "k \<noteq> (0, 0)" "i < length cs" "key (cs ! i) = k" "seen (cs ! i) = v" by auto
  then have "find (\<lambda>c. key c = k) cs \<noteq> None" unfolding find_None_iff using nth_mem by blast
  then obtain c where c: "find (\<lambda>c. key c = k) cs = Some c" by auto
  then obtain j where "j < length cs" "key (cs ! j) = k" "c = cs ! j" by (auto simp: find_Some_iff)
  with assms i have "c = cs ! i" by (auto simp: table_inv_def)
  with c i show "tbl cs k = Some v" by (simp add: tbl_def)
qed

text \<open>Writing a slot that no other slot collides with.\<close>

lemma tbl_write:
  assumes "table_inv cs" and "i < length cs"
    and "\<forall>j < length cs. j \<noteq> i \<longrightarrow> key c \<noteq> (0, 0) \<longrightarrow> key (cs ! j) \<noteq> key c"
  shows "table_inv (cs[i := c])"
    and "tbl (cs[i := c]) k = (if k = (0, 0) then None else if k = key c then Some (seen c)
      else if k = key (cs ! i) then None else tbl cs k)"
proof -
  show inv: "table_inv (cs[i := c])"
    using assms unfolding table_inv_def by (auto simp: nth_list_update)
  have uniq: "key (cs ! j) = key (cs ! i) \<Longrightarrow> key (cs ! j) \<noteq> (0, 0) \<Longrightarrow> j < length cs \<Longrightarrow> j = i" for j
    using assms(1,2) by (auto simp: table_inv_def)
  have at: "(cs[i := c]) ! j = (if j = i then c else cs ! j)" if "j < length cs" for j
    using that by (simp add: nth_list_update)
  note new = tbl_eq_Some [OF inv, of k, unfolded length_list_update]
  consider "k = (0, 0)" | "k \<noteq> (0, 0)" "k = key c" | "k \<noteq> (0, 0)" "k \<noteq> key c" "k = key (cs ! i)"
    | "k \<noteq> (0, 0)" "k \<noteq> key c" "k \<noteq> key (cs ! i)" by blast
  then show "tbl (cs[i := c]) k = (if k = (0, 0) then None else if k = key c then Some (seen c)
      else if k = key (cs ! i) then None else tbl cs k)"
  proof cases
    case 1
    then show ?thesis by (simp add: tbl_def)
  next
    case 2
    with new [of "seen c"] assms(2) at [OF assms(2)] show ?thesis by auto
  next
    case 3
    have "tbl (cs[i := c]) k \<noteq> Some v" for v
      unfolding new using 3 uniq at by (metis (no_types, lifting))
    then have "tbl (cs[i := c]) k = None" by (cases "tbl (cs[i := c]) k") auto
    with 3 show ?thesis by simp
  next
    case 4
    have "tbl (cs[i := c]) k = Some v \<longleftrightarrow> tbl cs k = Some v" for v
      unfolding new tbl_eq_Some [OF assms(1)] using 4 at by (metis (no_types, lifting))
    with 4 show ?thesis by (auto intro: option.expand) (metis option.exhaust)+
  qed
qed

lemma find_client_Some:
  assumes "find_client_index cs a p = Some i"
  shows "i < length cs" "key (cs ! i) = (a, p)"
  using find_from_Some [of _ cs 0 i] assms by (auto simp: find_client_index_def key_def)

lemma find_client_None:
  "find_client_index cs a p = None \<longleftrightarrow> (\<forall>c \<in> set cs. key c \<noteq> (a, p))"
  by (simp add: find_client_index_def find_from_None key_def)

lemma remove_client_inv: "table_inv cs \<Longrightarrow> table_inv (remove_client cs a p)"
  by (auto simp: remove_client_def zero_client_def key_def split: option.splits
      intro!: tbl_write(1) dest: find_client_Some)

lemma remove_client_tbl:
  assumes "table_inv cs" and "(a, p) \<noteq> (0, 0)"
  shows "tbl (remove_client cs a p) = (tbl cs)((a, p) := None)"
proof (cases "find_client_index cs a p")
  case None
  then have "tbl cs (a, p) = None"
    using tbl_eq_Some [OF assms(1), of "(a, p)"] by (metis find_client_None nth_mem option.exhaust)
  with None show ?thesis by (simp add: remove_client_def fun_upd_idem)
next
  case (Some i)
  have z: "key zero_client = (0, 0)" by (simp add: key_def zero_client_def)
  show ?thesis
  proof
    fix k
    show "tbl (remove_client cs a p) k = ((tbl cs)((a, p) := None)) k"
      using tbl_write(2) [OF assms(1) find_client_Some(1) [OF Some], of zero_client k]
        find_client_Some(2) [OF Some] Some z
      by (auto simp: remove_client_def tbl_def)
  qed
qed

text \<open>Finding or adding a client gives a slot with its address and keeps the other counters.\<close>

lemma lookup_or_add_inv:
  assumes "table_inv cs" and "lookup_or_add cs a p = (Some i, cs')"
  shows "table_inv cs'" "i < length cs'" "key (cs' ! i) = (a, p)"
proof -
  have "table_inv cs' \<and> i < length cs' \<and> key (cs' ! i) = (a, p)"
  proof (cases "find_client_index cs a p")
    case (Some j)
    with assms find_client_Some [OF Some] show ?thesis by (auto simp: lookup_or_add_def)
  next
    case None
    with assms(2) obtain f: "find_from (\<lambda>c. ip c = 0 \<and> port c = 0) cs 0 = Some i"
      and cs': "cs' = cs[i := \<lparr>ip = a, port = p, seen = 0\<rparr>]"
      by (auto simp: lookup_or_add_def add_client_def split: option.splits)
    have i: "i < length cs" using find_from_Some [OF f] by simp
    have new: "\<forall>j < length cs. key (cs ! j) \<noteq> (a, p)" using None find_client_None nth_mem by blast
    show ?thesis
      using tbl_write(1) [OF assms(1) i, of "\<lparr>ip = a, port = p, seen = 0\<rparr>"] new i
      by (auto simp: cs' key_def)
  qed
  then show "table_inv cs'" "i < length cs'" "key (cs' ! i) = (a, p)" by auto
qed

lemma lookup_or_add_tbl:
  assumes "table_inv cs" and "(a, p) \<noteq> (0, 0)"
  shows "(case tbl cs (a, p) of
      Some v \<Rightarrow> \<exists>i. lookup_or_add cs a p = (Some i, cs) \<and> seen (cs ! i) = v
    | None \<Rightarrow> (if has_free cs
        then \<exists>i cs'. lookup_or_add cs a p = (Some i, cs') \<and> seen (cs' ! i) = 0 \<and> tbl cs' = (tbl cs)((a, p) \<mapsto> 0)
        else lookup_or_add cs a p = (None, cs)))"
proof (cases "find_client_index cs a p")
  case (Some i)
  have "tbl cs (a, p) = Some (seen (cs ! i))"
    using tbl_eq_Some [OF assms(1)] find_client_Some [OF Some] assms(2) by blast
  with Some show ?thesis by (simp add: lookup_or_add_def)
next
  case None
  then have n: "tbl cs (a, p) = None"
    using tbl_eq_Some [OF assms(1), of "(a, p)"] by (metis find_client_None nth_mem option.exhaust)
  show ?thesis
  proof (cases "find_from (\<lambda>c. ip c = 0 \<and> port c = 0) cs 0")
    case full: None
    then have "\<not> has_free cs" by (auto simp: find_from_None has_free_def key_def)
    with n None full show ?thesis by (simp add: lookup_or_add_def add_client_def)
  next
    case free: (Some i)
    let ?c = "\<lparr>ip = a, port = p, seen = 0\<rparr> :: ClientInfo"
    have i: "i < length cs" "key (cs ! i) = (0, 0)" using find_from_Some [OF free] by (auto simp: key_def)
    then have f: "has_free cs" unfolding has_free_def by (metis nth_mem)
    have new: "\<forall>j < length cs. j \<noteq> i \<longrightarrow> key ?c \<noteq> (0, 0) \<longrightarrow> key (cs ! j) \<noteq> key ?c"
      using None find_client_None [of cs a p] by (auto simp: key_def)
    have "tbl (cs[i := ?c]) = (tbl cs)((a, p) \<mapsto> 0)"
    proof
      fix k
      show "tbl (cs[i := ?c]) k = ((tbl cs)((a, p) \<mapsto> 0)) k"
        using tbl_write(2) [OF assms(1) i(1) new, of k] i(2) assms(2) by (auto simp: key_def tbl_def)
    qed
    with n f None free i(1) show ?thesis by (simp add: lookup_or_add_def add_client_def)
  qed
qed

subsection \<open>Requests\<close>

text \<open>The slot of a client with a new counter.\<close>

lemma bump_tbl:
  assumes "table_inv cs" and "i < length cs" and "key (cs ! i) = k"
  shows "table_inv (cs[i := (cs ! i)\<lparr>seen := n\<rparr>])"
    and "k \<noteq> (0, 0) \<Longrightarrow> tbl (cs[i := (cs ! i)\<lparr>seen := n\<rparr>]) = (tbl cs)(k \<mapsto> n)"
proof -
  let ?c = "(cs ! i)\<lparr>seen := n\<rparr>"
  have k: "key ?c = key (cs ! i)" by (simp add: key_def)
  have new: "\<forall>j < length cs. j \<noteq> i \<longrightarrow> key ?c \<noteq> (0, 0) \<longrightarrow> key (cs ! j) \<noteq> key ?c"
    using assms(1,2) unfolding k by (auto simp: table_inv_def)
  show "table_inv (cs[i := ?c])" by (rule tbl_write(1) [OF assms(1,2) new])
  show "tbl (cs[i := ?c]) = (tbl cs)(k \<mapsto> n)" if "k \<noteq> (0, 0)"
  proof
    fix l
    show "tbl (cs[i := ?c]) l = ((tbl cs)(k \<mapsto> n)) l"
      using tbl_write(2) [OF assms(1,2) new, of l] assms(3) k that by (auto simp: tbl_def)
  qed
qed

lemma answer_clients:
  assumes "answer ok snd_ok r i cs s = Inr s'"
  shows "clients s' = cs[i := (cs ! i)\<lparr>seen := seen (cs ! i) + 1\<rparr>]"
  using assms by (auto simp: answer_def Let_def split: if_splits)

lemma handle_request_inv:
  assumes "handle_request ok snd_ok r s = Inr s'" and "table_inv (clients s)"
  shows "table_inv (clients s')"
proof (cases "payload r = ''CLOSE_CONNECTION''")
  case True
  with assms show ?thesis by (auto simp: handle_request_def Let_def remove_client_inv)
next
  case False
  obtain o' cs where l: "lookup_or_add (clients s) (from_ip r) (ntohs (from_port r)) = (o', cs)" by fastforce
  show ?thesis
  proof (cases o')
    case None
    with l have "cs = clients s"
      by (auto simp: lookup_or_add_def add_client_def split: option.splits)
    with assms False l None show ?thesis by (auto simp: handle_request_def Let_def)
  next
    case (Some i)
    with assms(1) False l have a: "answer ok snd_ok r i cs s = Inr s'" by (simp add: handle_request_def Let_def)
    note inv = lookup_or_add_inv [OF assms(2) l [unfolded Some]]
    show ?thesis
      unfolding answer_clients [OF a] by (rule bump_tbl(1) [OF inv])
  qed
qed

text \<open>The table as a map.\<close>

lemma handle_request_tbl:
  assumes "table_inv (clients s)" and "sender r \<noteq> (0, 0)"
    and "handle_request ok snd_ok r s = Inr s'"
  shows "tbl (clients s') =
    (if payload r = ''CLOSE_CONNECTION'' then (tbl (clients s))(sender r := None)
     else case tbl (clients s) (sender r) of
       Some v \<Rightarrow> (tbl (clients s))(sender r \<mapsto> v + 1)
     | None \<Rightarrow> if has_free (clients s) then (tbl (clients s))(sender r \<mapsto> 1) else tbl (clients s))"
proof (cases "payload r = ''CLOSE_CONNECTION''")
  case True
  with assms remove_client_tbl [OF assms(1), of "from_ip r" "ntohs (from_port r)"] show ?thesis
    by (auto simp: handle_request_def Let_def sender_def)
next
  case False
  let ?a = "from_ip r" and ?p = "ntohs (from_port r)"
  obtain o' cs where l: "lookup_or_add (clients s) ?a ?p = (o', cs)" by fastforce
  have nz: "(?a, ?p) \<noteq> (0, 0)" using assms(2) by (simp add: sender_def)
  note look = lookup_or_add_tbl [OF assms(1) nz, unfolded l]
  show ?thesis
  proof (cases o')
    case None
    with look have "tbl (clients s) (?a, ?p) = None" "\<not> has_free (clients s)" "cs = clients s"
      by (auto split: option.splits if_splits)
    with assms(3) False l None show ?thesis by (auto simp: handle_request_def Let_def sender_def)
  next
    case (Some i)
    with assms(3) False l have a: "answer ok snd_ok r i cs s = Inr s'" by (simp add: handle_request_def Let_def)
    note inv = lookup_or_add_inv [OF assms(1) l [unfolded Some]]
    have "tbl (clients s') = (tbl cs)((?a, ?p) \<mapsto> seen (cs ! i) + 1)"
      unfolding answer_clients [OF a] by (rule bump_tbl(2) [OF inv nz])
    with look Some False show ?thesis
      by (auto simp: sender_def split: option.splits if_splits)
  qed
qed

lemma server_round_inv:
  assumes "server_round ok snd_ok d s = Inr s'" and "table_inv (clients s)"
  shows "table_inv (clients s')"
  using assms handle_request_inv by (fastforce simp: server_round_def Let_def split: option.splits)

lemma server_rounds_inv:
  "server_rounds ds s = Inr s' \<Longrightarrow> table_inv (clients s) \<Longrightarrow> table_inv (clients s')"
  by (induction ds s rule: server_rounds.induct) (auto dest: server_round_inv)

lemma init_server_inv: "table_inv (clients init_server)"
  by (simp add: table_inv_def init_server_def zero_client_def key_def)

section \<open>Properties\<close>

text \<open>
  C4: A message of odd length up to 995 makes a packet of the IP header, the UDP header and
  the terminated text, and both checksums verify: summed over the header with its
  checksum in place, and over the pseudo header and the datagram with its checksum in
  place, the result is 0.
\<close>

theorem packet_checksums_verify:
  assumes "odd (length msg)" and "length msg \<le> 995"
  shows "\<exists>c u. make_packet True i sa da so de msg = Inr (layout i c sa da so de msg u)
    \<and> csum (layout i c sa da so de msg u) 10 = Inr 0
    \<and> udp_checksum True sa da (htons (of_nat (9 + length msg)))
        (udp_header so de (htons (of_nat (9 + length msg))) u) (bytes_of msg @ [0]) = Inr 0"
  using assms by (rule make_packet_odd)

theorem packet_checksums_verify_witness:
  "\<exists>c u. client_packet True ''abc'' =
      Inr (layout (htons 12345) c LOOPBACK LOOPBACK (htons CLIENT_PORT) (htons SERVER_PORT) ''abc'' u)
    \<and> csum (layout (htons 12345) c LOOPBACK LOOPBACK (htons CLIENT_PORT) (htons SERVER_PORT) ''abc'' u) 10 = Inr 0"
  using packet_checksums_verify [of "''abc''" "htons 12345" LOOPBACK LOOPBACK "htons CLIENT_PORT" "htons SERVER_PORT"]
  by (auto simp: client_packet_def)

text \<open>
  Every message of even length makes \<open>udp_checksum\<close> read one byte behind its
  buffer, because it rounds the number of words up, and every message longer than 995
  is copied over the end of the packet.
\<close>

theorem packet_overruns:
  assumes "even (length msg) \<or> 995 < length msg"
  shows "make_packet True i sa da so de msg = Inl OutOfBounds"
proof (cases "even (length msg)")
  case True
  then show ?thesis by (rule make_packet_even)
next
  case False
  with assms have "BUFFER_SIZE < length msg + 29" by (simp add: BUFFER_SIZE_def)
  then show ?thesis by (rule make_packet_faults)
qed

theorem packet_overruns_witness: "send_close_message True = Inl OutOfBounds"
proof -
  have "even (length ''CLOSE_CONNECTION'') \<or> 995 < length ''CLOSE_CONNECTION''" by simp
  from packet_overruns [OF this] show ?thesis by (simp add: send_close_message_def client_packet_def)
qed

text \<open>
  Whatever datagrams arrive, the server's table keeps its 100 slots and no address
  ever has two of them.
\<close>

theorem server_table_inv:
  assumes "server_rounds ds init_server = Inr s"
  shows "table_inv (clients s)"
  using assms init_server_inv by (rule server_rounds_inv)

theorem server_table_inv_witness: "table_inv (clients init_server)"
  using server_table_inv [of "[]" init_server] by simp

text \<open>
  C5: On the table as a map from addresses to counters a request does what it should: a
  closing request removes the sender; any other request that is answered raises the
  sender's counter by one, starting at one for a new sender, and leaves all other counters;
  a new sender is turned away exactly if no slot is free.
\<close>

theorem server_counts:
  assumes "table_inv (clients s)" and "sender r \<noteq> (0, 0)"
    and "handle_request ok snd_ok r s = Inr s'"
  shows "tbl (clients s') =
    (if payload r = ''CLOSE_CONNECTION'' then (tbl (clients s))(sender r := None)
     else case tbl (clients s) (sender r) of
       Some v \<Rightarrow> (tbl (clients s))(sender r \<mapsto> v + 1)
     | None \<Rightarrow> if has_free (clients s) then (tbl (clients s))(sender r \<mapsto> 1) else tbl (clients s))"
  by (rule handle_request_tbl [OF assms])

theorem server_counts_witness:
  "\<exists>s'. handle_request False True \<lparr>from_ip = LOOPBACK, to_ip = LOOPBACK, from_port = htons CLIENT_PORT,
      to_port = htons SERVER_PORT, payload = ''ab''\<rparr> init_server = Inr s'
    \<and> tbl (clients s') = (tbl (clients init_server))((LOOPBACK, CLIENT_PORT) \<mapsto> 1)"
proof -
  let ?r = "\<lparr>from_ip = LOOPBACK, to_ip = LOOPBACK, from_port = htons CLIENT_PORT,
      to_port = htons SERVER_PORT, payload = ''ab''\<rparr>"
  have k: "sender ?r = (LOOPBACK, CLIENT_PORT)" "sender ?r \<noteq> (0, 0)" by (simp_all add: sender_def LOOPBACK_def)
  have free: "has_free (clients init_server)" "tbl (clients init_server) (sender ?r) = None"
    by (auto simp: has_free_def init_server_def zero_client_def key_def tbl_def find_None_iff k(1) LOOPBACK_def MAX_CLIENTS_def)
  from lookup_or_add_tbl [OF init_server_inv, of LOOPBACK CLIENT_PORT] k free obtain i cs where
    l: "lookup_or_add (clients init_server) LOOPBACK CLIENT_PORT = (Some i, cs)" "seen (cs ! i) = 0" by auto
  have len: "length (reply_text ''ab'' 1) + 29 \<le> BUFFER_SIZE"
    by (simp add: reply_text_def BUFFER_SIZE_def show_int_def show_nat.simps [of "Suc 0"])
  have "is_ok (make_packet False (htons 54321) LOOPBACK LOOPBACK (htons SERVER_PORT) (htons CLIENT_PORT) (reply_text ''ab'' 1))"
    using make_packet_layout [OF len, of False "htons 54321" LOOPBACK LOOPBACK "htons SERVER_PORT" "htons CLIENT_PORT"]
    by (auto simp: udp_checksum_def)
  then have "is_ok (handle_request False True ?r init_server)"
    using l by (auto simp: handle_request_def answer_def Let_def is_ok_iff c_int_def c_arith)
  then obtain s' where s': "handle_request False True ?r init_server = Inr s'" by (auto simp: is_ok_iff)
  from server_counts [OF init_server_inv k(2) this] free k(1) s' show ?thesis by auto
qed

text \<open>
  C28: The server understands the client: for every text without a terminator inside that
  the client can put into a packet, the server's round on that packet is the handling of
  a request with the client's address and port and exactly that text.
\<close>

theorem server_reads_client:
  assumes "odd (length msg)" and "length msg \<le> 995" and "NUL \<notin> set msg"
  shows "\<exists>p. client_packet True msg = Inr p \<and> server_round ok snd_ok (Some p) s =
    handle_request ok snd_ok \<lparr>from_ip = LOOPBACK, to_ip = LOOPBACK, from_port = htons CLIENT_PORT,
      to_port = htons SERVER_PORT, payload = msg\<rparr> s"
proof -
  from make_packet_odd [OF assms(1,2)] obtain c u where
    p: "client_packet True msg = Inr (layout (htons 12345) c LOOPBACK LOOPBACK (htons CLIENT_PORT) (htons SERVER_PORT) msg u)"
    unfolding client_packet_def by blast
  from server_round_layout [OF assms(2,3)] p show ?thesis by blast
qed

theorem server_reads_client_witness:
  "\<exists>p. client_packet True ''abc'' = Inr p \<and> server_round True True (Some p) init_server =
    handle_request True True \<lparr>from_ip = LOOPBACK, to_ip = LOOPBACK, from_port = htons CLIENT_PORT,
      to_port = htons SERVER_PORT, payload = ''abc''\<rparr> init_server"
  by (rule server_reads_client) (simp_all add: NUL_def)

end
