(* ===== verification/Descriptors.thy ===== *)
theory Descriptors
  imports C_Stdio
begin

text \<open>
  What a program does with descriptors, as a list of actions, and which descriptors such a
  list leaves open. The network programs all start with a few calls, each of which can
  fail, that end with an open socket or with the end of the program; the locale
  \<open>careful_setup\<close> says what such a start promises. It is interpreted for the start of each
  program in \<open>Raw_Echo\<close>, \<open>Udp_Programs\<close> and \<open>Tcp_Programs\<close>.
\<close>

section \<open>Actions\<close>

text \<open>
  \<open>Opened fd\<close> for a descriptor the system gives out, \<open>Closed fd\<close> for \<open>close\<close>, and \<open>Ended status\<close> for the
  end of the program.
\<close>

datatype net_act = Opened int | Closed int | Ended int

fun fd_step :: "int list \<Rightarrow> net_act \<Rightarrow> int list" where
  "fd_step fds (Opened fd) = fd # fds"
| "fd_step fds (Closed fd) = remove1 fd fds"
| "fd_step fds (Ended n) = fds"

definition open_fds :: "net_act list \<Rightarrow> int list" where
  "open_fds as = foldl fd_step [] as"

text \<open>A program's argument: \<open>argv\<close> holds \<open>argc\<close> strings and a null pointer behind them.\<close>

definition arg :: "string list \<Rightarrow> nat \<Rightarrow> string res" where
  "arg argv i = (if i < length argv then Inr (argv ! i) else if i = length argv then Inl NullDeref else Inl OutOfBounds)"

text \<open>The start of a program and what follows it.\<close>

definition whole_run :: "net_act list \<times> int option \<Rightarrow> (int \<Rightarrow> net_act list) \<Rightarrow> net_act list" where
  "whole_run = (\<lambda>(as, r) body. case r of None \<Rightarrow> as | Some fd \<Rightarrow> as @ body fd)"

section \<open>Careful starts\<close>

locale careful_setup =
  fixes start :: "'e \<Rightarrow> (net_act list \<times> int option) res"
  assumes goes: "start e = Inr (as, Some fd) \<Longrightarrow> as = [Opened fd]"
    and stops: "start e = Inr (as, None) \<Longrightarrow> open_fds as = [] \<and> last as = Ended 1"
begin

text \<open>A program that closes its socket at the end leaves nothing open, however far it gets.\<close>

lemma run_closes:
  assumes "start e = Inr (as, r)"
  shows "open_fds (whole_run (as, r) (\<lambda>fd. [Closed fd, Ended n])) = []"
  using assms by (cases r) (auto simp: whole_run_def open_fds_def dest!: goes stops)

lemma run_status:
  assumes "start e = Inr (as, r)"
  shows "last (whole_run (as, r) (\<lambda>fd. [Closed fd, Ended n])) = Ended (if r = None then 1 else n)"
  using assms by (cases r) (auto simp: whole_run_def dest!: goes stops)

text \<open>A program that leaves without closing it leaves the socket open.\<close>

lemma run_leaks:
  assumes "start e = Inr (as, Some fd)"
  shows "open_fds (whole_run (as, Some fd) (\<lambda>fd. [Ended n])) = [fd]"
  using assms by (auto simp: whole_run_def open_fds_def dest!: goes)

end

section \<open>Lemmas\<close>

lemma open_fds_simps [simp]:
  "open_fds [] = []"
  "open_fds (as @ [a]) = fd_step (open_fds as) a"
  "open_fds [Ended n] = []"
  "open_fds [Opened fd, Closed fd, Ended n] = []"
  by (simp_all add: open_fds_def)

lemma arg_simps [simp]:
  "i < length argv \<Longrightarrow> arg argv i = Inr (argv ! i)"
  "arg argv i = Inr s \<longleftrightarrow> i < length argv \<and> s = argv ! i"
  by (auto simp: arg_def)

end
