(* ===== verification/Raw_Echo.thy ===== *)
theory Raw_Echo
  imports Raw_Udp Descriptors
begin

text \<open>
  Client and server of Additional Tasks, Task 1, as whole programs: the client's round with the
  buffer it leaves behind, the loops of both until a signal arrives, and the socket they
  open and close. The list of rounds says what the system does in each of them; the
  handler of the signals clears a flag, so that the loop ends with the round in which a
  signal arrives, which is the end of the list.

  A raw socket gets every UDP datagram that reaches the host, and both programs talk over the loopback address,
  so each of them gets the packets of both, its own included.

  Proved here: what a session over both programs shows and when, and that the client
  never gets over its closing message.
\<close>

section \<open>The client\<close>

text \<open>The result of \<open>recvfrom\<close> in a buffer of zeros, as bytes.\<close>

definition received :: "byte list \<Rightarrow> byte list" where
  "received d = take BUFFER_SIZE d @ replicate (BUFFER_SIZE - length (take BUFFER_SIZE d)) 0"

text \<open>
  One round: the line typed, then the datagram that arrives, if the message was sent. The result is
  the packet sent, the buffer and the console.
\<close>

definition client_round :: "bool \<Rightarrow> bool \<Rightarrow> byte list option \<Rightarrow> cbuf \<times> io \<Rightarrow> (byte list option \<times> cbuf \<times> io) res" where
  "client_round ok snd_ok datagram = (\<lambda>(buffer, w).
     bindE (fgets buffer BUFFER_SIZE (printf ''> '' w)) (\<lambda>(_, buffer, w).
     bindE (strcspn buffer [NL]) (\<lambda>k.
     bindE (aset buffer k NUL) (\<lambda>buffer.
     bindE (cstr buffer) (\<lambda>msg.
     if msg = [] then Inr (None, buffer, w)
     else bindE (client_packet ok msg) (\<lambda>packet.
       let w = printf (''Sending to '' @ inet_ntoa LOOPBACK @ '':'' @ show_nat (unat SERVER_PORT) @ [NL]) w
       in if \<not> snd_ok then Inr (None, buffer, w)
          else
            let w = printf (''Message sent successfully'' @ [NL]) w
            in case datagram of None \<Rightarrow> Inr (Some packet, replicate BUFFER_SIZE NUL, w)
               | Some d \<Rightarrow> bindE (client_reply (received d)) (\<lambda>r.
                   Inr (Some packet, chars_of (received d),
                     case r of None \<Rightarrow> w | Some t \<Rightarrow> printf (''Server reply: '' @ t @ [NL]) w))))))))"

text \<open>The packets sent in all rounds until a signal arrives.\<close>

fun client_rounds :: "(bool \<times> bool \<times> byte list option) list \<Rightarrow> cbuf \<times> io \<Rightarrow> (byte list list \<times> cbuf \<times> io) res" where
  "client_rounds [] x = Inr ([], x)"
| "client_rounds ((ok, snd_ok, d) # rs) x =
     bindE (client_round ok snd_ok d x) (\<lambda>(p, x). bindE (client_rounds rs x) (\<lambda>(ps, x).
     Inr ((case p of None \<Rightarrow> ps | Some p \<Rightarrow> p # ps), x)))"

section \<open>The socket\<close>

text \<open>The same lines in both programs: the actions, and the descriptor if the program goes on.\<close>

definition raw_setup :: "int \<Rightarrow> int \<Rightarrow> net_act list \<times> int option" where
  "raw_setup ret_socket ret_option =
     (if ret_socket < 0 then ([Ended 1], None)
      else if ret_option < 0 then ([Opened ret_socket, Closed ret_socket, Ended 1], None)
      else ([Opened ret_socket], Some ret_socket))"

definition server_main :: "int \<Rightarrow> int \<Rightarrow> (bool \<times> bool \<times> byte list option) list \<Rightarrow> io \<Rightarrow> (net_act list \<times> server) res" where
  "server_main ret_socket ret_option rs w =
     (let s = init_server\<lparr>log := printf (''Starting server on port '' @ show_nat (unat SERVER_PORT) @ [NL]) w\<rparr>
      in case raw_setup ret_socket ret_option of (as, None) \<Rightarrow> Inr (as, s)
         | (as, Some fd) \<Rightarrow>
             bindE (server_rounds rs (s\<lparr>log := printf (''Server started. Waiting for messages...'' @ [NL]) (log s)\<rparr>)) (\<lambda>s.
             Inr (as @ [Closed fd, Ended 0], s\<lparr>log := printf (''Server stopped.'' @ [NL]) (log s)\<rparr>)))"

text \<open>\<open>ok\<close> and \<open>snd_ok\<close>: \<open>malloc\<close> and \<open>sendto\<close> for the closing message.\<close>

definition client_main :: "int \<Rightarrow> int \<Rightarrow> (bool \<times> bool \<times> byte list option) list \<Rightarrow> bool \<Rightarrow> bool \<Rightarrow> cbuf \<Rightarrow> io
    \<Rightarrow> (net_act list \<times> byte list list \<times> io) res" where
  "client_main ret_socket ret_option rs ok snd_ok buffer w =
     (let w = printf (''Connecting to server '' @ inet_ntoa LOOPBACK @ '':'' @ show_nat (unat SERVER_PORT)
            @ '' from port '' @ show_nat (unat CLIENT_PORT) @ [NL]) w
      in case raw_setup ret_socket ret_option of (as, None) \<Rightarrow> Inr (as, [], w)
         | (as, Some fd) \<Rightarrow>
             bindE (client_rounds rs (buffer, printf (''Client started. Type messages to send to server...'' @ [NL]) w)) (\<lambda>(ps, _, w).
             bindE (send_close_message ok) (\<lambda>p.
             let w = (if snd_ok then printf (''Sent close message to '' @ inet_ntoa LOOPBACK @ '':''
                   @ show_nat (unat SERVER_PORT) @ [NL]) w else w)
             in Inr (as @ [Closed fd, Ended 0], (if snd_ok then ps @ [p] else ps),
                  printf (''Client stopped.'' @ [NL]) w))))"

section \<open>Both programs on one host\<close>

text \<open>The datagrams that wait at the two raw sockets, the server, and the client's buffer and console.\<close>

record raw_net =
  to_client :: "byte list list"
  to_server :: "byte list list"
  echo_srv :: server
  line_buf :: cbuf
  term_io :: io

text \<open>
  A round of the client: its own packet waits behind what was there before, and it takes the
  first. (What it sends does not depend on what it then receives.)
\<close>

definition client_turn :: "raw_net \<Rightarrow> raw_net res" where
  "client_turn n =
     bindE (client_round True True None (line_buf n, term_io n)) (\<lambda>(p, b, w).
     case p of None \<Rightarrow> Inr (n\<lparr>line_buf := b, term_io := w\<rparr>)
     | Some p \<Rightarrow>
         let q = to_client n @ [p]
         in bindE (client_round True True (Some (hd q)) (line_buf n, term_io n)) (\<lambda>(_, b, w).
            Inr (n\<lparr>to_client := tl q, to_server := to_server n @ [p], line_buf := b, term_io := w\<rparr>)))"

text \<open>A round of the server; it waits if there is no datagram.\<close>

definition server_turn :: "raw_net \<Rightarrow> raw_net res" where
  "server_turn n =
     (case to_server n of [] \<Rightarrow> Inr n
      | d # ds \<Rightarrow> bindE (server_round True True (Some d) (echo_srv n)) (\<lambda>s.
          let new = map (\<lambda>(_, _, p). p) (drop (length (sent (echo_srv n))) (sent s))
          in Inr (n\<lparr>to_server := ds @ new, to_client := to_client n @ new, echo_srv := s\<rparr>)))"

text \<open>The client sends a line, and the server deals with the packet and with its own reply.\<close>

fun echo_rounds :: "nat \<Rightarrow> raw_net \<Rightarrow> raw_net res" where
  "echo_rounds 0 n = Inr n"
| "echo_rounds (Suc k) n = bindE (client_turn n) (\<lambda>n. bindE (server_turn n) (\<lambda>n. bindE (server_turn n) (echo_rounds k)))"

section \<open>Lemmas\<close>

text \<open>The start of both programs keeps the contract of a start.\<close>

interpretation raw_start: careful_setup "\<lambda>(ret_socket, ret_option). Inr (raw_setup ret_socket ret_option)"
  by unfold_locales (auto simp: raw_setup_def split: if_splits)

text \<open>What a round prints before it looks at a datagram.\<close>

definition round_text :: string where
  "round_text = ''> '' @ ''Sending to '' @ inet_ntoa LOOPBACK @ '':'' @ show_nat (unat SERVER_PORT) @ [NL] @ ''Message sent successfully'' @ [NL]"

definition shown_reply :: "string option \<Rightarrow> string" where
  "shown_reply t = (case t of None \<Rightarrow> [] | Some t \<Rightarrow> ''Server reply: '' @ t @ [NL])"

text \<open>A line typed at the client.\<close>

lemma client_line:
  assumes "stdin w = l @ NL # r" and "NL \<notin> set l" and "NUL \<notin> set l" and "length l < 1022" and "length buffer = BUFFER_SIZE"
    and "l \<noteq> []" and "client_packet True l = Inr p"
  shows "\<exists>b w'. client_round True True None (buffer, w) = Inr (Some p, b, w')"
    and "client_reply (received d) = Inr t \<Longrightarrow>
      client_round True True (Some d) (buffer, w) = Inr (Some p, chars_of (received d), w\<lparr>stdin := r, stdout := stdout w @ round_text @ shown_reply t\<rparr>)"
proof -
  let ?w = "printf ''> '' w" and ?b = "l @ NL # NUL # drop (Suc (Suc (length l))) buffer"
  have f: "fgets buffer BUFFER_SIZE ?w = Inr (True, ?b, ?w\<lparr>stdin := r\<rparr>)"
    using assms by (intro fgets_newline) (simp_all add: printf_def BUFFER_SIZE_def)
  have "cstr ?b = Inr (l @ [NL])" using takeWhile_until [of NUL "l @ [NL]"] assms(3) by (simp add: cstr_def)
  then have k: "strcspn ?b [NL] = Inr (int (length l))" using assms(2) by (simp add: strcspn_def)
  have "aset ?b (int (length l)) NUL = Inr (?b[length l := NUL])" by (rule aset_nth) simp
  moreover have "?b[length l := NUL] = l @ NUL # NUL # drop (Suc (Suc (length l))) buffer" by (simp add: list_update_append)
  ultimately have a: "aset ?b (int (length l)) NUL = Inr (l @ NUL # NUL # drop (Suc (Suc (length l))) buffer)" by simp
  have c: "cstr (l @ NUL # NUL # drop (Suc (Suc (length l))) buffer) = Inr l" using assms(3) by (rule cstr_text)
  show "\<exists>b w'. client_round True True None (buffer, w) = Inr (Some p, b, w')"
    using f k a c assms(6,7) by (simp add: client_round_def Let_def)
  show "client_round True True (Some d) (buffer, w) = Inr (Some p, chars_of (received d), w\<lparr>stdin := r, stdout := stdout w @ round_text @ shown_reply t\<rparr>)"
    if "client_reply (received d) = Inr t"
    using f k a c assms(6,7) that
    by (cases t) (simp_all add: client_round_def Let_def printf_def round_text_def shown_reply_def)
qed

text \<open>The number of messages the table holds for a client, and whether it can be served.\<close>

definition count_of :: "server \<Rightarrow> 32 word \<times> 16 word \<Rightarrow> int" where
  "count_of s k = (case tbl (clients s) k of None \<Rightarrow> 0 | Some n \<Rightarrow> n)"

definition served :: "server \<Rightarrow> 32 word \<times> 16 word \<Rightarrow> bool" where
  "served s k = (table_inv (clients s) \<and> k \<noteq> (0, 0) \<and> (tbl (clients s) k = None \<longrightarrow> has_free (clients s)))"

definition echo_text :: "string \<Rightarrow> int \<Rightarrow> string" where
  "echo_text l n = l @ '' '' @ show_int n"

lemma served_answer:
  assumes "served s (from_ip r, ntohs (from_port r))" and "payload r \<noteq> ''CLOSE_CONNECTION''"
  shows "\<exists>i cs. handle_request ok snd_ok r s = answer ok snd_ok r i cs s
    \<and> seen (cs ! i) = count_of s (from_ip r, ntohs (from_port r))"
proof -
  let ?k = "(from_ip r, ntohs (from_port r))"
  have inv: "table_inv (clients s)" "?k \<noteq> (0, 0)" using assms(1) by (simp_all add: served_def)
  note look = lookup_or_add_tbl [OF inv]
  show ?thesis
  proof (cases "tbl (clients s) ?k")
    case None
    with look assms(1) obtain i cs where
      "lookup_or_add (clients s) (from_ip r) (ntohs (from_port r)) = (Some i, cs)" "seen (cs ! i) = 0"
      by (auto simp: served_def)
    with None assms(2) show ?thesis by (auto simp: handle_request_def Let_def count_of_def)
  next
    case (Some n)
    with look obtain i where
      "lookup_or_add (clients s) (from_ip r) (ntohs (from_port r)) = (Some i, clients s)" "seen (clients s ! i) = n" by auto
    with Some assms(2) show ?thesis by (auto simp: handle_request_def Let_def count_of_def)
  qed
qed

text \<open>A client that is served is served again, with a counter raised by one.\<close>

lemma served_again:
  assumes "served s (sender q)" and "payload q \<noteq> ''CLOSE_CONNECTION''" and "handle_request ok snd_ok q s = Inr s'"
  shows "served s' (sender q) \<and> count_of s' (sender q) = count_of s (sender q) + 1"
proof -
  from assms(1) have inv: "table_inv (clients s)" "sender q \<noteq> (0, 0)" by (simp_all add: served_def)
  from handle_request_tbl [OF inv assms(3)] assms(1,2) have "tbl (clients s') (sender q) = Some (count_of s (sender q) + 1)"
    by (auto simp: served_def count_of_def split: option.splits)
  with handle_request_inv [OF assms(3) inv(1)] inv(2) show ?thesis by (simp add: served_def count_of_def)
qed

text \<open>What the server sends back for a request it answers.\<close>

lemma served_reply:
  fixes l n defines "t \<equiv> echo_text l n"
  assumes "served s (from_ip r, ntohs (from_port r))" and "payload r = l" and "l \<noteq> ''CLOSE_CONNECTION''"
    and "n = count_of s (from_ip r, ntohs (from_port r)) + 1" and "in_int n" and "odd (length t)" and "length t \<le> 995"
  shows "\<exists>s' c u. handle_request True True r s = Inr s'
    \<and> sent s' = sent s @ [(from_ip r, from_port r, layout (htons 54321) c (to_ip r) (from_ip r) (to_port r) (from_port r) t u)]"
proof -
  from served_answer [OF assms(2)] assms(3,4) obtain i cs where
    a: "handle_request True True r s = answer True True r i cs s" "seen (cs ! i) + 1 = n" using assms(5) by metis
  have t: "reply_text (payload r) n = t" using assms(3,8) by (simp add: reply_text_def t_def echo_text_def BUFFER_SIZE_def)
  from make_packet_odd [OF assms(7,8)] obtain c u where
    "make_packet True (htons 54321) (to_ip r) (from_ip r) (to_port r) (from_port r) t
      = Inr (layout (htons 54321) c (to_ip r) (from_ip r) (to_port r) (from_port r) t u)" by blast
  with a t assms(6) show ?thesis by (auto simp: answer_def c_int_def Let_def)
qed

lemma received_layout:
  assumes "NUL \<notin> set t" and "length t \<le> 995"
  shows "client_reply (received (layout i c sa da so (htons CLIENT_PORT) t u)) = Inr (Some t)"
proof -
  have "take BUFFER_SIZE (layout i c sa da so (htons CLIENT_PORT) t u) = layout i c sa da so (htons CLIENT_PORT) t u"
    using assms(2) by (simp add: BUFFER_SIZE_def)
  then show ?thesis unfolding received_def using client_reply_layout [OF assms(1)] by simp
qed

text \<open>Packets for the other program, and its own, are put aside.\<close>

lemma received_layout_server:
  assumes "length t \<le> 995"
  shows "client_reply (received (layout i c sa da so (htons SERVER_PORT) t u)) = Inr None"
proof -
  let ?p = "layout i c sa da so (htons SERVER_PORT) t u"
  have "take BUFFER_SIZE ?p = ?p" using assms by (simp add: BUFFER_SIZE_def)
  moreover have "client_reply (?p @ b) = Inr None" for b
  proof -
    let ?t = "htons (of_nat (29 + length t)) :: 16 word" and ?l = "htons (of_nat (9 + length t)) :: 16 word"
    have "?p @ b = ip_header ?t i c sa da @ udp_header so (htons SERVER_PORT) ?l u @ bytes_of t @ 0 # b" by (simp add: layout_def)
    then show ?thesis by (simp add: client_reply_def Let_def header_fields CLIENT_PORT_def SERVER_PORT_def)
  qed
  ultimately show ?thesis unfolding received_def by simp
qed

lemma server_round_own:
  assumes "length t \<le> 995"
  shows "server_round ok snd_ok (Some (layout i c sa da so (htons CLIENT_PORT) t u)) s = Inr s"
proof -
  let ?p = "layout i c sa da so (htons CLIENT_PORT) t u"
  have "take BUFFER_SIZE ?p = ?p" using assms by (simp add: BUFFER_SIZE_def)
  moreover have "parse (?p @ b) = Inr None" for b
  proof -
    let ?t = "htons (of_nat (29 + length t)) :: 16 word" and ?l = "htons (of_nat (9 + length t)) :: 16 word"
    have "?p @ b = ip_header ?t i c sa da @ udp_header so (htons CLIENT_PORT) ?l u @ bytes_of t @ 0 # b" by (simp add: layout_def)
    then show ?thesis by (simp add: parse_def Let_def header_fields CLIENT_PORT_def SERVER_PORT_def)
  qed
  ultimately show ?thesis by (simp add: server_round_def Let_def)
qed

text \<open>The server's reply to the line \<open>l\<close>, and what it leaves behind.\<close>

definition good_echo :: "string \<Rightarrow> int \<Rightarrow> bool" where
  "good_echo l n = (NL \<notin> set l \<and> NUL \<notin> set l \<and> odd (length l) \<and> in_int n \<and> odd (length (echo_text l n)) \<and> length (echo_text l n) \<le> 995)"

lemma server_echoes:
  assumes "served s (LOOPBACK, CLIENT_PORT)" and "n = count_of s (LOOPBACK, CLIENT_PORT) + 1" and "good_echo l n"
    and "p = layout (htons 12345) c LOOPBACK LOOPBACK (htons CLIENT_PORT) (htons SERVER_PORT) l u"
  shows "\<exists>s' q. server_round True True (Some p) s = Inr s' \<and> served s' (LOOPBACK, CLIENT_PORT) \<and> count_of s' (LOOPBACK, CLIENT_PORT) = n
    \<and> sent s' = sent s @ [(LOOPBACK, htons CLIENT_PORT, q)] \<and> client_reply (received q) = Inr (Some (echo_text l n))
    \<and> (\<forall>s. server_round True True (Some q) s = Inr s)"
proof -
  let ?r = "\<lparr>from_ip = LOOPBACK, to_ip = LOOPBACK, from_port = htons CLIENT_PORT, to_port = htons SERVER_PORT, payload = l\<rparr>"
  have len: "length l \<le> 995" "length (echo_text l n) \<le> 995" and nn: "NUL \<notin> set l"
    using assms(3) by (auto simp: good_echo_def echo_text_def)
  have "even (length ''CLOSE_CONNECTION'')" by simp
  then have l: "l \<noteq> ''CLOSE_CONNECTION''" using assms(3) unfolding good_echo_def by metis
  obtain s' c' u' where s': "handle_request True True ?r s = Inr s'"
    "sent s' = sent s @ [(LOOPBACK, htons CLIENT_PORT, layout (htons 54321) c' LOOPBACK LOOPBACK (htons SERVER_PORT) (htons CLIENT_PORT) (echo_text l n) u')]"
    using served_reply [of s ?r l n] l assms(1-3) by (auto simp: good_echo_def)
  have "sender ?r = (LOOPBACK, CLIENT_PORT)" by (simp add: sender_def)
  with served_again [of s ?r, OF _ _ s'(1)] assms(1,2) l have "served s' (LOOPBACK, CLIENT_PORT)" "count_of s' (LOOPBACK, CLIENT_PORT) = n"
    by simp_all
  moreover have "server_round True True (Some p) s = Inr s'" using s'(1) server_round_layout [OF len(1) nn] assms(4) by metis
  moreover have "NUL \<notin> set (echo_text l n)" using nn show_int_no_NUL by (simp add: echo_text_def NUL_def)
  note received_layout [OF this len(2)] server_round_own [OF len(2)]
  ultimately show ?thesis using s'(2) by blast
qed

text \<open>
  One round of a session. The texts the waiting packets stand for are \<open>ts\<close>, where a packet that is
  not for the client stands for \<open>None\<close>.
\<close>

definition waits :: "raw_net \<Rightarrow> string option list \<Rightarrow> bool" where
  "waits n ts = (map (\<lambda>d. client_reply (received d)) (to_client n) = map Inr ts)"

lemma echo_round:
  assumes "stdin (term_io n) = l @ NL # r" and "length (line_buf n) = BUFFER_SIZE" and "to_server n = []" and "waits n ts"
    and "served (echo_srv n) (LOOPBACK, CLIENT_PORT)" and "c = count_of (echo_srv n) (LOOPBACK, CLIENT_PORT) + 1" and "good_echo l c"
  shows "\<exists>m. echo_rounds (Suc k) n = echo_rounds k m
    \<and> term_io m = (term_io n)\<lparr>stdin := r, stdout := stdout (term_io n) @ round_text @ shown_reply (hd (ts @ [None]))\<rparr>
    \<and> length (line_buf m) = BUFFER_SIZE \<and> to_server m = [] \<and> waits m (tl (ts @ [None]) @ [Some (echo_text l c)])
    \<and> served (echo_srv m) (LOOPBACK, CLIENT_PORT) \<and> count_of (echo_srv m) (LOOPBACK, CLIENT_PORT) = c"
proof -
  have l: "NL \<notin> set l" "NUL \<notin> set l" "odd (length l)" "length l \<le> 995" "length l < 1022" "l \<noteq> []"
    using assms(7) by (auto simp: good_echo_def echo_text_def)
  from make_packet_odd [OF l(3,4)] obtain x u where
    p: "client_packet True l = Inr (layout (htons 12345) x LOOPBACK LOOPBACK (htons CLIENT_PORT) (htons SERVER_PORT) l u)"
    unfolding client_packet_def by blast
  let ?p = "layout (htons 12345) x LOOPBACK LOOPBACK (htons CLIENT_PORT) (htons SERVER_PORT) l u"
  let ?d = "hd (to_client n @ [?p])" and ?w = "(term_io n)\<lparr>stdin := r, stdout := stdout (term_io n) @ round_text @ shown_reply (hd (ts @ [None]))\<rparr>"
  note line = client_line [OF assms(1) l(1,2,5) assms(2) l(6) p]
  have own: "client_reply (received ?p) = Inr None" by (rule received_layout_server [OF l(4)])
  have w: "map (\<lambda>d. client_reply (received d)) (to_client n @ [?p]) = map Inr (ts @ [None])"
    using assms(4) own by (simp add: waits_def)
  have "client_reply (received ?d) = hd (map (\<lambda>d. client_reply (received d)) (to_client n @ [?p]))"
    by (subst hd_map) simp_all
  also have "\<dots> = Inr (hd (ts @ [None]))" unfolding w by (rule hd_map) simp
  finally have "client_reply (received ?d) = Inr (hd (ts @ [None]))" .
  note line2 = line(2) [OF this]
  let ?n = "n\<lparr>to_client := tl (to_client n @ [?p]), to_server := [?p], line_buf := chars_of (received ?d), term_io := ?w\<rparr>"
  have t: "client_turn n = Inr ?n" using line(1) line2 assms(3) by (auto simp: client_turn_def Let_def)
  from server_echoes [OF assms(5,6,7) refl, of x u] obtain s' q where
    s: "server_round True True (Some ?p) (echo_srv n) = Inr s'" "served s' (LOOPBACK, CLIENT_PORT)" "count_of s' (LOOPBACK, CLIENT_PORT) = c"
      "sent s' = sent (echo_srv n) @ [(LOOPBACK, htons CLIENT_PORT, q)]" "client_reply (received q) = Inr (Some (echo_text l c))"
      "\<forall>s. server_round True True (Some q) s = Inr s" by blast
  let ?m = "?n\<lparr>to_server := [], to_client := tl (to_client n @ [?p]) @ [q], echo_srv := s'\<rparr>"
  have "server_turn ?n = Inr (?m\<lparr>to_server := [q]\<rparr>)" using s(1,4) by (simp add: server_turn_def Let_def)
  moreover have "server_turn (?m\<lparr>to_server := [q]\<rparr>) = Inr ?m" using s(6) by (simp add: server_turn_def)
  ultimately have "echo_rounds (Suc k) n = echo_rounds k ?m" using t by simp
  moreover have "map (\<lambda>d. client_reply (received d)) (tl (to_client n @ [?p])) = map Inr (tl (ts @ [None]))"
    using arg_cong [OF w, of tl] by (simp only: map_tl)
  then have "waits ?m (tl (ts @ [None]) @ [Some (echo_text l c)])" using s(5) by (simp add: waits_def)
  moreover have "length (chars_of (received ?d)) = BUFFER_SIZE" by (simp add: received_def chars_of_def)
  ultimately show ?thesis using s(2,3) by (intro exI [of _ ?m]) simp
qed

text \<open>The echoes of some lines, the first of them with the number \<open>c + 1\<close>.\<close>

fun echoes :: "int \<Rightarrow> string list \<Rightarrow> string list" where
  "echoes c [] = []"
| "echoes c (l # ls) = echo_text l (c + 1) # echoes (c + 1) ls"

fun good_lines :: "int \<Rightarrow> string list \<Rightarrow> bool" where
  "good_lines c [] = True"
| "good_lines c (l # ls) = (good_echo l (c + 1) \<and> good_lines (c + 1) ls)"

lemma echo_session:
  assumes "stdin (term_io n) = concat (map (\<lambda>l. l @ [NL]) ls) @ r" and "length (line_buf n) = BUFFER_SIZE" and "to_server n = []"
    and "waits n ts" and "served (echo_srv n) (LOOPBACK, CLIENT_PORT)" and "c = count_of (echo_srv n) (LOOPBACK, CLIENT_PORT)"
    and "good_lines c ls"
  shows "\<exists>m. echo_rounds (length ls) n = Inr m \<and> length (to_client m) = length ts + length ls
    \<and> count_of (echo_srv m) (LOOPBACK, CLIENT_PORT) = c + int (length ls)
    \<and> stdout (term_io m) = stdout (term_io n) @ concat (map (\<lambda>t. round_text @ shown_reply t)
        (take (length ls) (ts @ concat (map (\<lambda>t. [None, Some t]) (echoes c ls)))))"
  using assms
proof (induction ls arbitrary: n ts c)
  case Nil
  then show ?case using map_eq_imp_length_eq by (fastforce simp: waits_def)
next
  case (Cons l ls)
  let ?r = "concat (map (\<lambda>l. l @ [NL]) ls) @ r" and ?ts = "tl (ts @ [None]) @ [Some (echo_text l (c + 1))]"
  have in': "stdin (term_io n) = l @ NL # ?r" and g: "good_echo l (c + 1)" "good_lines (c + 1) ls" and c: "c + 1 = count_of (echo_srv n) (LOOPBACK, CLIENT_PORT) + 1"
    using Cons.prems(1,6,7) by simp_all
  from echo_round [OF in' Cons.prems(2-5) c g(1), of "length ls"] obtain m where
    m: "echo_rounds (Suc (length ls)) n = echo_rounds (length ls) m"
      "term_io m = (term_io n)\<lparr>stdin := ?r, stdout := stdout (term_io n) @ round_text @ shown_reply (hd (ts @ [None]))\<rparr>"
      "length (line_buf m) = BUFFER_SIZE" "to_server m = []" "waits m ?ts" "served (echo_srv m) (LOOPBACK, CLIENT_PORT)"
      "count_of (echo_srv m) (LOOPBACK, CLIENT_PORT) = c + 1" by blast
  have "stdin (term_io m) = ?r" using m(2) by simp
  from Cons.IH [OF this m(3-6) m(7) [symmetric] g(2)] obtain k where
    k: "echo_rounds (length ls) m = Inr k" "length (to_client k) = length ?ts + length ls"
      "count_of (echo_srv k) (LOOPBACK, CLIENT_PORT) = c + 1 + int (length ls)"
      "stdout (term_io k) = stdout (term_io m) @ concat (map (\<lambda>t. round_text @ shown_reply t)
        (take (length ls) (?ts @ concat (map (\<lambda>t. [None, Some t]) (echoes (c + 1) ls)))))" by blast
  have "ts @ concat (map (\<lambda>t. [None, Some t]) (echoes c (l # ls))) = hd (ts @ [None]) # ?ts @ concat (map (\<lambda>t. [None, Some t]) (echoes (c + 1) ls))"
    by (cases ts) simp_all
  then have "take (length (l # ls)) (ts @ concat (map (\<lambda>t. [None, Some t]) (echoes c (l # ls))))
      = hd (ts @ [None]) # take (length ls) (?ts @ concat (map (\<lambda>t. [None, Some t]) (echoes (c + 1) ls)))"
    by (simp only: length_Cons take_Suc_Cons)
  note out = this
  have "stdout (term_io k) = stdout (term_io n) @ concat (map (\<lambda>t. round_text @ shown_reply t)
      (take (length (l # ls)) (ts @ concat (map (\<lambda>t. [None, Some t]) (echoes c (l # ls))))))"
    unfolding out k(4) m(2) by simp
  moreover have "echo_rounds (length (l # ls)) n = Inr k" using m(1) k(1) by (simp del: echo_rounds.simps)
  moreover have "length (to_client k) = length ts + length (l # ls)" using k(2) by simp
  moreover have "count_of (echo_srv k) (LOOPBACK, CLIENT_PORT) = c + int (length (l # ls))" using k(3) by simp
  ultimately show ?case by blast
qed

lemma init_served: "served init_server (LOOPBACK, CLIENT_PORT) \<and> count_of init_server (LOOPBACK, CLIENT_PORT) = 0"
proof -
  have "has_free (clients init_server)" "tbl (clients init_server) (LOOPBACK, CLIENT_PORT) = None"
    by (auto simp: has_free_def init_server_def zero_client_def key_def tbl_def find_None_iff LOOPBACK_def MAX_CLIENTS_def)
  moreover have "(LOOPBACK, CLIENT_PORT) \<noteq> (0, 0)" by (simp add: LOOPBACK_def)
  ultimately show ?thesis using init_server_inv by (simp add: served_def count_of_def)
qed

section \<open>Properties\<close>

text \<open>
  C27: A session of both programs of Task 1 on one host, where each raw socket gets the packets of both: every line
  is counted and echoed by the server, but the client shows nothing in its first round, in which it receives its own
  packet, and the echo of the k-th line only in round 2 k, so that after n lines only the first half of the
  echoes has been shown and n packets wait unread. This holds for lines of odd length whose echo, the line and its number, has an odd
  length of at most 995, if the server has room for the client, deals with the packets of a round before the next line is
  typed, no call fails and there is no other UDP traffic.
\<close>

theorem raw_echo:
  assumes "stdin (term_io n) = concat (map (\<lambda>l. l @ [NL]) ls) @ r" and "length (line_buf n) = BUFFER_SIZE"
    and "to_server n = []" and "to_client n = []"
    and "served (echo_srv n) (LOOPBACK, CLIENT_PORT)" and "c = count_of (echo_srv n) (LOOPBACK, CLIENT_PORT)" and "good_lines c ls"
  shows "\<exists>m. echo_rounds (length ls) n = Inr m \<and> length (to_client m) = length ls
    \<and> count_of (echo_srv m) (LOOPBACK, CLIENT_PORT) = c + int (length ls)
    \<and> stdout (term_io m) = stdout (term_io n) @ concat (map (\<lambda>t. round_text @ shown_reply t)
        (take (length ls) (concat (map (\<lambda>t. [None, Some t]) (echoes c ls)))))"
  using echo_session [OF assms(1-3) _ assms(5-7), of "[]"] assms(4) by (simp add: waits_def)

text \<open>Three lines: the second round shows the echo of the first.\<close>

theorem raw_echo_witness:
  "\<exists>m. echo_rounds 3 \<lparr>to_client = [], to_server = [], echo_srv = init_server, line_buf = replicate BUFFER_SIZE NUL,
        term_io = console (''abc'' @ [NL] @ ''x'' @ [NL] @ ''hello'' @ [NL])\<rparr> = Inr m
    \<and> length (to_client m) = 3
    \<and> count_of (echo_srv m) (LOOPBACK, CLIENT_PORT) = 3
    \<and> stdout (term_io m) = round_text @ (round_text @ ''Server reply: abc 1'' @ [NL]) @ round_text"
proof -
  let ?n = "\<lparr>to_client = [], to_server = [], echo_srv = init_server, line_buf = replicate BUFFER_SIZE NUL,
    term_io = console (''abc'' @ [NL] @ ''x'' @ [NL] @ ''hello'' @ [NL])\<rparr>" and ?ls = "[''abc'', ''x'', ''hello'']"
  have n: "show_int 1 = ''1''" "show_int 2 = ''2''" "show_int 3 = ''3''" by code_simp+
  have "good_lines 0 ?ls" by (simp add: good_echo_def echo_text_def n NL_def NUL_def c_arith)
  with init_served have "\<exists>m. echo_rounds (length ?ls) ?n = Inr m \<and> length (to_client m) = length ?ls
    \<and> count_of (echo_srv m) (LOOPBACK, CLIENT_PORT) = 0 + int (length ?ls)
    \<and> stdout (term_io m) = stdout (term_io ?n) @ concat (map (\<lambda>t. round_text @ shown_reply t)
        (take (length ?ls) (concat (map (\<lambda>t. [None, Some t]) (echoes 0 ?ls)))))"
    by (intro raw_echo [where r = "[]"]) (simp_all add: console_def)
  then show ?thesis
    by (simp add: console_def echo_text_def shown_reply_def n numeral_3_eq_3 del: echo_rounds.simps)
qed

text \<open>
  The client of Task 1 never stops properly: once it has its socket and a signal has
  ended its loop, its closing message, which has an even length, makes the checksum read behind its
  buffer. Without its socket it leaves with status 1, and no descriptor stays open.
\<close>

theorem raw_client_close_faults:
  assumes "0 \<le> ret_socket" and "client_rounds rs (buffer, w') = Inr (ps, x)"
    and "w' = printf (''Client started. Type messages to send to server...'' @ [NL]) (printf (''Connecting to server '' @ inet_ntoa LOOPBACK @ '':''
      @ show_nat (unat SERVER_PORT) @ '' from port '' @ show_nat (unat CLIENT_PORT) @ [NL]) w)"
  shows "if ret_option < 0
    then \<exists>as w2. client_main ret_socket ret_option rs True snd_ok buffer w = Inr (as, [], w2) \<and> last as = Ended 1 \<and> open_fds as = []
    else client_main ret_socket ret_option rs True snd_ok buffer w = Inl OutOfBounds"
proof -
  have "even (length ''CLOSE_CONNECTION'')" by simp
  then have "send_close_message True = Inl OutOfBounds"
    unfolding send_close_message_def client_packet_def by (rule make_packet_even)
  with assms show ?thesis by (cases x) (auto simp: client_main_def raw_setup_def Let_def)
qed

end
