(* ===== verification/Taxi.thy ===== *)
theory Taxi
  imports C_Stdio
begin

text \<open>
  The taxi dispatcher of Additional Tasks, Task 2 (\<open>structs.h\<close>, \<open>cli.c\<close>, \<open>main.c\<close>): one
  command-line process with a table of drivers, one process per driver with a timer, and
  message queues between them. The functions of the code are functions here; the processes
  together are a step relation in which any process may move next. The operating system
  gives the process ids and the queue ids; a message that is sent is delivered, in order. The queues
  outlive the processes: at the start they may hold messages of an earlier run, and drivers that an earlier run has left
  behind may still send. Their process ids are the set \<open>old\<close>.
  Proved here: a driver is busy exactly while it holds a timer, the table agrees with the
  drivers once the pending messages are read, a task of no length blocks its driver for
  good, and commands are read as they were written.
\<close>

section \<open>Data\<close>

definition MAX_DRIVERS :: nat where "MAX_DRIVERS = 50"
definition CLI_QUEUE_KEY :: int where "CLI_QUEUE_KEY = 0x1234"
definition BASE_DRIVER_KEY :: int where "BASE_DRIVER_KEY = 0x5678"

datatype DriverStatus = AVAILABLE | BUSY

datatype MessageType = REGISTER | TASK | STATUS_REQ | STATUS_RESP | STATUS_UPDATE | BUSY_RESP

record driver_msg =
  mtype :: int
  type_of :: MessageType
  msg_pid :: int
  data :: int

record DriverInfo =
  pid :: int
  status :: DriverStatus
  remaining_time :: int
  message_queue_id :: int

section \<open>The table of the command line\<close>

text \<open>The rows of \<open>drivers\<close> below \<open>num_drivers\<close>.\<close>

fun find_row :: "DriverInfo list \<Rightarrow> int \<Rightarrow> nat \<Rightarrow> nat option" where
  "find_row [] p i = None"
| "find_row (d # ds) p i = (if pid d = p then Some i else find_row ds p (Suc i))"

definition find_driver :: "DriverInfo list \<Rightarrow> int \<Rightarrow> nat option" where
  "find_driver ds p = find_row ds p 0"

definition update_driver_status :: "int \<Rightarrow> bool \<Rightarrow> int \<Rightarrow> DriverInfo list \<Rightarrow> DriverInfo list" where
  "update_driver_status p busy remaining ds =
     (case find_driver ds p of None \<Rightarrow> ds
      | Some i \<Rightarrow> ds[i := (ds ! i)\<lparr>status := if busy then BUSY else AVAILABLE, remaining_time := remaining\<rparr>])"

definition status_text :: "DriverInfo \<Rightarrow> string" where
  "status_text d =
     (if status d = BUSY then ''Busy ('' @ show_int (remaining_time d) @ '' sec left)'' @ [NL] else ''Available'' @ [NL])"

definition get_status :: "int \<Rightarrow> DriverInfo list \<Rightarrow> io \<Rightarrow> io" where
  "get_status p ds w =
     (case find_driver ds p of
        None \<Rightarrow> printf (''Driver '' @ show_int p @ '' not found'' @ [NL]) w
      | Some i \<Rightarrow> printf (''Driver '' @ show_int p @ '' status: '' @ status_text (ds ! i)) w)"

definition get_drivers :: "DriverInfo list \<Rightarrow> io \<Rightarrow> io" where
  "get_drivers ds w =
     fold (\<lambda>d w. printf (''Driver PID: '' @ show_int (pid d) @ '', Status: '' @ status_text d) w) ds w"

text \<open>
  The switch on a message from the queue of the command line. \<open>msgget\<close> gives the id of the
  queue with a key.
\<close>

definition handle_msg :: "(int \<Rightarrow> int) \<Rightarrow> driver_msg \<Rightarrow> DriverInfo list \<times> io \<Rightarrow> DriverInfo list \<times> io" where
  "handle_msg msgget m = (\<lambda>(ds, w).
     if type_of m = REGISTER then
       let w = printf (''Received REGISTER for PID '' @ show_int (msg_pid m) @ [NL]) w
       in if length ds < MAX_DRIVERS
          then (ds @ [\<lparr>pid = msg_pid m, status = AVAILABLE, remaining_time = 0, message_queue_id = msgget (data m)\<rparr>],
                printf (''Driver '' @ show_int (msg_pid m) @ '' registered'' @ [NL]) w)
          else (ds, w)
     else if type_of m = STATUS_UPDATE then (update_driver_status (msg_pid m) (data m > 0) (data m) ds, w)
     else if type_of m = BUSY_RESP then
       (ds, printf (''Driver '' @ show_int (msg_pid m) @ '' is busy ('' @ show_int (data m) @ '' sec left)'' @ [NL]) w)
     else (ds, w))"

section \<open>A driver\<close>

text \<open>
  The loop of the child process. \<open>timer_fd\<close> is \<open>None\<close> for -1; otherwise it says whether the
  timer is armed: \<open>timerfd_settime\<close> does not arm a timer for zero seconds and refuses a
  negative time.
\<close>

record driver =
  dpid :: int
  busy :: bool
  remaining :: int
  timer_fd :: "bool option"
  mq_id :: int

definition to_cli :: "driver \<Rightarrow> MessageType \<Rightarrow> int \<Rightarrow> driver_msg" where
  "to_cli d t x = \<lparr>mtype = 1, type_of = t, msg_pid = dpid d, data = x\<rparr>"

definition driver_recv :: "driver_msg \<Rightarrow> driver \<Rightarrow> driver \<times> driver_msg list" where
  "driver_recv m d =
     (if type_of m = TASK then
        if \<not> busy d
        then (d\<lparr>busy := True, remaining := data m, timer_fd := Some (data m > 0)\<rparr>, [to_cli d STATUS_UPDATE (data m)])
        else (d, [to_cli d BUSY_RESP (remaining d)])
      else (d, []))"

definition driver_timer :: "driver \<Rightarrow> driver \<times> driver_msg list" where
  "driver_timer d =
     (if timer_fd d \<noteq> None
      then (d\<lparr>busy := False, remaining := 0, timer_fd := None\<rparr>, [to_cli d STATUS_UPDATE 0])
      else (d, []))"

text \<open>\<open>create_driver\<close> in the child with process id \<open>p\<close>, up to its loop.\<close>

definition new_driver :: "(int \<Rightarrow> int) \<Rightarrow> int \<Rightarrow> driver \<times> driver_msg" where
  "new_driver msgget p =
     (let key = BASE_DRIVER_KEY + p;
          d = \<lparr>dpid = p, busy = False, remaining = 0, timer_fd = None, mq_id = msgget key\<rparr>
      in (d, to_cli d REGISTER key))"

section \<open>Commands\<close>

datatype command =
    Create | Drivers | Task int int | Status int | Usage string | Unknown

definition starts_with :: "string \<Rightarrow> string \<Rightarrow> bool" where
  "starts_with p s = (take (length p) s = p)"

text \<open>The arguments are read from \<open>cmd + 10\<close> and \<open>cmd + 11\<close>, even behind the end of the command.\<close>

definition read_command :: "cbuf \<Rightarrow> command res" where
  "read_command cmd =
     bindE (cstr cmd) (\<lambda>s.
     if s = ''create_driver'' then Inr Create
     else if s = ''get_drivers'' then Inr Drivers
     else if starts_with ''send_task'' s then
       bindE (cstr (drop 10 cmd)) (\<lambda>args.
       case scan_int args of (None, r) \<Rightarrow> Inr (Usage (''Usage: send_task <pid> <timer>'' @ [NL]))
       | (Some p, r) \<Rightarrow> bindE (c_int p) (\<lambda>p. case scan_int r of
           (None, r) \<Rightarrow> Inr (Usage (''Usage: send_task <pid> <timer>'' @ [NL]))
         | (Some t, r) \<Rightarrow> bindE (c_int t) (\<lambda>t. Inr (Task p t))))
     else if starts_with ''get_status'' s then
       bindE (cstr (drop 11 cmd)) (\<lambda>args.
       case scan_int args of (None, r) \<Rightarrow> Inr (Usage (''Usage: get_status <pid>'' @ [NL]))
       | (Some p, r) \<Rightarrow> bindE (c_int p) (\<lambda>p. Inr (Status p)))
     else Inr Unknown)"

text \<open>\<open>fgets(cmd, 50, stdin)\<close>, the cut at the newline, and the command; \<open>None\<close> at end of input.\<close>

definition next_command :: "cbuf \<Rightarrow> io \<Rightarrow> (command option \<times> io) res" where
  "next_command cmd w =
     bindE (fgets cmd 50 w) (\<lambda>(ok, cmd, w).
     if \<not> ok then Inr (None, w)
     else bindE (strcspn cmd [NL]) (\<lambda>k. bindE (aset cmd k NUL) (\<lambda>cmd.
       bindE (read_command cmd) (\<lambda>c. Inr (Some c, w)))))"

section \<open>The processes together\<close>

record taxi =
  drivers :: "DriverInfo list"
  cli_q :: "driver_msg list"
  procs :: "driver list"
  queues :: "int \<Rightarrow> driver_msg list"
  out :: io

definition push :: "int \<Rightarrow> driver_msg \<Rightarrow> (int \<Rightarrow> driver_msg list) \<Rightarrow> int \<Rightarrow> driver_msg list" where
  "push q m qs = qs(q := qs q @ [m])"

definition send_task :: "int \<Rightarrow> int \<Rightarrow> int \<Rightarrow> taxi \<Rightarrow> taxi" where
  "send_task self p timer s =
     (case find_driver (drivers s) p of
        None \<Rightarrow> s\<lparr>out := printf (''Driver '' @ show_int p @ '' not found'' @ [NL]) (out s)\<rparr>
      | Some i \<Rightarrow> s\<lparr>queues := push (message_queue_id (drivers s ! i))
          \<lparr>mtype = 1, type_of = TASK, msg_pid = self, data = timer\<rparr> (queues s)\<rparr>)"

definition create_driver :: "(int \<Rightarrow> int) \<Rightarrow> int \<Rightarrow> taxi \<Rightarrow> taxi" where
  "create_driver msgget p s =
     (let (d, m) = new_driver msgget p
      in s\<lparr>procs := procs s @ [d], cli_q := cli_q s @ [m],
           out := printf (''Driver '' @ show_int p @ '' sent REGISTER message'' @ [NL])
                    (printf (''Driver created with PID: '' @ show_int p @ [NL]) (out s))\<rparr>)"

text \<open>\<open>while (recv_message(cli_mq, &msg, 1) == 0)\<close>: all pending messages are handled.\<close>

definition drain :: "(int \<Rightarrow> int) \<Rightarrow> taxi \<Rightarrow> taxi" where
  "drain msgget s =
     (let (ds, w) = fold (handle_msg msgget) (cli_q s) (drivers s, out s)
      in s\<lparr>drivers := ds, cli_q := [], out := w\<rparr>)"

text \<open>What a driver process does: it takes a message from its queue, or its timer fires.\<close>

definition deliver :: "nat \<Rightarrow> taxi \<Rightarrow> taxi" where
  "deliver i s =
     (let d = procs s ! i in case queues s (mq_id d) of [] \<Rightarrow> s
      | m # rest \<Rightarrow> let (d', ms) = driver_recv m d
          in s\<lparr>procs := (procs s)[i := d'], cli_q := cli_q s @ ms, queues := (queues s)(mq_id d := rest)\<rparr>)"

definition expire :: "nat \<Rightarrow> taxi \<Rightarrow> taxi" where
  "expire i s =
     (let (d', ms) = driver_timer (procs s ! i)
      in s\<lparr>procs := (procs s)[i := d'], cli_q := cli_q s @ ms\<rparr>)"

inductive step :: "(int \<Rightarrow> int) \<Rightarrow> int \<Rightarrow> int set \<Rightarrow> taxi \<Rightarrow> taxi \<Rightarrow> bool" for msgget self old where
  step_create: "p \<notin> dpid ` set (procs s) \<Longrightarrow> p \<notin> old \<Longrightarrow> step msgget self old s (create_driver msgget p s)"
| step_task: "step msgget self old s (send_task self p t s)"
| step_print: "step msgget self old s (s\<lparr>out := w\<rparr>)"
| step_drain: "step msgget self old s (drain msgget s)"
| step_deliver: "i < length (procs s) \<Longrightarrow> step msgget self old s (deliver i s)"
| step_expire: "i < length (procs s) \<Longrightarrow> timer_fd (procs s ! i) = Some True \<Longrightarrow> step msgget self old s (expire i s)"
| step_old: "msg_pid m \<in> old \<Longrightarrow> step msgget self old s (s\<lparr>cli_q := cli_q s @ [m]\<rparr>)"

text \<open>The start, with what the queues hold from an earlier run.\<close>

definition init_taxi :: "driver_msg list \<Rightarrow> (int \<Rightarrow> driver_msg list) \<Rightarrow> taxi" where
  "init_taxi ms qs = \<lparr>drivers = [], cli_q = ms, procs = [], queues = qs, out = console []\<rparr>"

definition reaches :: "(int \<Rightarrow> int) \<Rightarrow> int \<Rightarrow> int set \<Rightarrow> taxi \<Rightarrow> taxi \<Rightarrow> bool" where
  "reaches msgget self old = (step msgget self old)\<^sup>*\<^sup>*"

section \<open>Specification\<close>

definition wf_driver :: "driver \<Rightarrow> bool" where
  "wf_driver d = (timer_fd d = (if busy d then Some (remaining d > 0) else None) \<and> (busy d \<or> remaining d = 0))"

text \<open>The table once the pending messages are read.\<close>

definition row_msg :: "(int \<Rightarrow> int) \<Rightarrow> driver_msg \<Rightarrow> DriverInfo list \<Rightarrow> DriverInfo list" where
  "row_msg msgget m ds = fst (handle_msg msgget m (ds, console []))"

definition settled :: "(int \<Rightarrow> int) \<Rightarrow> taxi \<Rightarrow> DriverInfo list" where
  "settled msgget s = fst (fold (handle_msg msgget) (cli_q s) (drivers s, out s))"

definition agrees :: "DriverInfo \<Rightarrow> driver \<Rightarrow> bool" where
  "agrees r d = (remaining_time r = remaining d \<and> (status r = BUSY \<longleftrightarrow> remaining d > 0))"

text \<open>A driver whose timer will never fire.\<close>

definition stuck :: "driver \<Rightarrow> bool" where
  "stuck d = (busy d \<and> timer_fd d = Some False)"

text \<open>The rows of the drivers of this run.\<close>

definition own_rows :: "int set \<Rightarrow> DriverInfo list \<Rightarrow> DriverInfo list" where
  "own_rows old ds = filter (\<lambda>r. pid r \<notin> old) ds"

definition taxi_inv :: "(int \<Rightarrow> int) \<Rightarrow> int set \<Rightarrow> taxi \<Rightarrow> bool" where
  "taxi_inv msgget old s =
     (distinct (map dpid (procs s)) \<and> (\<forall>d \<in> set (procs s). wf_driver d \<and> dpid d \<notin> old)
      \<and> length (settled msgget s) \<le> MAX_DRIVERS
      \<and> distinct (map pid (own_rows old (settled msgget s)))
      \<and> (\<forall>r \<in> set (own_rows old (settled msgget s)). \<exists>d \<in> set (procs s). dpid d = pid r \<and> agrees r d)
      \<and> (\<forall>d \<in> set (procs s). dpid d \<in> pid ` set (settled msgget s) \<or> length (settled msgget s) = MAX_DRIVERS))"

section \<open>Lemmas\<close>

inductive_cases step_cases: "step msgget self old s s'"

lemma find_row_Some: "find_row ds p i = Some k \<Longrightarrow> i \<le> k \<and> k < i + length ds \<and> pid (ds ! (k - i)) = p"
proof (induction ds arbitrary: i)
  case Nil
  then show ?case by simp
next
  case (Cons d ds)
  show ?case
  proof (cases "pid d = p")
    case True
    with Cons.prems show ?thesis by simp
  next
    case False
    with Cons.prems Cons.IH [of "Suc i"] have "Suc i \<le> k" "k < Suc i + length ds" "pid (ds ! (k - Suc i)) = p" by auto
    moreover from this have "k - i = Suc (k - Suc i)" by simp
    ultimately show ?thesis by simp
  qed
qed

lemma find_row_None: "find_row ds p i = None \<longleftrightarrow> p \<notin> pid ` set ds"
  by (induction ds arbitrary: i) auto

lemma find_driver_Some: "find_driver ds p = Some i \<Longrightarrow> i < length ds \<and> pid (ds ! i) = p"
  using find_row_Some [of ds p 0 i] by (simp add: find_driver_def)

lemma find_driver_None: "find_driver ds p = None \<longleftrightarrow> p \<notin> pid ` set ds"
  by (simp add: find_driver_def find_row_None)

text \<open>An update for a driver of this run reaches exactly its row.\<close>

lemma own_rows_unique:
  assumes "distinct (map pid (own_rows old ds))" and "i < length ds" and "j < length ds"
    and "pid (ds ! i) = p" and "pid (ds ! j) = p" and "p \<notin> old"
  shows "i = j"
  using assms
proof (induction ds arbitrary: i j)
  case (Cons d ds)
  have no: "pid d \<noteq> p" if "k < length ds" "pid (ds ! k) = p" for k
  proof
    assume "pid d = p"
    moreover have "p \<in> pid ` set (own_rows old ds)" using that Cons.prems(6) by (force simp: own_rows_def)
    ultimately show False using Cons.prems(1,6) by (simp add: own_rows_def)
  qed
  have "distinct (map pid (own_rows old ds))" using Cons.prems(1) by (simp add: own_rows_def split: if_splits)
  with Cons no show ?case by (cases i; cases j) auto
qed simp

lemma update_rows:
  assumes "distinct (map pid (own_rows old ds))" and "p \<notin> old"
  shows "update_driver_status p b x ds =
    map (\<lambda>r. if pid r = p then r\<lparr>status := if b then BUSY else AVAILABLE, remaining_time := x\<rparr> else r) ds"
proof (cases "find_driver ds p")
  case None
  then have "map (\<lambda>r. if pid r = p then r\<lparr>status := if b then BUSY else AVAILABLE, remaining_time := x\<rparr> else r) ds = ds"
    by (intro map_idI) (auto simp: find_driver_None)
  with None show ?thesis by (simp add: update_driver_status_def)
next
  case (Some i)
  note i = find_driver_Some [OF Some]
  have "pid (ds ! j) \<noteq> p" if "j < length ds" "j \<noteq> i" for j
    using own_rows_unique [OF assms(1), of i j p] assms(2) i that by auto
  then show ?thesis
    using i Some by (intro nth_equalityI) (auto simp: update_driver_status_def nth_list_update)
qed

lemma fst_handle_msg: "fst (handle_msg g m (ds, w)) = row_msg g m ds"
  by (simp add: row_msg_def handle_msg_def Let_def)

lemma fst_fold_handle_msg: "fst (fold (handle_msg g) ms (ds, w)) = fold (row_msg g) ms ds"
proof (induction ms arbitrary: ds w)
  case Nil
  then show ?case by simp
next
  case (Cons m ms)
  obtain ds' w' where h: "handle_msg g m (ds, w) = (ds', w')" by fastforce
  with fst_handle_msg [of g m ds w] have "row_msg g m ds = ds'" by simp
  with h Cons show ?case by simp
qed

lemma settled_fold: "settled g s = fold (row_msg g) (cli_q s) (drivers s)"
  by (simp add: settled_def fst_fold_handle_msg)

lemma row_msg_simps:
  "row_msg g (to_cli d REGISTER k) ds = (if length ds < MAX_DRIVERS
     then ds @ [\<lparr>pid = dpid d, status = AVAILABLE, remaining_time = 0, message_queue_id = g k\<rparr>] else ds)"
  "row_msg g (to_cli d STATUS_UPDATE x) ds = update_driver_status (dpid d) (x > 0) x ds"
  "row_msg g (to_cli d BUSY_RESP x) ds = ds"
  by (simp_all add: row_msg_def handle_msg_def to_cli_def Let_def)

lemma drain_settled: "settled g (drain g s) = settled g s" "procs (drain g s) = procs s"
  by (simp_all add: settled_def drain_def split_beta)

lemma drain_taxi_inv: "taxi_inv g old s \<Longrightarrow> taxi_inv g old (drain g s)"
  by (simp add: taxi_inv_def drain_settled)

text \<open>A message of an earlier run touches no row of this run.\<close>

lemma own_rows_map: "(\<And>r. pid (f r) = pid r) \<Longrightarrow> own_rows old (map f ds) = map f (own_rows old ds)"
  by (induction ds) (simp_all add: own_rows_def)

lemma own_rows_update:
  "i < length ds \<Longrightarrow> pid (ds ! i) \<in> old \<Longrightarrow> pid r \<in> old \<Longrightarrow> own_rows old (ds[i := r]) = own_rows old ds"
  by (induction ds arbitrary: i) (auto simp: own_rows_def split: nat.splits)

lemma row_msg_old:
  assumes "msg_pid m \<in> old"
  shows "own_rows old (row_msg g m ds) = own_rows old ds"
    and "length ds \<le> length (row_msg g m ds)" and "pid ` set ds \<subseteq> pid ` set (row_msg g m ds)"
    and "length ds \<le> MAX_DRIVERS \<Longrightarrow> length (row_msg g m ds) \<le> MAX_DRIVERS"
proof -
  have u: "own_rows old (update_driver_status (msg_pid m) b x ds) = own_rows old ds
      \<and> length (update_driver_status (msg_pid m) b x ds) = length ds
      \<and> map pid (update_driver_status (msg_pid m) b x ds) = map pid ds" for b x
  proof (cases "find_driver ds (msg_pid m)")
    case (Some i)
    with find_driver_Some [OF Some] assms show ?thesis
      by (auto simp: update_driver_status_def own_rows_update map_update intro: list_update_same_conv [THEN iffD2])
  qed (simp add: update_driver_status_def)
  then have p: "pid ` set (update_driver_status (msg_pid m) b x ds) = pid ` set ds" for b x
    by (metis list.set_map)
  have c: "row_msg g m ds = (if type_of m = REGISTER then if length ds < MAX_DRIVERS
        then ds @ [\<lparr>pid = msg_pid m, status = AVAILABLE, remaining_time = 0, message_queue_id = g (data m)\<rparr>] else ds
      else if type_of m = STATUS_UPDATE then update_driver_status (msg_pid m) (data m > 0) (data m) ds else ds)"
    by (simp add: row_msg_def handle_msg_def Let_def)
  show "own_rows old (row_msg g m ds) = own_rows old ds" using u assms by (simp add: c own_rows_def)
  show "length ds \<le> length (row_msg g m ds)" using u by (simp add: c)
  show "pid ` set ds \<subseteq> pid ` set (row_msg g m ds)" using p by (auto simp: c)
  show "length (row_msg g m ds) \<le> MAX_DRIVERS" if "length ds \<le> MAX_DRIVERS" using u that by (simp add: c)
qed

lemma old_taxi_inv:
  assumes "taxi_inv g old s" and "msg_pid m \<in> old"
  shows "taxi_inv g old (s\<lparr>cli_q := cli_q s @ [m]\<rparr>)"
proof -
  let ?t = "s\<lparr>cli_q := cli_q s @ [m]\<rparr>"
  have t: "settled g ?t = row_msg g m (settled g s)" by (simp add: settled_fold)
  note m = row_msg_old [OF assms(2), where g = g and ds = "settled g s"]
  have "length (settled g ?t) \<le> MAX_DRIVERS" using m(4) assms(1) by (simp add: t taxi_inv_def)
  moreover have "\<forall>d \<in> set (procs s). dpid d \<in> pid ` set (settled g ?t) \<or> length (settled g ?t) = MAX_DRIVERS"
  proof
    fix d assume "d \<in> set (procs s)"
    with assms(1) have "dpid d \<in> pid ` set (settled g s) \<or> length (settled g s) = MAX_DRIVERS"
      unfolding taxi_inv_def by blast
    with m(2,3) calculation show "dpid d \<in> pid ` set (settled g ?t) \<or> length (settled g ?t) = MAX_DRIVERS"
      unfolding t by (metis le_antisym subsetD)
  qed
  ultimately show ?thesis using assms(1) m(1) by (simp add: taxi_inv_def t)
qed

lemma settled_old: "\<forall>m \<in> set ms. msg_pid m \<in> old \<Longrightarrow> length ds \<le> MAX_DRIVERS \<Longrightarrow>
    own_rows old (fold (row_msg g) ms ds) = own_rows old ds \<and> length (fold (row_msg g) ms ds) \<le> MAX_DRIVERS"
proof (induction ms arbitrary: ds)
  case (Cons m ms)
  then have m: "msg_pid m \<in> old" by simp
  have "length (row_msg g m ds) \<le> MAX_DRIVERS" using row_msg_old(4) [OF m] Cons.prems(2) by blast
  with Cons row_msg_old(1) [OF m, where g = g and ds = ds] show ?case by simp
qed simp

lemma create_taxi_inv:
  assumes "taxi_inv g old s" and "p \<notin> dpid ` set (procs s)" and "p \<notin> old"
  shows "taxi_inv g old (create_driver g p s)"
proof -
  obtain d m where n: "new_driver g p = (d, m)" by fastforce
  then have d: "dpid d = p" "wf_driver d" "remaining d = 0" "m = to_cli d REGISTER (BASE_DRIVER_KEY + p)"
    by (auto simp: new_driver_def Let_def wf_driver_def)
  have q: "settled g (create_driver g p s) = row_msg g m (settled g s)" "procs (create_driver g p s) = procs s @ [d]"
    by (simp_all add: create_driver_def n settled_fold)
  have "p \<notin> pid ` set (own_rows old (settled g s))"
    using assms by (force simp: taxi_inv_def)
  with assms d show ?thesis
    by (auto simp: taxi_inv_def q row_msg_simps agrees_def own_rows_def)
qed

text \<open>A driver that changes its state and reports it.\<close>

lemma report_taxi_inv:
  assumes "taxi_inv g old s" and "i < length (procs s)" and "wf_driver d'"
    and "dpid d' = dpid (procs s ! i)"
    and "procs s' = (procs s)[i := d']" and "drivers s' = drivers s"
    and "cli_q s' = cli_q s @ [to_cli (procs s ! i) STATUS_UPDATE (remaining d')]"
  shows "taxi_inv g old s'"
proof -
  let ?x = "remaining d'" and ?p = "dpid (procs s ! i)"
  let ?f = "\<lambda>r. if pid r = ?p then r\<lparr>status := if ?x > 0 then BUSY else AVAILABLE, remaining_time := ?x\<rparr> else r"
  let ?own = "own_rows old (settled g s)"
  from assms(1) have dist: "distinct (map dpid (procs s))" "distinct (map pid ?own)"
    and wf: "\<forall>d \<in> set (procs s). wf_driver d \<and> dpid d \<notin> old" and len: "length (settled g s) \<le> MAX_DRIVERS"
    and ag: "\<forall>r \<in> set ?own. \<exists>d \<in> set (procs s). dpid d = pid r \<and> agrees r d"
    and has: "\<forall>d \<in> set (procs s). dpid d \<in> pid ` set (settled g s) \<or> length (settled g s) = MAX_DRIVERS"
    by (auto simp: taxi_inv_def)
  have "?p \<notin> old" using wf assms(2) by simp
  then have set: "settled g s' = map ?f (settled g s)"
    using assms(6,7) update_rows [OF dist(2)] by (simp add: settled_fold row_msg_simps)
  have own: "own_rows old (settled g s') = map ?f ?own"
    unfolding set by (rule own_rows_map) simp
  have pids: "map dpid (procs s') = map dpid (procs s)"
    using assms(2,4,5) by (metis list_update_id map_update nth_map)
  have d': "d' \<in> set (procs s')" using assms(2,5) by (simp add: set_update_memI)
  have "\<exists>d \<in> set (procs s'). dpid d = pid (?f r) \<and> agrees (?f r) d" if r: "r \<in> set ?own" for r
  proof (cases "pid r = ?p")
    case True
    with d' assms(4) show ?thesis by (intro bexI [of _ d']) (auto simp: agrees_def)
  next
    case False
    from ag r obtain j where j: "j < length (procs s)" "dpid (procs s ! j) = pid r" "agrees r (procs s ! j)"
      by (metis in_set_conv_nth)
    with False have "j \<noteq> i" by auto
    with j(1) assms(5) have "procs s ! j \<in> set (procs s')"
      by (metis length_list_update nth_list_update_neq nth_mem)
    with j False show ?thesis by auto
  qed
  then have "\<forall>r \<in> set (own_rows old (settled g s')). \<exists>d \<in> set (procs s'). dpid d = pid r \<and> agrees r d"
    unfolding own list.set_map by (intro ballI, elim imageE, hypsubst)
  moreover have "\<forall>d \<in> set (procs s'). wf_driver d \<and> dpid d \<notin> old"
    using wf assms(2-5) set_update_subset_insert [of "procs s" i d'] by auto
  moreover have "map pid (settled g s') = map pid (settled g s)" unfolding set by simp
  moreover have "map pid (own_rows old (settled g s')) = map pid ?own" unfolding own by simp
  moreover have "\<forall>d \<in> set (procs s'). dpid d \<in> pid ` set (settled g s') \<or> length (settled g s') = MAX_DRIVERS"
  proof -
    have "pid ` set (settled g s') = pid ` set (settled g s)" "length (settled g s') = length (settled g s)"
      "dpid ` set (procs s') = dpid ` set (procs s)"
      using calculation(3) pids by (metis list.set_map, metis length_map, metis list.set_map)
    with has show ?thesis by (metis imageE imageI)
  qed
  moreover have "length (settled g s') = length (settled g s)" unfolding set by simp
  ultimately show ?thesis
    using dist len pids unfolding taxi_inv_def by (intro conjI) simp_all
qed

lemma deliver_taxi_inv:
  assumes "taxi_inv g old s" and "i < length (procs s)"
  shows "taxi_inv g old (deliver i s)"
proof (cases "queues s (mq_id (procs s ! i))")
  case Nil
  with assms show ?thesis by (simp add: deliver_def)
next
  case (Cons m rest)
  let ?d = "procs s ! i"
  have wf: "wf_driver ?d" using assms by (simp add: taxi_inv_def)
  show ?thesis
  proof (cases "type_of m = TASK \<and> \<not> busy ?d")
    case True
    let ?d' = "?d\<lparr>busy := True, remaining := data m, timer_fd := Some (data m > 0)\<rparr>"
    show ?thesis
      by (rule report_taxi_inv [OF assms, of ?d'])
        (use True Cons in \<open>auto simp: deliver_def driver_recv_def wf_driver_def Let_def\<close>)
  next
    case False
    have "driver_recv m ?d = (?d, if type_of m = TASK then [to_cli ?d BUSY_RESP (remaining ?d)] else [])"
      using False by (auto simp: driver_recv_def)
    then have "settled g (deliver i s) = settled g s" "procs (deliver i s) = procs s"
      using Cons by (simp_all add: deliver_def settled_fold row_msg_simps Let_def)
    with assms(1) show ?thesis by (simp add: taxi_inv_def)
  qed
qed

lemma expire_taxi_inv:
  assumes "taxi_inv g old s" and "i < length (procs s)" and "timer_fd (procs s ! i) = Some True"
  shows "taxi_inv g old (expire i s)"
  by (rule report_taxi_inv [OF assms(1,2), of "(procs s ! i)\<lparr>busy := False, remaining := 0, timer_fd := None\<rparr>"])
    (use assms(3) in \<open>auto simp: expire_def driver_timer_def wf_driver_def\<close>)

lemma step_taxi_inv: "step g self old s s' \<Longrightarrow> taxi_inv g old s \<Longrightarrow> taxi_inv g old s'"
proof (induction rule: step.induct)
  case (step_task s p t)
  then show ?case
    by (auto simp: taxi_inv_def settled_fold send_task_def split: option.splits)
next
  case (step_print s w)
  then show ?case by (auto simp: taxi_inv_def settled_fold)
qed (simp_all add: create_taxi_inv drain_taxi_inv deliver_taxi_inv expire_taxi_inv old_taxi_inv)

lemma reaches_taxi_inv: "reaches g self old s s' \<Longrightarrow> taxi_inv g old s \<Longrightarrow> taxi_inv g old s'"
  unfolding reaches_def by (induction rule: rtranclp_induct) (auto dest: step_taxi_inv)

lemma init_taxi_inv: "\<forall>m \<in> set ms. msg_pid m \<in> old \<Longrightarrow> taxi_inv g old (init_taxi ms qs)"
  using settled_old [of ms old "[]" g] by (simp add: taxi_inv_def init_taxi_def settled_fold own_rows_def)

lemma stuck_step: "step g self old s s' \<Longrightarrow> d \<in> set (procs s) \<Longrightarrow> stuck d \<Longrightarrow> d \<in> set (procs s')"
proof (induction rule: step.induct)
  case (step_create p s)
  then show ?case by (simp add: create_driver_def split_beta)
next
  case (step_task s p t)
  then show ?case by (simp add: send_task_def split: option.splits)
next
  case (step_deliver i s)
  from step_deliver(2) obtain j where j: "j < length (procs s)" "procs s ! j = d" by (auto simp: in_set_conv_nth)
  have keep: "fst (driver_recv m d) = d" for m
    using step_deliver(3) by (auto simp: driver_recv_def stuck_def)
  show ?case
  proof (cases "queues s (mq_id (procs s ! i))")
    case Nil
    with step_deliver show ?thesis by (simp add: deliver_def Let_def)
  next
    case (Cons m rest)
    then have "procs (deliver i s) ! j = d"
      using j keep [of m] by (cases "i = j") (simp_all add: deliver_def Let_def split_beta)
    moreover have "j < length (procs (deliver i s))" using j(1) Cons by (simp add: deliver_def Let_def split_beta)
    ultimately show ?thesis using nth_mem by blast
  qed
next
  case (step_expire i s)
  then have "d \<noteq> procs s ! i" by (auto simp: stuck_def)
  with step_expire show ?case
    by (auto simp: expire_def split_beta in_set_conv_nth nth_list_update)
qed (simp_all add: drain_settled)

lemma stuck_reaches: "reaches g self old s s' \<Longrightarrow> d \<in> set (procs s) \<Longrightarrow> stuck d \<Longrightarrow> d \<in> set (procs s')"
  unfolding reaches_def by (induction rule: rtranclp_induct) (auto dest: stuck_step)

subsection \<open>Reading commands\<close>

lemma scan_int_space: "scan_int (CHR '' '' # s) = scan_int s"
  by (simp add: scan_int_def isspace_def)

text \<open>The table once the pending messages are read.\<close>

lemma taxi_rows:
  assumes "\<forall>m \<in> set ms. msg_pid m \<in> old" and "reaches msgget self old (init_taxi ms qs) s"
  shows "(\<forall>r \<in> set (drivers (drain msgget s)). pid r \<notin> old \<longrightarrow>
      (\<exists>d \<in> set (procs s). dpid d = pid r \<and> remaining_time r = remaining d \<and> (status r = BUSY \<longleftrightarrow> timer_fd d = Some True)))
    \<and> (\<forall>d \<in> set (procs s). dpid d \<in> pid ` set (drivers (drain msgget s)) \<or> length (drivers (drain msgget s)) = MAX_DRIVERS)
    \<and> distinct (map pid (filter (\<lambda>r. pid r \<notin> old) (drivers (drain msgget s))))"
proof -
  have inv: "taxi_inv msgget old s" using reaches_taxi_inv [OF assms(2) init_taxi_inv [OF assms(1)]] .
  have d: "drivers (drain msgget s) = settled msgget s" by (simp add: settled_def drain_def split_beta)
  have "agrees r d \<Longrightarrow> wf_driver d \<Longrightarrow> status r = BUSY \<longleftrightarrow> timer_fd d = Some True" for r d
    by (cases "busy d") (auto simp: agrees_def wf_driver_def)
  with inv show ?thesis unfolding d by (fastforce simp: taxi_inv_def own_rows_def agrees_def)
qed

section \<open>Properties\<close>

text \<open>
  In every state the processes can get into, a driver is busy exactly while it has a
  timer, a free driver has no time left, and process ids are unique among the drivers and
  among the rows of the table.
\<close>

theorem taxi_driver_states:
  assumes "\<forall>m \<in> set ms. msg_pid m \<in> old" and "reaches msgget self old (init_taxi ms qs) s"
  shows "(\<forall>d \<in> set (procs s). (busy d \<longleftrightarrow> timer_fd d \<noteq> None) \<and> (\<not> busy d \<longrightarrow> remaining d = 0))
    \<and> distinct (map dpid (procs s)) \<and> length (settled msgget s) \<le> MAX_DRIVERS"
  using reaches_taxi_inv [OF assms(2) init_taxi_inv [OF assms(1)]] by (auto simp: taxi_inv_def wf_driver_def)

theorem taxi_driver_states_witness:
  "distinct (map dpid (procs (create_driver (\<lambda>k. k) 7 (init_taxi [] (\<lambda>q. [])))))"
proof -
  have "step (\<lambda>k. k) 1 {} (init_taxi [] (\<lambda>q. [])) (create_driver (\<lambda>k. k) 7 (init_taxi [] (\<lambda>q. [])))"
    by (rule step_create) (simp_all add: init_taxi_def)
  then have "reaches (\<lambda>k. k) 1 {} (init_taxi [] (\<lambda>q. [])) (create_driver (\<lambda>k. k) 7 (init_taxi [] (\<lambda>q. [])))"
    unfolding reaches_def by (rule r_into_rtranclp)
  from taxi_driver_states [OF _ this] show ?thesis by simp
qed

text \<open>
  Once the command line has read its pending messages, every row of a driver of this run
  shows the time the driver holds, and \<open>BUSY\<close> exactly if the driver has a timer that will fire; and every
  driver of this run has a row, unless the table is full.
\<close>

theorem taxi_table_agrees:
  assumes "\<forall>m \<in> set ms. msg_pid m \<in> old" and "reaches msgget self old (init_taxi ms qs) s"
  shows "(\<forall>r \<in> set (drivers (drain msgget s)). pid r \<notin> old \<longrightarrow>
      (\<exists>d \<in> set (procs s). dpid d = pid r \<and> remaining_time r = remaining d \<and> (status r = BUSY \<longleftrightarrow> timer_fd d = Some True)))
    \<and> (\<forall>d \<in> set (procs s). dpid d \<in> pid ` set (drivers (drain msgget s)) \<or> length (drivers (drain msgget s)) = MAX_DRIVERS)"
  using taxi_rows [OF assms] by simp

theorem taxi_table_agrees_witness:
  "\<exists>r \<in> set (drivers (drain (\<lambda>k. k) (create_driver (\<lambda>k. k) 7 (init_taxi [] (\<lambda>q. []))))). pid r = 7 \<and> status r = AVAILABLE"
proof -
  have "step (\<lambda>k. k) 1 {} (init_taxi [] (\<lambda>q. [])) (create_driver (\<lambda>k. k) 7 (init_taxi [] (\<lambda>q. [])))"
    by (rule step_create) (simp_all add: init_taxi_def)
  then have r: "reaches (\<lambda>k. k) 1 {} (init_taxi [] (\<lambda>q. [])) (create_driver (\<lambda>k. k) 7 (init_taxi [] (\<lambda>q. [])))"
    unfolding reaches_def by (rule r_into_rtranclp)
  have s: "drivers (drain (\<lambda>k. k) (create_driver (\<lambda>k. k) 7 (init_taxi [] (\<lambda>q. []))))
    = [\<lparr>pid = 7, status = AVAILABLE, remaining_time = 0, message_queue_id = BASE_DRIVER_KEY + 7\<rparr>]"
    by (simp add: drain_def create_driver_def new_driver_def init_taxi_def handle_msg_def to_cli_def MAX_DRIVERS_def Let_def)
  from taxi_table_agrees [OF _ r] show ?thesis by (simp add: s)
qed

text \<open>
  A task of zero or negative length makes a free driver busy with a timer that never
  fires: whatever happens afterwards, that driver stays as it is and answers every further
  task with \<open>BUSY_RESP\<close>, while the table shows it as available.
\<close>

theorem taxi_empty_task_blocks:
  assumes "i < length (procs s)" and "\<not> busy (procs s ! i)"
    and "queues s (mq_id (procs s ! i)) = m # rest" and "type_of m = TASK" and "data m \<le> 0"
    and "\<forall>m \<in> set ms. msg_pid m \<in> old"
    and "reaches msgget self old (init_taxi ms qs) s" and "reaches msgget self old (deliver i s) s'"
  shows "\<exists>d \<in> set (procs s'). dpid d = dpid (procs s ! i) \<and> busy d
    \<and> (\<forall>m'. type_of m' = TASK \<longrightarrow> driver_recv m' d = (d, [to_cli d BUSY_RESP (data m)]))
    \<and> (\<forall>r \<in> set (drivers (drain msgget s')). pid r = dpid d \<longrightarrow> status r = AVAILABLE)"
proof -
  let ?d = "(procs s ! i)\<lparr>busy := True, remaining := data m, timer_fd := Some False\<rparr>"
  have "procs (deliver i s) = (procs s)[i := ?d]"
    using assms(2-5) by (auto simp: deliver_def driver_recv_def Let_def)
  then have "?d \<in> set (procs (deliver i s))" using assms(1) by (simp add: set_update_memI)
  then have d: "?d \<in> set (procs s')"
    by (rule stuck_reaches [OF assms(8)]) (simp add: stuck_def)
  have "step msgget self old s (deliver i s)" using assms(1) by (rule step_deliver)
  with assms(7,8) have "reaches msgget self old (init_taxi ms qs) s'"
    unfolding reaches_def by (meson rtranclp.rtrancl_into_rtrancl rtranclp_trans)
  then have "taxi_inv msgget old s'" using init_taxi_inv [OF assms(6)] by (rule reaches_taxi_inv)
  then have inv: "taxi_inv msgget old (drain msgget s')" by (rule drain_taxi_inv)
  have "status r = AVAILABLE" if r: "r \<in> set (drivers (drain msgget s'))" "pid r = dpid ?d" for r
  proof -
    have "settled msgget (drain msgget s') = drivers (drain msgget s')"
      by (simp add: settled_def drain_def split_beta)
    moreover have "pid r \<notin> old" using inv d r(2) by (auto simp: taxi_inv_def drain_settled)
    ultimately obtain e where e: "e \<in> set (procs s')" "dpid e = pid r" "agrees r e"
      using inv r(1) by (auto simp: taxi_inv_def drain_settled own_rows_def)
    have "distinct (map dpid (procs s'))" using inv by (simp add: taxi_inv_def drain_settled)
    then have "e = ?d" using d e r(2) by (metis eq_key_imp_eq_value distinct_map inj_onD)
    with e(3) assms(5) show ?thesis by (cases "status r") (auto simp: agrees_def)
  qed
  with d show ?thesis by (intro bexI [of _ ?d]) (auto simp: driver_recv_def to_cli_def)
qed

theorem taxi_empty_task_blocks_witness:
  "\<exists>s d. d \<in> set (procs (deliver 0 s)) \<and> dpid d = 7 \<and> busy d
    \<and> (\<forall>r \<in> set (drivers (drain (\<lambda>k. k) (deliver 0 s))). pid r = 7 \<longrightarrow> status r = AVAILABLE)"
proof -
  let ?g = "\<lambda>k :: int. k"
  let ?c = "create_driver ?g 7 (init_taxi [] (\<lambda>q. []))"
  let ?s = "send_task 1 7 0 (drain ?g ?c)"
  have "step ?g 1 {} (init_taxi [] (\<lambda>q. [])) ?c" by (rule step_create) (simp_all add: init_taxi_def)
  moreover have "step ?g 1 {} ?c (drain ?g ?c)" by (rule step_drain)
  moreover have "step ?g 1 {} (drain ?g ?c) ?s" by (rule step_task)
  ultimately have r: "reaches ?g 1 {} (init_taxi [] (\<lambda>q. [])) ?s"
    unfolding reaches_def by (meson rtranclp.rtrancl_into_rtrancl rtranclp.rtrancl_refl)
  have r': "reaches ?g 1 {} (deliver 0 ?s) (deliver 0 ?s)" unfolding reaches_def by simp
  have s: "procs ?s = [\<lparr>dpid = 7, busy = False, remaining = 0, timer_fd = None, mq_id = BASE_DRIVER_KEY + 7\<rparr>]"
    "queues ?s (BASE_DRIVER_KEY + 7) = [\<lparr>mtype = 1, type_of = TASK, msg_pid = 1, data = 0\<rparr>]"
    by (simp_all add: send_task_def find_driver_def push_def drain_def create_driver_def new_driver_def
        init_taxi_def handle_msg_def to_cli_def MAX_DRIVERS_def Let_def)
  have "\<exists>d \<in> set (procs (deliver 0 ?s)). dpid d = dpid (procs ?s ! 0) \<and> busy d
    \<and> (\<forall>m'. type_of m' = TASK \<longrightarrow> driver_recv m' d =
        (d, [to_cli d BUSY_RESP (data \<lparr>mtype = 1, type_of = TASK, msg_pid = 1, data = 0\<rparr>)]))
    \<and> (\<forall>r \<in> set (drivers (drain ?g (deliver 0 ?s))). pid r = dpid d \<longrightarrow> status r = AVAILABLE)"
    by (rule taxi_empty_task_blocks [OF _ _ _ _ _ _ r r']) (simp_all add: s)
  with s(1) show ?thesis by (intro exI [of _ ?s]) auto
qed

text \<open>
  The command \<open>send_task\<close> followed by a process id and a time, written in decimal, is
  read as that task.
\<close>

theorem taxi_task_command:
  assumes "in_int p" and "in_int t"
  shows "read_command (''send_task '' @ show_int p @ '' '' @ show_int t @ NUL # rest) = Inr (Task p t)"
proof -
  have nn: "NUL \<notin> set (''send_task '' @ show_int p @ '' '' @ show_int t)" "NUL \<notin> set (show_int p @ '' '' @ show_int t)"
    using show_int_no_NUL [of p] show_int_no_NUL [of t] by (auto simp: NUL_def)
  have "cstr (''send_task '' @ show_int p @ '' '' @ show_int t @ NUL # rest) =
      Inr (''send_task '' @ show_int p @ '' '' @ show_int t)"
    using cstr_text [OF nn(1)] by simp
  moreover have "cstr (drop 10 (''send_task '' @ show_int p @ '' '' @ show_int t @ NUL # rest)) =
      Inr (show_int p @ '' '' @ show_int t)"
    using cstr_text [OF nn(2)] by simp
  moreover have "scan_int (show_int p @ '' '' @ show_int t) = (Some p, '' '' @ show_int t)"
    by (rule scan_int_show_int) (simp add: isdigit_def)
  moreover have "scan_int ('' '' @ show_int t) = (Some t, [])"
    using scan_int_show_int [of "[]" t] by (simp add: scan_int_space)
  ultimately show ?thesis
    using assms by (simp add: read_command_def starts_with_def c_int_def)
qed

theorem taxi_task_command_witness:
  "read_command (''send_task '' @ show_int 1234 @ '' '' @ show_int 30 @ NUL # []) = Inr (Task 1234 30)"
  by (rule taxi_task_command) (simp_all add: c_arith)

end
