(* ===== verification/Taxi_Program.thy ===== *)
theory Taxi_Program
  imports Taxi
begin

text \<open>
  The command line of Additional Tasks, Task 2 (\<open>main.c\<close>, \<open>create_msg_queue\<close> and \<open>create_driver\<close> in
  \<open>cli.c\<close>) as a program: its start, a round of its loop for the events \<open>epoll_wait\<close> reports, the
  commands, and the exits when a queue cannot be had. The rounds are interleaved with what the drivers
  do. \<open>msgget\<close> gives the id of the queue with a key, negative for an error, \<open>fork s\<close> is what
  \<open>fork\<close> returns in the state \<open>s\<close>, and an event of the input comes with what the local array \<open>cmd\<close> holds
  before it is filled. The queues may hold messages of an earlier run, and drivers it has left behind may send more.

  Proved here: whatever is typed and in whatever order things happen, the program takes only
  steps of the relation \<open>step\<close> of \<open>Taxi\<close>, so that its table agrees with its drivers; and what it does at
  the end of its input.
\<close>

section \<open>Commands\<close>

definition create_msg_queue :: "(int \<Rightarrow> int) \<Rightarrow> int \<Rightarrow> int option" where
  "create_msg_queue msgget key = (if msgget key < 0 then None else Some (msgget key))"

text \<open>
  \<open>create_driver\<close>: the parent, and the child, which leaves before its loop if it does not get
  its queues.
\<close>

definition create_driver_call :: "(int \<Rightarrow> int) \<Rightarrow> int \<Rightarrow> taxi \<Rightarrow> taxi" where
  "create_driver_call msgget p s =
     (if p > 0 then
        (case create_msg_queue msgget (BASE_DRIVER_KEY + p) of
           None \<Rightarrow> s\<lparr>out := printf (''Driver created with PID: '' @ show_int p @ [NL]) (out s)\<rparr>
         | Some q \<Rightarrow> (case create_msg_queue msgget CLI_QUEUE_KEY of
             None \<Rightarrow> s\<lparr>out := printf (''Driver created with PID: '' @ show_int p @ [NL]) (out s)\<rparr>
           | Some q \<Rightarrow> create_driver msgget p s))
      else s)"

definition exec_command :: "(int \<Rightarrow> int) \<Rightarrow> int \<Rightarrow> (taxi \<Rightarrow> int) \<Rightarrow> command \<Rightarrow> taxi \<Rightarrow> taxi" where
  "exec_command msgget self fork c s =
     (case c of Create \<Rightarrow> create_driver_call msgget (fork s) s
      | Drivers \<Rightarrow> s\<lparr>out := get_drivers (drivers s) (out s)\<rparr>
      | Task p t \<Rightarrow> send_task self p t s
      | Status p \<Rightarrow> s\<lparr>out := get_status p (drivers s) (out s)\<rparr>
      | Usage u \<Rightarrow> s\<lparr>out := printf u (out s)\<rparr>
      | Unknown \<Rightarrow> s\<lparr>out := printf (''Unknown command'' @ [NL]) (out s)\<rparr>)"

section \<open>The loop\<close>

text \<open>
  Whether a registration among the pending messages ends the program, because the driver's
  queue cannot be had; \<open>n\<close> is the number of drivers registered before.
\<close>

fun register_fails :: "(int \<Rightarrow> int) \<Rightarrow> driver_msg list \<Rightarrow> nat \<Rightarrow> bool" where
  "register_fails msgget [] n = False"
| "register_fails msgget (m # ms) n =
     (if type_of m = REGISTER \<and> n < MAX_DRIVERS
      then create_msg_queue msgget (data m) = None \<or> register_fails msgget ms (Suc n)
      else register_fails msgget ms n)"

datatype cli_event = QueueReady | InputReady cbuf

text \<open>An event; the result says whether the command line is still running.\<close>

fun cli_handle :: "(int \<Rightarrow> int) \<Rightarrow> int \<Rightarrow> (taxi \<Rightarrow> int) \<Rightarrow> cli_event \<Rightarrow> taxi \<Rightarrow> (taxi \<times> bool) res" where
  "cli_handle msgget self fork QueueReady s =
     (if register_fails msgget (cli_q s) (length (drivers s)) then Inr (s, False) else Inr (drain msgget s, True))"
| "cli_handle msgget self fork (InputReady cmd) s =
     bindE (next_command cmd (out s)) (\<lambda>(c, w).
     let s = s\<lparr>out := w\<rparr>
     in Inr (case c of None \<Rightarrow> s | Some c \<Rightarrow> exec_command msgget self fork c s, True))"

fun cli_events :: "(int \<Rightarrow> int) \<Rightarrow> int \<Rightarrow> (taxi \<Rightarrow> int) \<Rightarrow> cli_event list \<Rightarrow> taxi \<Rightarrow> (taxi \<times> bool) res" where
  "cli_events msgget self fork [] s = Inr (s, True)"
| "cli_events msgget self fork (e # es) s =
     bindE (cli_handle msgget self fork e s) (\<lambda>(s, go). if go then cli_events msgget self fork es s else Inr (s, False))"

definition cli_round :: "(int \<Rightarrow> int) \<Rightarrow> int \<Rightarrow> (taxi \<Rightarrow> int) \<Rightarrow> cli_event list \<Rightarrow> taxi \<Rightarrow> (taxi \<times> bool) res" where
  "cli_round msgget self fork es s = cli_events msgget self fork es (s\<lparr>out := printf ''>> '' (out s)\<rparr>)"

section \<open>All processes\<close>

text \<open>\<open>OldSends\<close>: a message from a driver that an earlier run has left behind.\<close>

datatype taxi_event = CliRound "cli_event list" | DriverReads nat | DriverExpires nat | OldSends driver_msg

definition taxi_turn :: "(int \<Rightarrow> int) \<Rightarrow> int \<Rightarrow> (taxi \<Rightarrow> int) \<Rightarrow> taxi_event \<Rightarrow> taxi \<times> bool \<Rightarrow> (taxi \<times> bool) res" where
  "taxi_turn msgget self fork e = (\<lambda>(s, running).
     case e of CliRound es \<Rightarrow> if running then cli_round msgget self fork es s else Inr (s, False)
     | DriverReads i \<Rightarrow> Inr (if i < length (procs s) then deliver i s else s, running)
     | DriverExpires i \<Rightarrow>
         Inr (if i < length (procs s) \<and> timer_fd (procs s ! i) = Some True then expire i s else s, running)
     | OldSends m \<Rightarrow> Inr (s\<lparr>cli_q := cli_q s @ [m]\<rparr>, running))"

fun taxi_run :: "(int \<Rightarrow> int) \<Rightarrow> int \<Rightarrow> (taxi \<Rightarrow> int) \<Rightarrow> taxi_event list \<Rightarrow> taxi \<times> bool \<Rightarrow> (taxi \<times> bool) res" where
  "taxi_run msgget self fork [] x = Inr x"
| "taxi_run msgget self fork (e # es) x = bindE (taxi_turn msgget self fork e x) (taxi_run msgget self fork es)"

definition taxi_banner :: string where
  "taxi_banner = ''Taxi Management CLI'' @ [NL]
     @ ''Commands: create_driver, send_task <pid> <timer>, get_status <pid>, get_drivers'' @ [NL]"

text \<open>\<open>None\<close> when the program leaves at its start.\<close>

definition taxi_program ::
    "(int \<Rightarrow> int) \<Rightarrow> int \<Rightarrow> (taxi \<Rightarrow> int) \<Rightarrow> driver_msg list \<Rightarrow> (int \<Rightarrow> driver_msg list) \<Rightarrow> taxi_event list \<Rightarrow> io
      \<Rightarrow> (taxi \<times> bool) option res" where
  "taxi_program msgget self fork ms qs es w =
     (case create_msg_queue msgget CLI_QUEUE_KEY of None \<Rightarrow> Inr None
      | Some q \<Rightarrow> bindE (taxi_run msgget self fork es (init_taxi ms qs\<lparr>out := printf taxi_banner w\<rparr>, True)) (\<lambda>x. Inr (Some x)))"

section \<open>Lemmas\<close>

lemma reaches_refl [simp]: "reaches g self old s s"
  by (simp add: reaches_def)

lemma reaches_trans [trans]: "reaches g self old s t \<Longrightarrow> reaches g self old t u \<Longrightarrow> reaches g self old s u"
  unfolding reaches_def by (rule rtranclp_trans)

lemma reaches_step: "step g self old s t \<Longrightarrow> reaches g self old s t"
  unfolding reaches_def by (rule r_into_rtranclp)

lemma reaches_print: "reaches g self old s (s\<lparr>out := w\<rparr>)"
  by (rule reaches_step) (rule step_print)

lemma create_driver_reaches:
  assumes "0 < p \<longrightarrow> p \<notin> dpid ` set (procs s) \<union> old"
  shows "reaches g self old s (create_driver_call g p s)"
  using assms reaches_print reaches_step [OF step_create]
  by (auto simp: create_driver_call_def split: option.splits)

lemma exec_command_reaches:
  assumes "\<forall>s. 0 < fork s \<longrightarrow> fork s \<notin> dpid ` set (procs s) \<union> old"
  shows "reaches g self old s (exec_command g self fork c s)"
proof (cases c)
  case (Task p t)
  then show ?thesis using reaches_step [OF step_task] by (simp add: exec_command_def)
qed (use assms create_driver_reaches reaches_print in \<open>simp_all add: exec_command_def\<close>)

lemma cli_handle_reaches:
  assumes "\<forall>s. 0 < fork s \<longrightarrow> fork s \<notin> dpid ` set (procs s) \<union> old" and "cli_handle g self fork e s = Inr (t, go)"
  shows "reaches g self old s t"
proof (cases e)
  case QueueReady
  with assms(2) show ?thesis using reaches_step [OF step_drain] by (auto split: if_splits)
next
  case (InputReady cmd)
  with assms(2) obtain c w where
    "t = (case c of None \<Rightarrow> s\<lparr>out := w\<rparr> | Some c \<Rightarrow> exec_command g self fork c (s\<lparr>out := w\<rparr>))"
    by (auto simp: Let_def)
  then show ?thesis
    using reaches_trans [OF reaches_print exec_command_reaches [OF assms(1)]] reaches_print by (cases c) simp_all
qed

lemma cli_events_reaches:
  assumes "\<forall>s. 0 < fork s \<longrightarrow> fork s \<notin> dpid ` set (procs s) \<union> old"
  shows "cli_events g self fork es s = Inr (t, go) \<Longrightarrow> reaches g self old s t"
proof (induction es arbitrary: s)
  case (Cons e es)
  then obtain u b where u: "cli_handle g self fork e s = Inr (u, b)"
    "(if b then cli_events g self fork es u else Inr (u, False)) = Inr (t, go)" by auto
  from cli_handle_reaches [OF assms u(1)] have "reaches g self old s u" .
  with u(2) Cons.IH show ?case by (auto split: if_splits intro: reaches_trans)
qed simp

lemma taxi_turn_reaches:
  assumes "\<forall>s. 0 < fork s \<longrightarrow> fork s \<notin> dpid ` set (procs s) \<union> old" and "\<forall>m. e = OldSends m \<longrightarrow> msg_pid m \<in> old" and "taxi_turn g self fork e (s, running) = Inr (t, go)"
  shows "reaches g self old s t"
proof (cases e)
  case (CliRound es)
  with assms(3) show ?thesis
    using reaches_trans [OF reaches_print cli_events_reaches [OF assms(1)]]
    by (auto simp: taxi_turn_def cli_round_def split: if_splits)
qed (use assms(2,3) reaches_step [OF step_deliver] reaches_step [OF step_expire] reaches_step [OF step_old] in \<open>auto simp: taxi_turn_def split: if_splits\<close>)

lemma taxi_run_reaches:
  assumes "\<forall>s. 0 < fork s \<longrightarrow> fork s \<notin> dpid ` set (procs s) \<union> old"
  shows "\<forall>m. OldSends m \<in> set es \<longrightarrow> msg_pid m \<in> old \<Longrightarrow> taxi_run g self fork es (s, running) = Inr (t, go)
    \<Longrightarrow> reaches g self old s t"
proof (induction es arbitrary: s running)
  case (Cons e es)
  then obtain u b where u: "taxi_turn g self fork e (s, running) = Inr (u, b)" "taxi_run g self fork es (u, b) = Inr (t, go)" by auto
  have "\<forall>m. e = OldSends m \<longrightarrow> msg_pid m \<in> old" using Cons.prems(1) by auto
  from taxi_turn_reaches [OF assms this u(1)] Cons.IH [OF _ u(2)] Cons.prems(1) show ?case
    by (auto intro: reaches_trans)
qed simp

section \<open>Properties\<close>

text \<open>
  C6: The program keeps to the step relation of its processes: in whatever order messages, timers and typed
  lines arrive, every state it gets into can be reached from the start. So once it has read its pending messages,
  the row of a driver of this run shows the time that the driver holds, and \<open>BUSY\<close> exactly if the driver has a timer that will fire (a driver that
  is busy with a task of no length is shown as available); every such driver has a row unless the 50 rows are in use; no two
  of them share a row. Messages that an earlier run has left in the queues, or that its drivers still send, change none of
  this as long as the system gives the drivers of this run other process ids.
\<close>

theorem taxi_program_refines:
  assumes "\<forall>s. 0 < fork s \<longrightarrow> fork s \<notin> dpid ` set (procs s) \<union> old"
    and "\<forall>m \<in> set ms. msg_pid m \<in> old" and "\<forall>m. OldSends m \<in> set es \<longrightarrow> msg_pid m \<in> old"
    and "taxi_program msgget self fork ms qs es w = Inr (Some (s, running))"
  shows "reaches msgget self old (init_taxi ms qs) s
    \<and> (\<forall>r \<in> set (drivers (drain msgget s)). pid r \<notin> old \<longrightarrow>
        (\<exists>d \<in> set (procs s). dpid d = pid r \<and> remaining_time r = remaining d \<and> (status r = BUSY \<longleftrightarrow> timer_fd d = Some True)))
    \<and> (\<forall>d \<in> set (procs s). dpid d \<in> pid ` set (drivers (drain msgget s)) \<or> length (drivers (drain msgget s)) = MAX_DRIVERS)
    \<and> distinct (map pid (filter (\<lambda>r. pid r \<notin> old) (drivers (drain msgget s))))"
proof -
  from assms(4) have "taxi_run msgget self fork es (init_taxi ms qs\<lparr>out := printf taxi_banner w\<rparr>, True) = Inr (s, running)"
    by (auto simp: taxi_program_def split: option.splits)
  from reaches_trans [OF reaches_print taxi_run_reaches [OF assms(1,3) this]]
  have r: "reaches msgget self old (init_taxi ms qs) s" .
  then show ?thesis
    using taxi_rows [OF assms(2) r] by simp
qed

theorem taxi_program_refines_witness:
  "\<exists>s. taxi_program (\<lambda>k. k) 1 (\<lambda>s. if procs s = [] then 7 else -1)
        [\<lparr>mtype = 1, type_of = REGISTER, msg_pid = 5, data = 0\<rparr>] (\<lambda>q. [])
        [OldSends \<lparr>mtype = 1, type_of = STATUS_UPDATE, msg_pid = 5, data = 9\<rparr>, CliRound [InputReady (replicate 50 NUL)]]
        (console (''create_driver'' @ [NL])) = Inr (Some (s, True))
    \<and> map dpid (procs s) = [7]
    \<and> (7 \<in> pid ` set (drivers (drain (\<lambda>k. k) s)) \<or> length (drivers (drain (\<lambda>k. k) s)) = MAX_DRIVERS)"
proof -
  let ?g = "\<lambda>k :: int. k" and ?fork = "\<lambda>s :: taxi. if procs s = [] then 7 else - 1 :: int" and ?w = "console (''create_driver'' @ [NL])"
  let ?v = "printf ''>> '' (printf taxi_banner ?w)"
  let ?a = "\<lparr>mtype = 1, type_of = REGISTER, msg_pid = 5, data = 0\<rparr>"
  let ?b = "\<lparr>mtype = 1, type_of = STATUS_UPDATE, msg_pid = 5, data = 9\<rparr>"
  have "map_sum (\<lambda>e. e) fst (next_command (replicate 50 NUL) ?v) = Inr (Some Create)" by code_simp
  then obtain v where v: "next_command (replicate 50 NUL) ?v = Inr (Some Create, v)" by (cases "next_command (replicate 50 NUL) ?v") auto
  let ?s = "create_driver ?g 7 (init_taxi [?a, ?b] (\<lambda>q. [])\<lparr>out := v\<rparr>)"
  have p: "taxi_program ?g 1 ?fork [?a] (\<lambda>q. []) [OldSends ?b, CliRound [InputReady (replicate 50 NUL)]] ?w = Inr (Some (?s, True))"
    using v by (simp add: taxi_program_def taxi_turn_def cli_round_def exec_command_def create_driver_call_def
        create_msg_queue_def CLI_QUEUE_KEY_def BASE_DRIVER_KEY_def init_taxi_def)
  have "\<forall>s. 0 < ?fork s \<longrightarrow> ?fork s \<notin> dpid ` set (procs s) \<union> {5}" by simp
  from taxi_program_refines [OF this _ _ p] p show ?thesis
    by (intro exI [of _ ?s]) (simp add: create_driver_def new_driver_def init_taxi_def Let_def)
qed

text \<open>
  At the end of its input the program does not end: whenever it looks at its input again it prints its prompt and
  nothing else.
\<close>

theorem taxi_prompts_at_eof:
  assumes "stdin (out s) = []"
  shows "taxi_run msgget self fork (replicate n (CliRound [InputReady cmd])) (s, True)
    = Inr (s\<lparr>out := printf (concat (replicate n ''>> '')) (out s)\<rparr>, True)"
  using assms
proof (induction n arbitrary: s)
  case 0
  then show ?case by (simp add: printf_def)
next
  case (Suc n)
  have "taxi_turn msgget self fork (CliRound [InputReady cmd]) (s, True) = Inr (s\<lparr>out := printf ''>> '' (out s)\<rparr>, True)"
    using Suc.prems by (simp add: taxi_turn_def cli_round_def next_command_def fgets_def printf_def Let_def)
  then show ?case using Suc.IH [of "s\<lparr>out := printf ''>> '' (out s)\<rparr>"] Suc.prems by (simp add: printf_def)
qed

end
