(* ===== verification/Processes.thy ===== *)
theory Processes
  imports C_Stdio
begin

text \<open>
  The process exercises of Module 3: the squares computed by two processes (Task 1), the
  shell with its two helper programs (Task 2) and the number passed through a pipe
  (Task 4). What \<open>fork\<close>, \<open>malloc\<close>, \<open>pipe\<close> and \<open>execv\<close> return are arguments; a process that
  is created runs the same function with the result 0 of \<open>fork\<close>.

  Proved here: the two processes of Task 1 print every square, but the program never gets
  there, because the block it allocates is too small for any number; the shell starts
  exactly the words of a line and overruns its table with eleven of them; it repeats its
  last command for ever at the end of the input; what the helpers compute; and the
  number that arrives in the file.
\<close>

section \<open>Squares (Task 1)\<close>

definition calculate_1 :: "int \<Rightarrow> int res" where
  "calculate_1 l = c_int (l * l)"

text \<open>
  The size given to \<open>malloc\<close> is \<open>argc - 1 * sizeof(int)\<close>, as a \<open>size_t\<close>. An \<open>int\<close> can be stored at
  the index \<open>i\<close> if the block has four bytes there.
\<close>

definition alloc_size :: "nat \<Rightarrow> 64 word" where
  "alloc_size argc = of_nat argc - 1 * 4"

fun fill_sides :: "nat \<Rightarrow> string list \<Rightarrow> nat \<Rightarrow> int list res" where
  "fill_sides bytes [] i = Inr []"
| "fill_sides bytes (a # as) i =
     bindE (atoi a) (\<lambda>v. if bytes < 4 * (i + 1) then Inl OutOfBounds
       else bindE (fill_sides bytes as (Suc i)) (\<lambda>vs. Inr (v # vs)))"

text \<open>The loop over a part of the array; \<open>k\<close> is added to the index in the output.\<close>

fun print_squares :: "int \<Rightarrow> nat \<Rightarrow> int list \<Rightarrow> io \<Rightarrow> io res" where
  "print_squares k i [] w = Inr w"
| "print_squares k i (x # xs) w =
     bindE (calculate_1 x) (\<lambda>a.
     print_squares k (Suc i) xs (printf (''Square area '' @ show_int (int i + k) @ '': '' @ show_int a @ [NL]) w))"

text \<open>
  One process after \<open>fork\<close>. When \<open>fork\<close> fails the array is freed and the case of the child
  follows, which reads it and frees it again.
\<close>

definition squares_process :: "int \<Rightarrow> int list \<Rightarrow> io \<Rightarrow> io res" where
  "squares_process pid sides w =
     (let half = length sides div 2
      in if pid = -1 then Inl BadPointer
         else if pid = 0 then print_squares 1 0 (take half sides) (printf (''Child process.'' @ [NL]) w)
         else print_squares 0 half (drop half sides) (printf (''Parent process.'' @ [NL]) w))"

text \<open>
  \<open>main\<close>: \<open>argv\<close> without the name of the program, the answer of \<open>malloc\<close> to a size. The result is
  the exit status; the message that there is no memory is not modelled.
\<close>

definition main_1 :: "(64 word \<Rightarrow> bool) \<Rightarrow> int \<Rightarrow> string list \<Rightarrow> io \<Rightarrow> (int \<times> io) res" where
  "main_1 malloc_ok pid args w =
     (let n = alloc_size (Suc (length args))
      in if \<not> malloc_ok n then Inr (-1, w)
         else bindE (fill_sides (unat n) args 0) (\<lambda>sides.
           bindE (squares_process pid sides w) (\<lambda>w. Inr (0, w))))"

section \<open>The shell (Task 2)\<close>

definition MAX_LENGTH_STRING :: nat where
  "MAX_LENGTH_STRING = 126"

definition MAX_ARGS :: nat where
  "MAX_ARGS = 10"

text \<open>The line without its newline.\<close>

definition read_command_line :: "cbuf \<Rightarrow> io \<Rightarrow> (cbuf \<times> io) res" where
  "read_command_line input w =
     bindE (fgets input MAX_LENGTH_STRING (printf ''>> '' w)) (\<lambda>(read, input, w).
     if \<not> read then Inr (input, w)
     else bindE (cstr input) (\<lambda>s. bindE (aget input (int (length s) - 1)) (\<lambda>c.
       if c = NL then bindE (aset input (int (length s) - 1) NUL) (\<lambda>input. Inr (input, w)) else Inr (input, w))))"

text \<open>
  The words of the line, as long as \<open>argCount < 11\<close>; \<open>n\<close> is the number of words that may
  still be stored.
\<close>

fun split_words :: "nat \<Rightarrow> string \<Rightarrow> string list" where
  "split_words 0 s = []"
| "split_words (Suc n) s = (case strtok s '' '' of None \<Rightarrow> [] | Some (a, r) \<Rightarrow> a # split_words n r)"

text \<open>
  \<open>strtok\<close> ends every word in the buffer with a NUL. Only the first of them can be seen
  later: the buffer then holds what is before the first word and that word.
\<close>

definition cut_first_word :: "cbuf \<Rightarrow> cbuf res" where
  "cut_first_word input =
     bindE (cstr input) (\<lambda>s.
     let k = length (takeWhile (\<lambda>c. c = CHR '' '') s) + length (takeWhile (\<lambda>c. c \<noteq> CHR '' '') (dropWhile (\<lambda>c. c = CHR '' '') s))
     in if k < length s then aset input (int k) NUL else Inr input)"

datatype shell_action = Again | Leave | Run "string list"

text \<open>A round up to \<open>fork\<close>; the table has \<open>MAX_ARGS + 1\<close> pointers, the last one for the null pointer.\<close>

definition shell_round :: "cbuf \<Rightarrow> io \<Rightarrow> (shell_action \<times> cbuf \<times> io) res" where
  "shell_round input w =
     bindE (read_command_line input w) (\<lambda>(input, w).
     bindE (cstr input) (\<lambda>s.
     bindE (cut_first_word input) (\<lambda>input.
     let args = split_words 11 s
     in if MAX_ARGS < length args then Inl OutOfBounds
        else if args = [] then Inr (Again, input, w)
        else if hd args = ''exit'' then Inr (Leave, input, printf (''Exiting...'' @ [NL]) w)
        else Inr (Run args, input, w))))"

text \<open>
  The shell itself, the parent of all its commands, for at most \<open>n\<close> rounds: the commands it
  starts, and whether it has left. It does not wait for them. \<open>fork_ok\<close> says in which of the
  rounds, counted backwards, \<open>fork\<close> succeeds.
\<close>

fun shell_loop :: "(nat \<Rightarrow> bool) \<Rightarrow> nat \<Rightarrow> cbuf \<Rightarrow> io \<Rightarrow> (string list list \<times> bool \<times> cbuf \<times> io) res" where
  "shell_loop fork_ok 0 input w = Inr ([], False, input, w)"
| "shell_loop fork_ok (Suc n) input w =
     bindE (shell_round input w) (\<lambda>(a, input, w). case a of
       Leave \<Rightarrow> Inr ([], True, input, w)
     | Again \<Rightarrow> shell_loop fork_ok n input w
     | Run args \<Rightarrow> if \<not> fork_ok n then Inr ([], True, input, w)
         else bindE (shell_loop fork_ok n input w) (\<lambda>(rs, r). Inr (args # rs, r)))"

text \<open>The child: another program, or a message and the status 1.\<close>

definition shell_child :: "(string \<Rightarrow> bool) \<Rightarrow> string list \<Rightarrow> io \<Rightarrow> (string list + int) \<times> io" where
  "shell_child exists args w =
     (if exists (hd args) then (Inl args, w)
      else (Inr 1, printf (''FIle doesn'' @ [CHR 0x27] @ ''t exist.'' @ [NL] @ [NL]) w))"

subsection \<open>The helpers\<close>

text \<open>\<open>sum.c\<close> and \<open>maxNumber.c\<close>; \<open>argv\<close> includes the name of the program.\<close>

fun sum_from :: "int \<Rightarrow> string list \<Rightarrow> int res" where
  "sum_from r [] = Inr r"
| "sum_from r (a # as) = bindE (atoi a) (\<lambda>v. bindE (c_int (r + v)) (\<lambda>r. sum_from r as))"

definition main_sum :: "string list \<Rightarrow> io \<Rightarrow> io res" where
  "main_sum argv w = bindE (sum_from 0 (tl argv)) (\<lambda>r. Inr (printf (''Result = '' @ show_int r @ [NL]) w))"

text \<open>The inner loop, and the outer one around it that runs once for each argument.\<close>

fun max_from :: "int \<Rightarrow> string list \<Rightarrow> int res" where
  "max_from m [] = Inr m"
| "max_from m (a # as) = bindE (atoi a) (\<lambda>v. max_from (if v > m then v else m) as)"

fun max_times :: "nat \<Rightarrow> string list \<Rightarrow> int \<Rightarrow> int res" where
  "max_times 0 argv m = Inr m"
| "max_times (Suc n) argv m = bindE (max_from m (drop 2 argv)) (max_times n argv)"

definition main_max :: "string list \<Rightarrow> io \<Rightarrow> io res" where
  "main_max argv w =
     (case argv of [] \<Rightarrow> Inl NullDeref
      | name # _ \<Rightarrow> bindE (atoi name) (\<lambda>m. bindE (max_times (length argv) argv m) (\<lambda>m.
          Inr (printf (''Max: '' @ show_int m @ [NL]) w))))"

section \<open>A number through a pipe (Task 4)\<close>

text \<open>The number the child writes; \<open>r\<close> is what \<open>rand\<close> returns.\<close>

definition child_4 :: "int \<Rightarrow> int" where
  "child_4 r = r mod 20"

text \<open>The parent with the number it reads: the status, the file and the console.\<close>

definition parent_4 :: "bool \<Rightarrow> int \<Rightarrow> string option \<Rightarrow> io \<Rightarrow> int \<times> string option \<times> io" where
  "parent_4 fopen_ok number txt w =
     (let w = printf (''Number = '' @ show_int number) (printf (''Parent process.'' @ [NL]) w)
      in if fopen_ok then (0, Some (show_int number), w) else (1, txt, w))"

text \<open>The parent's side of \<open>main\<close>, with what \<open>pipe\<close> and \<open>fork\<close> return.\<close>

definition main_4 :: "int \<Rightarrow> int \<Rightarrow> bool \<Rightarrow> int \<Rightarrow> string option \<Rightarrow> io \<Rightarrow> int \<times> string option \<times> io" where
  "main_4 ret_pipe pid fopen_ok r txt w =
     (if ret_pipe = -1 then (1, txt, w) else if pid = -1 then (1, txt, w)
      else parent_4 fopen_ok (child_4 r) txt w)"

section \<open>What the programs should do\<close>

text \<open>The line for one square.\<close>

definition square_line :: "int \<Rightarrow> int \<Rightarrow> string" where
  "square_line k x = ''Square area '' @ show_int k @ '': '' @ show_int (x * x) @ [NL]"

text \<open>Words with one space between them.\<close>

fun join_words :: "string list \<Rightarrow> string" where
  "join_words [] = []"
| "join_words [a] = a"
| "join_words (a # as) = a @ CHR '' '' # join_words as"

definition good_word :: "string \<Rightarrow> bool" where
  "good_word a = (a \<noteq> [] \<and> CHR '' '' \<notin> set a \<and> NUL \<notin> set a \<and> NL \<notin> set a)"

section \<open>Lemmas\<close>

subsection \<open>Squares\<close>

lemma fill_sides_overruns:
  "\<forall>a \<in> set args. is_ok (atoi a) \<Longrightarrow> args \<noteq> [] \<Longrightarrow> bytes < 4 * (i + length args) \<Longrightarrow> fill_sides bytes args i = Inl OutOfBounds"
proof (induction bytes args i rule: fill_sides.induct)
  case (2 bytes a as i)
  then obtain v where "atoi a = Inr v" by (auto simp: is_ok_iff)
  with 2 show ?case by (cases "as = []") (auto simp: bindE_eq_Inl)
qed simp

lemma print_squares_lines:
  "\<forall>x \<in> set xs. in_int (x * x) \<Longrightarrow>
    print_squares k i xs w = Inr (printf (concat (map (\<lambda>(j, x). square_line (int j + k) x) (zip [i..<i + length xs] xs))) w)"
proof (induction xs arbitrary: i w)
  case Nil
  then show ?case by (simp add: printf_def)
next
  case (Cons x xs)
  have "[i..<i + length (x # xs)] = i # [Suc i..<Suc i + length xs]"
    using upt_conv_Cons [of i "i + length (x # xs)"] by simp
  with Cons show ?case by (simp add: calculate_1_def c_int_def square_line_def printf_def)
qed

lemma alloc_size_cases:
  "length args < 3 \<Longrightarrow> 2 ^ 63 \<le> unat (alloc_size (Suc (length args)))"
  "3 \<le> length args \<Longrightarrow> length args < 2 ^ 31 \<Longrightarrow> unat (alloc_size (Suc (length args))) = length args - 3"
proof -
  assume "length args < 3"
  then consider "length args = 0" | "length args = 1" | "length args = 2" by linarith
  then show "2 ^ 63 \<le> unat (alloc_size (Suc (length args)))" by cases (simp_all add: alloc_size_def unsigned_minus_1_eq_mask mask_eq_exp_minus_1)
next
  assume a: "3 \<le> length args" "length args < 2 ^ 31"
  then obtain m where m: "length args = m + 3" "m < 2 ^ 64" by (intro that [of "length args - 3"]) simp_all
  then have "alloc_size (Suc (length args)) = of_nat m" by (simp add: alloc_size_def)
  with m show "unat (alloc_size (Suc (length args))) = length args - 3"
    by (simp add: unat_of_nat take_bit_nat_eq_self)
qed

subsection \<open>Words\<close>

lemma good_word_strtok:
  assumes "good_word a"
  shows "strtok (a @ CHR '' '' # s) '' '' = Some (a, s)" and "strtok a '' '' = Some (a, [])"
  using assms strtok_word [of "CHR '' ''" a] by (simp_all add: good_word_def)

lemma split_join: "\<forall>a \<in> set as. good_word a \<Longrightarrow> split_words n (join_words as) = take n as"
proof (induction as arbitrary: n rule: join_words.induct)
  case 1
  then show ?case by (cases n) (simp_all add: strtok_def)
next
  case (2 a)
  have "split_words k [] = []" for k by (cases k) (simp_all add: strtok_def)
  with 2 good_word_strtok(2) [of a] show ?case by (cases n) simp_all
next
  case (3 a b bs)
  with good_word_strtok(1) [of a "join_words (b # bs)"] show ?case by (cases n) simp_all
qed

lemma join_words_chars: "\<forall>a \<in> set as. good_word a \<Longrightarrow> NUL \<notin> set (join_words as) \<and> NL \<notin> set (join_words as)"
  by (induction as rule: join_words.induct) (auto simp: good_word_def NUL_def NL_def)

lemma join_words_hd:
  assumes "\<forall>a \<in> set as. good_word a" and "as \<noteq> []"
  shows "takeWhile (\<lambda>c. c = CHR '' '') (join_words as) = [] \<and> dropWhile (\<lambda>c. c = CHR '' '') (join_words as) = join_words as
    \<and> takeWhile (\<lambda>c. c \<noteq> CHR '' '') (join_words as) = hd as"
proof (cases as rule: join_words.cases)
  case (2 a)
  with assms show ?thesis by (cases a) (auto simp: good_word_def)
next
  case (3 a b bs)
  with assms have a: "good_word a" by simp
  then have "takeWhile (\<lambda>c. c \<noteq> CHR '' '') (a @ CHR '' '' # join_words (b # bs)) = a" by (simp add: good_word_def)
  with a 3 show ?thesis by (cases a) (auto simp: good_word_def)
qed (use assms in simp)

subsection \<open>The shell\<close>

lemma read_command_line_typed:
  assumes "stdin w = l @ NL # r" and "NL \<notin> set l" and "NUL \<notin> set l" and "length l < 125" and "length input = MAX_LENGTH_STRING"
  shows "\<exists>b w'. read_command_line input w = Inr (b, w') \<and> cstr b = Inr l \<and> length b = MAX_LENGTH_STRING \<and> stdin w' = r"
proof -
  let ?w = "printf ''>> '' w"
  let ?b = "l @ NL # NUL # drop (Suc (Suc (length l))) input"
  have f: "fgets input MAX_LENGTH_STRING ?w = Inr (True, ?b, ?w\<lparr>stdin := r\<rparr>)"
    using assms by (intro fgets_newline) (simp_all add: printf_def MAX_LENGTH_STRING_def)
  have c: "cstr ?b = Inr (l @ [NL])" using takeWhile_until [of NUL "l @ [NL]"] assms(3) by (simp add: cstr_def)
  have n: "aget ?b (int (length (l @ [NL])) - 1) = Inr NL" by (simp add: aget_def nth_append)
  have "?b[length l := NUL] = l @ NUL # NUL # drop (Suc (Suc (length l))) input" by (simp add: list_update_append)
  then have u: "aset ?b (int (length (l @ [NL])) - 1) NUL = Inr (l @ NUL # NUL # drop (Suc (Suc (length l))) input)"
    by (simp add: aset_def)
  have "cstr (l @ NUL # NUL # drop (Suc (Suc (length l))) input) = Inr l" using assms(3) by (simp add: cstr_def)
  moreover have "length (l @ NUL # NUL # drop (Suc (Suc (length l))) input) = MAX_LENGTH_STRING"
    using assms(4,5) by (simp add: MAX_LENGTH_STRING_def)
  ultimately show ?thesis
    using f c n u by (simp add: read_command_line_def printf_def del: length_append)
qed

lemma cut_first_word_join:
  assumes "\<forall>a \<in> set as. good_word a" and "as \<noteq> []" and "cstr b = Inr (join_words as)"
  shows "\<exists>b'. cut_first_word b = Inr b' \<and> cstr b' = Inr (hd as) \<and> length b' = length b"
proof -
  let ?l = "join_words as"
  note h = join_words_hd [OF assms(1,2)]
  have t: "take (length (hd as)) ?l = hd as" using h takeWhile_eq_take [of "\<lambda>c. c \<noteq> CHR '' ''" ?l] by simp
  have len: "length (hd as) \<le> length ?l" using h length_takeWhile_le [of "\<lambda>c. c \<noteq> CHR '' ''" ?l] by simp
  have c: "cut_first_word b = (if length (hd as) < length ?l then aset b (int (length (hd as))) NUL else Inr b)"
    using h by (simp add: cut_first_word_def assms(3))
  show ?thesis
  proof (cases "length (hd as) < length ?l")
    case True
    have "length ?l < length b" using assms(3) by (rule cstr_length)
    with True have "aset b (int (length (hd as))) NUL = Inr (b[length (hd as) := NUL])" by simp
    moreover have "cstr (b[length (hd as) := NUL]) = Inr (hd as)" using cstr_cut [OF assms(3) len] t by simp
    ultimately show ?thesis using True c by simp
  next
    case False
    with len have "take (length (hd as)) ?l = ?l" by simp
    with t have "?l = hd as" by metis
    then have "cstr b = Inr (hd as)" using assms(3) by (simp only:)
    moreover have "cut_first_word b = Inr b" using False c by simp
    ultimately show ?thesis by blast
  qed
qed

text \<open>A round of the shell for a buffer with words in it.\<close>

lemma shell_round_words:
  assumes "read_command_line input w = Inr (b, w')" and "cstr b = Inr (join_words as)"
    and "\<forall>a \<in> set as. good_word a" and "as \<noteq> []" and "hd as \<noteq> ''exit''"
  shows "\<exists>b'. cstr b' = Inr (hd as) \<and> length b' = length b
    \<and> shell_round input w = (if 10 < length as then Inl OutOfBounds else Inr (Run as, b', w'))"
proof -
  from cut_first_word_join [OF assms(3,4,2)] obtain b' where
    "cut_first_word b = Inr b'" "cstr b' = Inr (hd as)" "length b' = length b" by blast
  moreover have "hd (take 11 as) = hd as" using assms(4) by (cases as) simp_all
  ultimately show ?thesis
    using assms split_join [OF assms(3), of 11] by (auto simp: shell_round_def Let_def MAX_ARGS_def)
qed

lemma shell_eof:
  assumes "cstr b = Inr a" and "good_word a" and "a \<noteq> ''exit''" and "stdin w = []"
  shows "\<exists>b' w'. shell_round b w = Inr (Run [a], b', w') \<and> cstr b' = Inr a \<and> stdin w' = []"
proof -
  have "read_command_line b w = Inr (b, printf ''>> '' w)"
    using assms(4) by (simp add: read_command_line_def fgets_def printf_def)
  from shell_round_words [OF this, of "[a]"] assms show ?thesis by (auto simp: printf_def)
qed

lemma shell_loop_eof:
  "cstr b = Inr a \<Longrightarrow> good_word a \<Longrightarrow> a \<noteq> ''exit'' \<Longrightarrow> stdin w = [] \<Longrightarrow>
    \<exists>r. shell_loop (\<lambda>_. True) n b w = Inr (replicate n [a], False, r)"
proof (induction n arbitrary: b w)
  case (Suc n)
  from shell_eof [OF Suc.prems] obtain b' w' where
    "shell_round b w = Inr (Run [a], b', w')" "cstr b' = Inr a" "stdin w' = []" by blast
  with Suc.IH [of b' w'] Suc.prems(2,3) show ?case by auto
qed simp

subsection \<open>The helpers\<close>

lemma max_from_Max: "list_all2 (\<lambda>a v. atoi a = Inr v) as vs \<Longrightarrow> max_from m as = Inr (Max (insert m (set vs)))"
proof (induction as arbitrary: m vs)
  case (Cons a as)
  then obtain v vs' where v: "vs = v # vs'" "atoi a = Inr v" "list_all2 (\<lambda>a v. atoi a = Inr v) as vs'"
    by (auto simp: list_all2_Cons1)
  have "max_from m (a # as) = Inr (Max (insert (max m v) (set vs')))"
    using Cons.IH [OF v(3), of "max m v"] v(2) by (cases "m < v") (simp_all add: max_absorb1 max_absorb2)
  moreover have "Max (insert (max m v) (set vs')) = Max (insert m (set vs))"
    using v(1) by (cases "vs' = []") (simp_all add: Max_insert max.assoc)
  ultimately show ?case by simp
qed simp

lemma max_times_Max:
  assumes "list_all2 (\<lambda>a v. atoi a = Inr v) (drop 2 argv) vs"
  shows "0 < n \<Longrightarrow> max_times n argv m = Inr (Max (insert m (set vs)))"
proof (induction n arbitrary: m)
  case (Suc n)
  have "max_times (Suc n) argv m = max_times n argv (Max (insert m (set vs)))"
    using max_from_Max [OF assms, of m] by simp
  moreover have "Max (insert (Max (insert m (set vs))) (set vs)) = Max (insert m (set vs))"
    by (cases "vs = []") (simp_all add: Max_insert max.assoc)
  ultimately show ?case using Suc.IH [of "Max (insert m (set vs))"] by (cases n) simp_all
qed simp

lemma sum_from_sum:
  "list_all2 (\<lambda>a v. atoi a = Inr v) as vs \<Longrightarrow> \<forall>k \<le> length vs. in_int (r + sum_list (take k vs)) \<Longrightarrow>
    sum_from r as = Inr (r + sum_list vs)"
proof (induction as arbitrary: r vs)
  case (Cons a as)
  then obtain v vs' where v: "vs = v # vs'" "atoi a = Inr v" "list_all2 (\<lambda>a v. atoi a = Inr v) as vs'"
    by (auto simp: list_all2_Cons1)
  have "in_int (r + v)" using Cons.prems(2) [rule_format, of 1] v(1) by simp
  moreover have "\<forall>k \<le> length vs'. in_int ((r + v) + sum_list (take k vs'))"
  proof (intro allI impI)
    fix k assume "k \<le> length vs'"
    with Cons.prems(2) [rule_format, of "Suc k"] v(1) show "in_int ((r + v) + sum_list (take k vs'))"
      by (simp add: add.assoc)
  qed
  ultimately show ?case using Cons.IH [OF v(3), of "r + v"] v by (simp add: c_int_def add.assoc)
qed simp

section \<open>Properties\<close>

text \<open>
  On an array of sides whose squares are in range, the child of Task 1 prints the squares
  of the first half and the parent those of the second half, in order; the child counts
  from one and the parent from zero.
\<close>

theorem squares_printed:
  assumes "\<forall>x \<in> set sides. in_int (x * x)" and "0 < pid" and "h = length sides div 2"
  shows "squares_process 0 sides w = Inr (printf (concat (map (\<lambda>i. square_line (int i + 1) (sides ! i)) [0..<h]))
      (printf (''Child process.'' @ [NL]) w))
    \<and> squares_process pid sides w = Inr (printf (concat (map (\<lambda>i. square_line (int i) (sides ! i)) [h..<length sides]))
      (printf (''Parent process.'' @ [NL]) w))"
proof -
  have z: "map (\<lambda>(j, x). square_line (int j + k) x) (zip [i..<i + length xs] xs) =
      map (\<lambda>j. square_line (int j + k) (sides ! j)) [i..<i + length xs]"
    if "\<And>j. j < length xs \<Longrightarrow> xs ! j = sides ! (i + j)" for k i xs
    using that by (intro nth_equalityI) (simp_all add: nth_append)
  have h: "h \<le> length sides" using assms(3) by simp
  have "\<forall>x \<in> set (take h sides). in_int (x * x)" "\<forall>x \<in> set (drop h sides). in_int (x * x)"
    using assms(1) by (auto dest: in_set_takeD in_set_dropD)
  note p = print_squares_lines [OF this(1), of 1 0] print_squares_lines [OF this(2), of 0 h]
  have "print_squares 1 0 (take h sides) u = Inr (printf (concat (map (\<lambda>i. square_line (int i + 1) (sides ! i)) [0..<h])) u)" for u
    using p(1) [of u] z [of "take h sides" 0 1] h by (simp add: min_absorb2)
  moreover have "print_squares 0 h (drop h sides) u = Inr (printf (concat (map (\<lambda>i. square_line (int i) (sides ! i)) [h..<length sides])) u)" for u
    using p(2) [of u] z [of "drop h sides" h 0] h by simp
  ultimately show ?thesis using assms(2,3) by (simp add: squares_process_def)
qed

theorem squares_printed_witness:
  "squares_process 0 [2, 3, 4] (console []) = Inr (printf (concat (map (\<lambda>i. square_line (int i + 1) ([2, 3, 4] ! i)) [0..<1]))
      (printf (''Child process.'' @ [NL]) (console [])))
    \<and> squares_process 7 [2, 3, 4] (console []) = Inr (printf (concat (map (\<lambda>i. square_line (int i) ([2, 3, 4] ! i)) [1..<length [2 :: int, 3, 4]]))
      (printf (''Parent process.'' @ [NL]) (console [])))"
  by (rule squares_printed) (simp_all add: c_arith)

text \<open>
  The program of Task 1 never gets to its squares: with a \<open>malloc\<close> that refuses blocks of
  2^63 bytes and more, it either finds no memory or stores its numbers behind the
  block, whose size is the number of arguments less three.
\<close>

theorem squares_never:
  assumes "\<forall>a \<in> set args. is_ok (atoi a)" and "length args < 2 ^ 31" and "\<And>n. 2 ^ 63 \<le> unat n \<Longrightarrow> \<not> malloc_ok n"
  shows "main_1 malloc_ok pid args w =
    (if malloc_ok (alloc_size (Suc (length args))) then Inl OutOfBounds else Inr (-1, w))"
proof (cases "malloc_ok (alloc_size (Suc (length args)))")
  case True
  with assms(3) alloc_size_cases(1) [of args] have n: "3 \<le> length args" by (metis not_less)
  then have "args \<noteq> []" "length args - 3 < 4 * (0 + length args)" by auto
  from fill_sides_overruns [OF assms(1) this] alloc_size_cases(2) [OF n assms(2)] True
  show ?thesis by (simp add: main_1_def Let_def)
qed (simp add: main_1_def Let_def)

theorem squares_never_witness:
  "main_1 (\<lambda>n. unat n < 1000) 0 [''2'', ''3'', ''4'', ''5''] (console []) =
    (if unat (alloc_size (Suc (length [''2'', ''3'', ''4'', ''5'']))) < 1000 then Inl OutOfBounds else Inr (-1, console []))"
proof (rule squares_never [where malloc_ok = "\<lambda>n. unat n < 1000"])
  have "\<forall>a \<in> set [''2'', ''3'', ''4'', ''5'']. is_ok (atoi a)" by code_simp
  then show "\<forall>a \<in> set [''2'', ''3'', ''4'', ''5'']. is_ok (atoi a)" .
qed auto

text \<open>
  C23: The shell of Task 2 starts a line of one to ten words as the command with exactly
  these words; with eleven or more words it writes behind its table of arguments.
\<close>

theorem shell_starts_words:
  assumes "stdin w = join_words as @ NL # r" and "\<forall>a \<in> set as. good_word a" and "as \<noteq> []" and "hd as \<noteq> ''exit''"
    and "length (join_words as) < 125" and "length input = MAX_LENGTH_STRING"
  shows "\<exists>b w'. shell_round input w = (if length as \<le> 10 then Inr (Run as, b, w') else Inl OutOfBounds) \<and> stdin w' = r"
proof -
  note c = join_words_chars [OF assms(2)]
  from read_command_line_typed [OF assms(1) _ _ assms(5,6)] c obtain b w' where
    "read_command_line input w = Inr (b, w')" "cstr b = Inr (join_words as)" "stdin w' = r" by blast
  moreover from this shell_round_words [of input w b w' as] assms(2-4) obtain b' where
    "shell_round input w = (if 10 < length as then Inl OutOfBounds else Inr (Run as, b', w'))" by blast
  ultimately show ?thesis by (intro exI [of _ b'] exI [of _ w']) simp
qed

theorem shell_starts_words_witness:
  "\<exists>b w'. shell_round (replicate MAX_LENGTH_STRING NUL) (console (join_words [''./sum'', ''1'', ''2''] @ NL # []))
      = (if length [''./sum'', ''1'', ''2''] \<le> 10 then Inr (Run [''./sum'', ''1'', ''2''], b, w') else Inl OutOfBounds) \<and> stdin w' = []"
  by (rule shell_starts_words) (simp_all add: console_def good_word_def NUL_def NL_def MAX_LENGTH_STRING_def)

text \<open>
  C38: When its input ends after a command, the shell of Task 2 does not leave: it starts the first word
  of that command again and again, for as many rounds as one likes.
\<close>

theorem shell_repeats_at_eof:
  assumes "stdin w = join_words as @ [NL]" and "\<forall>a \<in> set as. good_word a" and "as \<noteq> []" and "length as \<le> 10"
    and "hd as \<noteq> ''exit''" and "length (join_words as) < 125" and "length input = MAX_LENGTH_STRING"
  shows "\<exists>r. shell_loop (\<lambda>_. True) (Suc n) input w = Inr (as # replicate n [hd as], False, r)"
proof -
  note c = join_words_chars [OF assms(2)]
  from read_command_line_typed [OF assms(1) _ _ assms(6,7)] c obtain b w' where
    "read_command_line input w = Inr (b, w')" "cstr b = Inr (join_words as)" "stdin w' = []" by blast
  with shell_round_words [of input w b w' as] assms(2-5) obtain b' where
    "shell_round input w = Inr (Run as, b', w')" "cstr b' = Inr (hd as)" "stdin w' = []" by auto
  with shell_loop_eof [of b' "hd as" w' n] assms(2,3,5) show ?thesis by auto
qed

theorem shell_repeats_at_eof_witness:
  "\<exists>r. shell_loop (\<lambda>_. True) (Suc 4) (replicate MAX_LENGTH_STRING NUL) (console (join_words [''./sum'', ''1''] @ [NL]))
    = Inr ([''./sum'', ''1''] # replicate 4 [hd [''./sum'', ''1'']], False, r)"
  by (rule shell_repeats_at_eof) (simp_all add: console_def good_word_def NUL_def NL_def MAX_LENGTH_STRING_def)

text \<open>
  The helpers of Task 2: \<open>sum\<close> adds its arguments, as long as no partial sum
  overflows; \<open>maxNumber\<close> compares the name of the program, read as a number, with all
  arguments but the first.
\<close>

theorem helpers_compute:
  assumes "list_all2 (\<lambda>a v. atoi a = Inr v) as vs" and "atoi name = Inr m" and "atoi a = Inr v"
    and "\<forall>k \<le> Suc (length vs). in_int (sum_list (take k (v # vs)))"
  shows "main_sum (name # a # as) w = Inr (printf (''Result = '' @ show_int (v + sum_list vs) @ [NL]) w)
    \<and> main_max (name # a # as) w = Inr (printf (''Max: '' @ show_int (Max (insert m (set vs))) @ [NL]) w)"
proof -
  have "sum_from 0 (a # as) = Inr (0 + sum_list (v # vs))"
    using assms(1,3,4) by (intro sum_from_sum) simp_all
  moreover have "max_times (length (name # a # as)) (name # a # as) m = Inr (Max (insert m (set vs)))"
    using assms(1) by (intro max_times_Max) simp_all
  ultimately show ?thesis using assms(2) by (simp add: main_sum_def main_max_def del: sum_from.simps max_times.simps)
qed

theorem helpers_compute_witness:
  "main_sum [''./max'', ''9'', ''4'', ''7''] (console []) = Inr (printf (''Result = '' @ show_int (9 + sum_list [4, 7]) @ [NL]) (console []))
    \<and> main_max [''./max'', ''9'', ''4'', ''7''] (console []) = Inr (printf (''Max: '' @ show_int (Max (insert 0 (set [4, 7]))) @ [NL]) (console []))"
proof (rule helpers_compute)
  show "list_all2 (\<lambda>a v. atoi a = Inr v) [''4'', ''7''] [4, 7]" "atoi ''./max'' = Inr 0" "atoi ''9'' = Inr 9" by code_simp+
  show "\<forall>k \<le> Suc (length [4, 7 :: int]). in_int (sum_list (take k [9, 4, 7]))"
    by (auto simp: c_arith le_Suc_eq)
qed

text \<open>
  In Task 4 the number the child draws, below 20, arrives in the parent and can be read back from the file it
  writes.
\<close>

theorem pipe_number_stored:
  assumes "ret_pipe \<noteq> -1" and "0 < pid"
  shows "\<exists>s w'. main_4 ret_pipe pid True r txt w = (0, Some s, w') \<and> atoi s = Inr (r mod 20)
    \<and> stdout w' = stdout w @ ''Parent process.'' @ [NL] @ ''Number = '' @ s"
proof -
  have "0 \<le> r mod 20" "r mod 20 < 20" by simp_all
  then have "in_int (r mod 20)" unfolding c_arith by linarith
  with assms show ?thesis by (simp add: main_4_def parent_4_def child_4_def atoi_show_int printf_def Let_def)
qed

theorem pipe_number_stored_witness:
  "\<exists>s w'. main_4 0 7 True 1804289383 None (console []) = (0, Some s, w') \<and> atoi s = Inr (1804289383 mod 20)
    \<and> stdout w' = stdout (console []) @ ''Parent process.'' @ [NL] @ ''Number = '' @ s"
  by (rule pipe_number_stored) simp_all

end
