(* ===== verification/Phone_Book.thy ===== *)
theory Phone_Book
  imports C_Stdio
begin

text \<open>
  The phone book of Module 3, Task 3: an array of people that is loaded from
  \<open>phonebook.txt\<close> when the program starts and written back on demand. The array is a local
  of \<open>main\<close> that is never initialised; its first contents, and those of the other
  uninitialised locals, are arguments. The file is its text, or \<open>None\<close> when there is no such
  file. Whether \<open>open\<close> succeeds, and how many bytes each \<open>write\<close> takes (\<open>None\<close> when it
  fails), are arguments too. Messages on the error output are not modelled.

  Proved here: what is read back of a saved book (the format is its own inverse up to the
  limit of the reader and the first empty name), deletion, editing, the bounds of the
  array, and the overrun when the array is full.
\<close>

section \<open>Data\<close>

definition MAX_LENGHT_STRUCT :: int where
  "MAX_LENGHT_STRUCT = 2"

definition MAX_LENGHT :: nat where
  "MAX_LENGHT = 30"

record person =
  person_id :: int
  name :: cbuf
  surname :: cbuf

record phone_book =
  people :: "person list"
  userCount :: int

section \<open>The file\<close>

text \<open>\<open>%n[...]\<close>: up to \<open>n\<close> characters of the set, and the rest of the input.\<close>

fun scan_set :: "nat \<Rightarrow> (char \<Rightarrow> bool) \<Rightarrow> string \<Rightarrow> string \<times> string" where
  "scan_set (Suc n) P (c # cs) = (if P c then (let (l, r) = scan_set n P cs in (c # l, r)) else ([], c # cs))"
| "scan_set _ P s = ([], s)"

text \<open>
  The call of \<open>fscanf\<close> with the format \<open>%d|%29[^|]|%29[^n]n\<close>, where \<open>n\<close> stands for the
  newline character, into one person: the number of fields that were assigned, the person and the unread rest. Directives after the first one that does not
  match are not tried.
\<close>

definition fscanf_surname :: "person \<Rightarrow> string \<Rightarrow> (nat \<times> person \<times> string) res" where
  "fscanf_surname p s =
     (let (l, r) = scan_set 29 (\<lambda>c. c \<noteq> NL) s
      in if l = [] then Inr (2, p, s)
         else bindE (put_str (surname p) l) (\<lambda>b. Inr (3, p\<lparr>surname := b\<rparr>, dropWhile isspace r)))"

definition fscanf_name :: "person \<Rightarrow> string \<Rightarrow> (nat \<times> person \<times> string) res" where
  "fscanf_name p s =
     (let (l, r) = scan_set 29 (\<lambda>c. c \<noteq> CHR ''|'') s
      in if l = [] then Inr (1, p, s)
         else bindE (put_str (name p) l) (\<lambda>b.
           let p = p\<lparr>name := b\<rparr>
           in case r of c # r' \<Rightarrow> if c = CHR ''|'' then fscanf_surname p r' else Inr (2, p, r)
              | [] \<Rightarrow> Inr (2, p, [])))"

definition fscanf_person :: "person \<Rightarrow> string \<Rightarrow> (nat \<times> person \<times> string) res" where
  "fscanf_person p s =
     (case scan_int s of
        (None, r) \<Rightarrow> Inr (0, p, r)
      | (Some v, r) \<Rightarrow> bindE (c_int v) (\<lambda>v.
          let p = p\<lparr>person_id := v\<rparr>
          in case r of c # r' \<Rightarrow> if c = CHR ''|'' then fscanf_name p r' else Inr (1, p, r)
             | [] \<Rightarrow> Inr (1, p, [])))"

function load_people :: "person list \<Rightarrow> int \<Rightarrow> string \<Rightarrow> phone_book res" where
  "load_people us n s =
     bindE (aget us n) (\<lambda>p. bindE (fscanf_person p s) (\<lambda>(k, p, s).
     bindE (aset us n p) (\<lambda>us.
     if k = 3 then
       (if n + 1 \<ge> MAX_LENGHT_STRUCT then Inr \<lparr>people = us, userCount = n + 1\<rparr>
        else load_people us (n + 1) s)
     else Inr \<lparr>people = us, userCount = n\<rparr>)))"
  by pat_completeness auto
termination by (relation "measure (\<lambda>(us, n, s). nat (MAX_LENGHT_STRUCT - n))") auto

definition loadFromFile :: "string option \<Rightarrow> phone_book \<Rightarrow> io \<Rightarrow> (phone_book \<times> io) res" where
  "loadFromFile file b w =
     (case file of None \<Rightarrow> Inr (b, w)
      | Some s \<Rightarrow> bindE (load_people (people b) 0 s) (\<lambda>b.
          Inr (b, printf (''Data loaded from file.'' @ [NL]) w)))"

text \<open>The line of one person, formatted by \<open>snprintf\<close> into \<open>MAX_LENGHT * 3\<close> characters.\<close>

definition person_line :: "person \<Rightarrow> string res" where
  "person_line p =
     bindE (cstr (name p)) (\<lambda>na. bindE (cstr (surname p)) (\<lambda>su.
     Inr (take (MAX_LENGHT * 3 - 1) (show_int (person_id p) @ ''|'' @ na @ ''|'' @ su @ [NL]))))"

text \<open>The loop over the people: the text written so far, and whether all writes succeeded.\<close>

function write_people :: "(int \<Rightarrow> string \<Rightarrow> nat option) \<Rightarrow> phone_book \<Rightarrow> int \<Rightarrow> string \<Rightarrow> (string \<times> bool) res" where
  "write_people wr b i out =
     (if i < userCount b then bindE (aget (people b) i) (\<lambda>p. bindE (person_line p) (\<lambda>data.
        case wr i data of None \<Rightarrow> Inr (out, False)
        | Some k \<Rightarrow> write_people wr b (i + 1) (out @ take k data)))
      else Inr (out, True))"
  by pat_completeness auto
termination by (relation "measure (\<lambda>(wr, b, i, out). nat (userCount b - i))") auto

definition saveToFile ::
  "bool \<Rightarrow> (int \<Rightarrow> string \<Rightarrow> nat option) \<Rightarrow> string option \<Rightarrow> phone_book \<Rightarrow> io \<Rightarrow> (string option \<times> io) res" where
  "saveToFile open_ok wr file b w =
     (if \<not> open_ok then Inr (file, w)
      else bindE (write_people wr b 0 []) (\<lambda>(text, ok).
        Inr (Some text, if ok then printf (''Data saved to file.'' @ [NL]) w else w)))"

section \<open>The dialogues\<close>

definition RULER :: string where
  "RULER = ''----------------------------------'' @ [NL]"

text \<open>\<open>fgets\<close> into a field and the cut at the newline.\<close>

definition read_field :: "cbuf \<Rightarrow> io \<Rightarrow> (cbuf \<times> io) res" where
  "read_field f w =
     bindE (fgets f MAX_LENGHT w) (\<lambda>(_, f, w).
     bindE (strcspn f [NL]) (\<lambda>k.
     bindE (aset f k NUL) (\<lambda>f. Inr (f, w))))"

definition read_name :: "string \<Rightarrow> person \<Rightarrow> io \<Rightarrow> (person \<times> io) res" where
  "read_name prompt p w = bindE (read_field (name p) (printf prompt w)) (\<lambda>(f, w). Inr (p\<lparr>name := f\<rparr>, w))"

definition read_surname :: "string \<Rightarrow> person \<Rightarrow> io \<Rightarrow> (person \<times> io) res" where
  "read_surname prompt p w = bindE (read_field (surname p) (printf prompt w)) (\<lambda>(f, w). Inr (p\<lparr>surname := f\<rparr>, w))"

text \<open>\<open>buffer\<close> is the uninitialised local of the function.\<close>

definition addPerson :: "cbuf \<Rightarrow> phone_book \<Rightarrow> io \<Rightarrow> (phone_book \<times> io) res" where
  "addPerson buffer b w =
     (let w = printf ''Enter which id you want: '' (printf RULER (getchar w)) in
      bindE (fgets buffer MAX_LENGHT w) (\<lambda>(_, buffer, w).
      bindE (cstr buffer) (\<lambda>s. bindE (atoi s) (\<lambda>i.
      bindE (aget (people b) (userCount b)) (\<lambda>p.
      bindE (read_name ''Enter your name: '' (p\<lparr>person_id := i\<rparr>) w) (\<lambda>(p, w).
      bindE (read_surname ''Enter your surname: '' p w) (\<lambda>(p, w).
      bindE (aset (people b) (userCount b) p) (\<lambda>us.
      bindE (c_int (userCount b + 1)) (\<lambda>n.
      Inr (\<lparr>people = us, userCount = n\<rparr>, printf RULER (printf (''User was added.'' @ [NL]) w)))))))))))"

text \<open>The loop that looks for an id: the index, or -1.\<close>

function find_index :: "int \<Rightarrow> phone_book \<Rightarrow> int \<Rightarrow> int res" where
  "find_index d b i =
     (if i < userCount b then bindE (aget (people b) i) (\<lambda>p.
        if person_id p = d then Inr i else find_index d b (i + 1))
      else Inr (-1))"
  by pat_completeness auto
termination by (relation "measure (\<lambda>(d, b, i). nat (userCount b - i))") auto

definition not_found_text :: "int \<Rightarrow> string" where
  "not_found_text d = ''Person with ID '' @ show_int d @ '' not found.'' @ [NL]"

definition deletePerson :: "int \<Rightarrow> phone_book \<Rightarrow> io \<Rightarrow> (phone_book \<times> io) res" where
  "deletePerson loc b w =
     bindE (scanf_d loc (printf ''Enter ID person to delete: '' w)) (\<lambda>(d, w).
     bindE (find_index d b 0) (\<lambda>index.
     if index = -1 then Inr (b, printf (not_found_text d) w)
     else bindE (shift_left (people b) index (userCount b)) (\<lambda>us.
       Inr (\<lparr>people = us, userCount = userCount b - 1\<rparr>,
         printf (''Person with ID '' @ show_int d @ '' deleted.'' @ [NL]) w))))"

definition editPerson :: "int \<Rightarrow> phone_book \<Rightarrow> io \<Rightarrow> (phone_book \<times> io) res" where
  "editPerson loc b w =
     bindE (scanf_d loc (printf ''Enter the ID of the person to edit: '' w)) (\<lambda>(d, w).
     let w = getchar w in
     bindE (find_index d b 0) (\<lambda>index.
     if index = -1 then Inr (b, printf (not_found_text d) w)
     else bindE (aget (people b) index) (\<lambda>p.
       bindE (read_name ''Enter new name: '' p w) (\<lambda>(p, w).
       bindE (read_surname ''Enter new surname: '' p w) (\<lambda>(p, w).
       bindE (aset (people b) index p) (\<lambda>us.
       Inr (b\<lparr>people := us\<rparr>, printf (''Person with ID '' @ show_int d @ '' updated.'' @ [NL]) w)))))))"

text \<open>\<open>trashDestroyer\<close> clears the first people of the array; its call in \<open>main\<close> is commented out.\<close>

definition zero_person :: person where
  "zero_person = \<lparr>person_id = 0, name = replicate MAX_LENGHT NUL, surname = replicate MAX_LENGHT NUL\<rparr>"

fun clear_names :: "nat \<Rightarrow> person list \<Rightarrow> person list res" where
  "clear_names 0 us = Inr us"
| "clear_names (Suc i) us =
     bindE (clear_names i us) (\<lambda>us. bindE (aget us (int i)) (\<lambda>p.
     bindE (aset (name p) 0 NUL) (\<lambda>n. bindE (aset (surname p) 0 NUL) (\<lambda>s.
     aset us (int i) (p\<lparr>name := n, surname := s\<rparr>)))))"

definition trashDestroyer :: "person list \<Rightarrow> person list res" where
  "trashDestroyer us =
     (if int (length us) < MAX_LENGHT_STRUCT then Inl OutOfBounds
      else clear_names (nat MAX_LENGHT_STRUCT)
        (replicate (nat MAX_LENGHT_STRUCT) zero_person @ drop (nat MAX_LENGHT_STRUCT) us))"

section \<open>The menu\<close>

definition phone_menu_text :: string where
  "phone_menu_text = ''-----Main Menu-----'' @ [NL] @ ''1. Add Person.'' @ [NL] @ ''2. Delete Person.'' @ [NL]
     @ ''3. Edit Person.'' @ [NL] @ ''4. Save to File.'' @ [NL] @ ''5. Exit.'' @ [NL] @ ''Choose an option.'' @ [NL]"

text \<open>
  What the program finds when it runs: the uninitialised locals, and how the calls that
  write the file end.
\<close>

record phone_env =
  env_id :: int
  env_buf :: cbuf
  env_open :: bool
  env_write :: "int \<Rightarrow> string \<Rightarrow> nat option"

type_synonym phone_state = "int \<times> phone_book \<times> string option \<times> io"

definition phone_switch :: "phone_env \<Rightarrow> phone_state \<Rightarrow> phone_state res" where
  "phone_switch e = (\<lambda>(x, b, file, w).
     if x = 1 then bindE (addPerson (env_buf e) b w) (\<lambda>(b, w). Inr (x, b, file, w))
     else if x = 2 then bindE (deletePerson (env_id e) b w) (\<lambda>(b, w). Inr (x, b, file, w))
     else if x = 3 then bindE (editPerson (env_id e) b w) (\<lambda>(b, w). Inr (x, b, file, w))
     else if x = 4 then bindE (saveToFile (env_open e) (env_write e) file b w) (\<lambda>(file, w). Inr (x, b, file, w))
     else Inr (x, b, file, w))"

definition phone_body :: "phone_env \<Rightarrow> phone_state \<Rightarrow> (phone_state \<times> bool) res" where
  "phone_body e = (\<lambda>(x, b, file, w).
     bindE (scanf_d x (printf phone_menu_text w)) (\<lambda>(x, w).
     bindE (phone_switch e (x, b, file, w)) (\<lambda>s. Inr (s, x \<noteq> 5))))"

text \<open>Before the first round \<open>expression\<close> is unset; \<open>es k\<close> is what round \<open>k\<close> finds.\<close>

definition phone_main :: "nat \<Rightarrow> int \<Rightarrow> (nat \<Rightarrow> phone_env) \<Rightarrow> person list \<Rightarrow> string option \<Rightarrow> io \<Rightarrow> phone_state res" where
  "phone_main fuel expression es garbage file w =
     bindE (loadFromFile file \<lparr>people = garbage, userCount = 0\<rparr> w) (\<lambda>(b, w).
     rounds fuel (\<lambda>k. phone_body (es k)) (expression, b, file, w))"

section \<open>The people in use\<close>

definition users :: "phone_book \<Rightarrow> person list" where
  "users b = take (nat (userCount b)) (people b)"

definition wf_person :: "person \<Rightarrow> bool" where
  "wf_person p = (length (name p) = MAX_LENGHT \<and> length (surname p) = MAX_LENGHT)"

definition phone_inv :: "phone_book \<Rightarrow> bool" where
  "phone_inv b = (length (people b) = MAX_LENGHT \<and> (\<forall>p \<in> set (people b). wf_person p)
     \<and> 0 \<le> userCount b \<and> userCount b \<le> int MAX_LENGHT)"

text \<open>What a person says: the id and the two strings.\<close>

type_synonym entry = "int \<times> string \<times> string"

definition says :: "person \<Rightarrow> entry \<Rightarrow> bool" where
  "says p = (\<lambda>(i, na, su). person_id p = i \<and> cstr (name p) = Inr na \<and> cstr (surname p) = Inr su)"

text \<open>Entries whose fields do not contain the character that ends them.\<close>

definition plain :: "entry \<Rightarrow> bool" where
  "plain = (\<lambda>(i, na, su). in_int i \<and> CHR ''|'' \<notin> set na \<and> NL \<notin> set su)"

definition has_names :: "entry \<Rightarrow> bool" where
  "has_names = (\<lambda>(i, na, su). na \<noteq> [] \<and> su \<noteq> [])"

definition entry_line :: "entry \<Rightarrow> string" where
  "entry_line = (\<lambda>(i, na, su). show_int i @ ''|'' @ na @ ''|'' @ su @ [NL])"

text \<open>Entries that fit into the fields of a person.\<close>

definition short :: "entry \<Rightarrow> bool" where
  "short = (\<lambda>(i, na, su). length na \<le> 29 \<and> NUL \<notin> set na \<and> length su \<le> 29 \<and> NUL \<notin> set su)"

text \<open>The first person with an id is removed.\<close>

fun drop_person :: "int \<Rightarrow> person list \<Rightarrow> person list" where
  "drop_person d [] = []"
| "drop_person d (p # ps) = (if person_id p = d then ps else p # drop_person d ps)"

text \<open>A book with three people, for the examples.\<close>

definition person_of :: "entry \<Rightarrow> person" where
  "person_of = (\<lambda>(i, na, su). \<lparr>person_id = i, name = na @ replicate (MAX_LENGHT - length na) NUL,
     surname = su @ replicate (MAX_LENGHT - length su) NUL\<rparr>)"

definition sample_people :: phone_book where
  "sample_people = \<lparr>people = map person_of [(7, ''Ann'', ''Lee''), (8, ''Bo'', ''Kay''), (9, ''Cy'', ''Orr'')]
     @ replicate 27 zero_person, userCount = 3\<rparr>"

definition sample_env :: phone_env where
  "sample_env = \<lparr>env_id = 0, env_buf = replicate MAX_LENGHT NUL, env_open = True,
     env_write = (\<lambda>i s. Some (length s))\<rparr>"

section \<open>Lemmas\<close>

declare load_people.simps [simp del] write_people.simps [simp del] find_index.simps [simp del]

lemma users_length: "phone_inv b \<Longrightarrow> length (users b) = nat (userCount b)"
  by (auto simp: users_def phone_inv_def)

subsection \<open>The format of the file\<close>

lemma scan_set_until:
  "\<forall>x \<in> set l. P x \<Longrightarrow> length l \<le> n \<Longrightarrow> \<not> P c \<Longrightarrow> scan_set n P (l @ c # r) = (l, c # r)"
proof (induction l arbitrary: n)
  case Nil
  then show ?case by (cases n) auto
next
  case (Cons x l)
  then show ?case by (cases n) auto
qed

lemma not_space_show_int: "dropWhile isspace (show_int i @ r) = show_int i @ r"
proof -
  obtain c cs where "show_nat (nat i) = c # cs" "isdigit c" using show_nat_hd by blast
  moreover have "\<not> isspace (CHR ''-'')" by (simp add: isspace_def)
  ultimately show ?thesis using isdigit_not_space [of c] by (auto simp: show_int_def)
qed

lemma cstr_fits: "cstr b = Inr s \<Longrightarrow> length b = MAX_LENGHT \<Longrightarrow> length s \<le> 29"
  by (drule cstr_length) (simp add: MAX_LENGHT_def)

text \<open>No line is ever cut by \<open>snprintf\<close>.\<close>

lemma person_line_entry:
  assumes "says p (i, na, su)" and "wf_person p" and "in_int i"
  shows "person_line p = Inr (entry_line (i, na, su))"
proof -
  from assms have l: "length na \<le> 29" "length su \<le> 29" "length (show_int i) \<le> 11"
    by (auto simp: says_def wf_person_def intro: cstr_fits show_int_length)
  with assms show ?thesis by (simp add: person_line_def entry_line_def says_def MAX_LENGHT_def)
qed

lemma fscanf_surname_line:
  assumes "wf_person p" and "NL \<notin> set su" and "length su \<le> 29"
  shows "\<exists>k p' r'. fscanf_surname p (su @ NL # r) = Inr (k, p', r') \<and> wf_person p' \<and> person_id p' = person_id p
    \<and> name p' = name p \<and> (su = [] \<longrightarrow> k \<noteq> 3)
    \<and> (NUL \<notin> set su \<and> su \<noteq> [] \<longrightarrow> k = 3 \<and> cstr (surname p') = Inr su \<and> r' = dropWhile isspace r)"
proof -
  have s: "scan_set 29 (\<lambda>c. c \<noteq> NL) (su @ NL # r) = (su, NL # r)"
    using assms(2,3) by (intro scan_set_until) auto
  have "length su < length (surname p)" using assms(1,3) by (simp add: wf_person_def MAX_LENGHT_def)
  then obtain b where b: "put_str (surname p) su = Inr b" by (simp add: put_str_def)
  have "isspace NL" by (simp add: isspace_def NL_def)
  then show ?thesis
    using assms(1) b put_str_length [OF b] put_str_cstr [OF b]
    by (auto simp: fscanf_surname_def s wf_person_def)
qed

lemma fscanf_name_line:
  assumes "wf_person p" and "CHR ''|'' \<notin> set na" and "length na \<le> 29" and "NUL \<notin> set na"
    and "NL \<notin> set su" and "length su \<le> 29" and "NUL \<notin> set su"
  shows "\<exists>k p' r'. fscanf_name p (na @ ''|'' @ su @ NL # r) = Inr (k, p', r') \<and> wf_person p' \<and> person_id p' = person_id p
    \<and> (k = 3 \<longleftrightarrow> na \<noteq> [] \<and> su \<noteq> [])
    \<and> (k = 3 \<longrightarrow> cstr (name p') = Inr na \<and> cstr (surname p') = Inr su \<and> r' = dropWhile isspace r)"
proof -
  have s: "scan_set 29 (\<lambda>c. c \<noteq> CHR ''|'') (na @ CHR ''|'' # su @ NL # r) = (na, CHR ''|'' # su @ NL # r)"
    using assms(2,3) by (intro scan_set_until) auto
  have "length na < length (name p)" using assms(1,3) by (simp add: wf_person_def MAX_LENGHT_def)
  then obtain b where b: "put_str (name p) na = Inr b" by (simp add: put_str_def)
  have wf: "wf_person (p\<lparr>name := b\<rparr>)" using assms(1) put_str_length [OF b] by (simp add: wf_person_def)
  from fscanf_surname_line [OF wf assms(5,6), of r] obtain k p' r' where
    k: "fscanf_surname (p\<lparr>name := b\<rparr>) (su @ NL # r) = Inr (k, p', r')" "wf_person p'" "person_id p' = person_id p"
      "name p' = b" "su = [] \<longrightarrow> k \<noteq> 3" "su \<noteq> [] \<longrightarrow> k = 3 \<and> cstr (surname p') = Inr su \<and> r' = dropWhile isspace r"
    using assms(7) by auto
  have e: "fscanf_name p (na @ ''|'' @ su @ NL # r) =
      (if na = [] then Inr (1, p, CHR ''|'' # su @ NL # r) else Inr (k, p', r'))"
    by (simp add: fscanf_name_def s b k(1))
  show ?thesis
  proof (cases "na = []")
    case True
    with e assms(1) show ?thesis by auto
  next
    case False
    with e k put_str_cstr [OF b assms(4)] show ?thesis by (cases "su = []") auto
  qed
qed

lemma fscanf_person_line:
  assumes "wf_person p" and "plain (i, na, su)" and "length na \<le> 29" and "NUL \<notin> set na"
    and "length su \<le> 29" and "NUL \<notin> set su"
  shows "\<exists>k p' r'. fscanf_person p (entry_line (i, na, su) @ r) = Inr (k, p', r') \<and> wf_person p'
    \<and> (k = 3 \<longleftrightarrow> has_names (i, na, su)) \<and> (k = 3 \<longrightarrow> says p' (i, na, su) \<and> r' = dropWhile isspace r)"
proof -
  have sc: "scan_int (entry_line (i, na, su) @ r) = (Some i, CHR ''|'' # na @ ''|'' @ su @ NL # r)"
    using scan_int_show_int [of "CHR ''|'' # na @ ''|'' @ su @ NL # r" i]
    by (simp add: entry_line_def isdigit_def)
  have wf: "wf_person (p\<lparr>person_id := i\<rparr>)" using assms(1) by (simp add: wf_person_def)
  have pl: "in_int i" "CHR ''|'' \<notin> set na" "NL \<notin> set su" using assms(2) by (auto simp: plain_def)
  from fscanf_name_line [OF wf pl(2) assms(3,4) pl(3) assms(5,6), of r] show ?thesis
    using pl(1) by (auto simp: fscanf_person_def sc c_int_def has_names_def says_def)
qed

lemma says_entry:
  assumes "says p (i, na, su)" and "wf_person p"
  shows "length na \<le> 29" "NUL \<notin> set na" "length su \<le> 29" "NUL \<notin> set su"
  using assms by (auto simp: says_def wf_person_def cstr_def split: if_splits
      intro: cstr_fits dest: set_takeWhileD)

lemma dropWhile_lines: "dropWhile isspace (concat (map entry_line es)) = concat (map entry_line es)"
proof (cases es)
  case Nil
  then show ?thesis by simp
next
  case (Cons e es')
  obtain i na su where "e = (i, na, su)" by (cases e)
  with Cons not_space_show_int [of i "''|'' @ na @ ''|'' @ su @ NL # concat (map entry_line es')"]
  show ?thesis by (simp add: entry_line_def)
qed

lemma list_all2_upd_snoc:
  "list_all2 R (take n us) es \<Longrightarrow> n < length us \<Longrightarrow> R p e \<Longrightarrow> list_all2 R (take (Suc n) (us[n := p])) (es @ [e])"
  by (simp add: take_Suc_conv_app_nth list_all2_appendI)

text \<open>Loading the lines of some entries, with some people loaded already.\<close>

lemma load_lines:
  assumes "\<forall>e \<in> set es. plain e \<and> short e" and "n < 2" and "length us = MAX_LENGHT"
    and "\<forall>p \<in> set us. wf_person p" and "list_all2 says (take n us) ds"
  shows "\<exists>b. load_people us (int n) (concat (map entry_line es)) = Inr b \<and> phone_inv b
    \<and> list_all2 says (users b) (ds @ take (2 - n) (takeWhile has_names es))"
  using assms
proof (induction es arbitrary: us n ds)
  case Nil
  from Nil.prems have g: "aget us (int n) = Inr (us ! n)" "aset us (int n) (us ! n) = Inr us"
    by (simp_all add: MAX_LENGHT_def)
  with Nil.prems show ?case
    by (auto simp: load_people.simps [of us] fscanf_person_def scan_int_def scan_sign_def phone_inv_def users_def MAX_LENGHT_def)
next
  case (Cons e es)
  obtain i na su where e: "e = (i, na, su)" by (cases e)
  let ?r = "concat (map entry_line es)"
  from Cons.prems have n: "n < length us" and wf: "wf_person (us ! n)" by (auto simp: MAX_LENGHT_def)
  from Cons.prems(1) e obtain k p r where
    f: "fscanf_person (us ! n) (entry_line e @ ?r) = Inr (k, p, r)" "wf_person p"
      "k = 3 \<longleftrightarrow> has_names e" "k = 3 \<longrightarrow> says p e \<and> r = ?r"
    using fscanf_person_line [OF wf, of i na su ?r] by (auto simp: short_def dropWhile_lines)
  let ?us = "us[n := p]"
  have us: "length ?us = MAX_LENGHT" "\<forall>p \<in> set ?us. wf_person p"
    using Cons.prems(3,4) f(2) by (auto dest!: set_update_subset_insert [THEN subsetD])
  have load: "load_people us (int n) (concat (map entry_line (e # es))) =
      (if has_names e then if 2 \<le> int n + 1 then Inr \<lparr>people = ?us, userCount = int n + 1\<rparr>
         else load_people ?us (int n + 1) r else Inr \<lparr>people = ?us, userCount = int n\<rparr>)"
    using n f by (simp add: load_people.simps [of us] MAX_LENGHT_STRUCT_def)
  show ?case
  proof (cases "has_names e")
    case False
    with load us Cons.prems show ?thesis by (auto simp: phone_inv_def users_def MAX_LENGHT_def)
  next
    case True
    with f have p: "says p e" "r = ?r" by auto
    from list_all2_upd_snoc [OF Cons.prems(5) n p(1)]
    have ds: "list_all2 says (take (Suc n) ?us) (ds @ [e])" .
    show ?thesis
    proof (cases "n = 1")
      case n1: True
      with load True us ds show ?thesis by (auto simp: phone_inv_def users_def MAX_LENGHT_def numeral_2_eq_2)
    next
      case False
      with Cons.prems(2) have n0: "n = 0" by simp
      from Cons.IH [OF _ _ us ds] Cons.prems(1) n0 obtain b where
        "load_people ?us 1 ?r = Inr b" "phone_inv b" "list_all2 says (users b) (ds @ [e] @ take 1 (takeWhile has_names es))"
        by auto
      with load True n0 p show ?thesis by (auto simp: numeral_2_eq_2)
    qed
  qed
qed

text \<open>The text that is written when no call fails.\<close>

lemma write_lines:
  assumes "phone_inv b" and "list_all2 says (users b) es" and "\<forall>e \<in> set es. plain e"
    and "\<forall>i s. wr i s = Some (length s)" and "i \<le> length es"
  shows "write_people wr b (int i) out = Inr (out @ concat (map entry_line (drop i es)), True)"
  using assms(5)
proof (induction "length es - i" arbitrary: i out)
  case 0
  with users_length [OF assms(1)] list_all2_lengthD [OF assms(2)] have "\<not> int i < userCount b" by auto
  with 0 show ?case by (simp add: write_people.simps [of wr b "int i"])
next
  case (Suc m)
  note len = users_length [OF assms(1)]
  with Suc list_all2_lengthD [OF assms(2)] have i: "i < length es" "int i < userCount b" by auto
  obtain e na su where e: "es ! i = (e, na, su)" by (cases "es ! i")
  have nth: "users b ! i = people b ! i" "i < length (people b)"
    using i(2) assms(1) by (auto simp: users_def phone_inv_def MAX_LENGHT_def)
  then have "wf_person (people b ! i)" using assms(1) by (simp add: phone_inv_def)
  moreover have "says (people b ! i) (e, na, su)"
    using list_all2_nthD2 [OF assms(2) i(1)] nth(1) e by simp
  moreover have "in_int e" using assms(3) i(1) e nth_mem [of i es] by (force simp: plain_def)
  ultimately have "person_line (people b ! i) = Inr (entry_line (es ! i))"
    using person_line_entry e by simp
  moreover have "drop i es = es ! i # drop (Suc i) es" using i(1) by (simp add: Cons_nth_drop_Suc)
  ultimately show ?case
    using Suc(1) [of "Suc i" "out @ entry_line (es ! i)"] Suc(2) i nth(2) assms(4)
    by (simp add: write_people.simps [of wr b "int i"] add.commute)
qed

subsection \<open>Looking for an id\<close>

lemma find_index_spec:
  assumes "phone_inv b" and "i \<le> length (users b)" and "\<forall>p \<in> set (take i (users b)). person_id p \<noteq> d"
  shows "find_index d b (int i) = Inr (-1) \<and> (\<forall>p \<in> set (users b). person_id p \<noteq> d)
    \<or> (\<exists>k < length (users b). find_index d b (int i) = Inr (int k) \<and> person_id (users b ! k) = d
        \<and> (\<forall>p \<in> set (take k (users b)). person_id p \<noteq> d))"
  using assms(2,3)
proof (induction "length (users b) - i" arbitrary: i)
  case 0
  then have "\<not> int i < userCount b" using users_length [OF assms(1)] by auto
  with 0 show ?case by (simp add: find_index.simps [of d b "int i"])
next
  case (Suc m)
  then have i: "i < length (users b)" by simp
  then have c: "int i < userCount b" using users_length [OF assms(1)] by auto
  then have g: "aget (people b) (int i) = Inr (users b ! i)"
    using assms(1) by (auto simp: users_def phone_inv_def)
  have s: "find_index d b (int i) = (if person_id (users b ! i) = d then Inr (int i) else find_index d b (int (Suc i)))"
    using c g by (simp add: find_index.simps [of d b "int i"] add.commute)
  show ?case
  proof (cases "person_id (users b ! i) = d")
    case True
    with s i Suc.prems show ?thesis by auto
  next
    case False
    with Suc.prems i have "\<forall>p \<in> set (take (Suc i) (users b)). person_id p \<noteq> d"
      by (auto simp: take_Suc_conv_app_nth)
    with Suc(1) [of "Suc i"] Suc(2) i s False show ?thesis by simp
  qed
qed

lemma drop_person_split:
  "\<forall>p \<in> set as. person_id p \<noteq> d \<Longrightarrow> person_id p = d \<Longrightarrow> drop_person d (as @ p # bs) = as @ bs"
  by (induction as) auto

lemma drop_person_absent: "\<forall>p \<in> set ps. person_id p \<noteq> d \<Longrightarrow> drop_person d ps = ps"
  by (induction ps) auto

text \<open>Closing the gap at \<open>k\<close>.\<close>

lemma shift_users:
  assumes "phone_inv b" and "k < length (users b)"
  shows "\<exists>us. shift_left (people b) (int k) (userCount b) = Inr us
    \<and> phone_inv \<lparr>people = us, userCount = userCount b - 1\<rparr>
    \<and> users \<lparr>people = us, userCount = userCount b - 1\<rparr> = take k (users b) @ drop (Suc k) (users b)"
proof -
  have k: "int k < userCount b" "userCount b \<le> int (length (people b))"
    using assms users_length [OF assms(1)] by (auto simp: phone_inv_def)
  from shift_left_take [OF _ k] obtain us where
    us: "shift_left (people b) (int k) (userCount b) = Inr us" "length us = length (people b)" "set us \<subseteq> set (people b)"
      "take (nat (userCount b - 1)) us = take k (people b) @ take (nat (userCount b - 1 - int k)) (drop (k + 1) (people b))"
    by auto
  have "take k (users b) = take k (people b)" using k by (simp add: users_def min_absorb1)
  moreover have "drop (Suc k) (users b) = take (nat (userCount b - 1 - int k)) (drop (k + 1) (people b))"
    using k by (simp add: users_def drop_take nat_diff_distrib')
  ultimately show ?thesis using us k assms(1) by (auto simp: users_def phone_inv_def)
qed

subsection \<open>Reading a line into a field\<close>

lemma read_field_line:
  assumes "stdin w = l @ NL # r" and "NL \<notin> set l" and "NUL \<notin> set l" and "length l < 29" and "length f = MAX_LENGHT"
  shows "\<exists>f'. read_field f w = Inr (f', w\<lparr>stdin := r\<rparr>) \<and> cstr f' = Inr l \<and> length f' = MAX_LENGHT"
proof -
  let ?f = "l @ NL # NUL # drop (Suc (Suc (length l))) f"
  have g: "fgets f MAX_LENGHT w = Inr (True, ?f, w\<lparr>stdin := r\<rparr>)"
    using assms by (intro fgets_newline) (auto simp: MAX_LENGHT_def)
  have c: "cstr ?f = Inr (l @ [NL])" using assms(2,3) takeWhile_until [of NUL "l @ [NL]"] by (simp add: cstr_def)
  have s: "strcspn ?f [NL] = Inr (int (length l))" using assms(2) by (simp add: strcspn_def c)
  have "length ?f = MAX_LENGHT" using assms(4,5) by (simp add: MAX_LENGHT_def)
  moreover have "cstr (?f[length l := NUL]) = Inr l" using cstr_cut [OF c, of "length l"] by simp
  moreover have "read_field f w = Inr (?f[length l := NUL], w\<lparr>stdin := r\<rparr>)"
    unfolding read_field_def g using s by (simp add: aset_def)
  ultimately show ?thesis by (metis length_list_update)
qed

lemma read_field_length: "read_field f w = Inr (f', w') \<Longrightarrow> length f' = length f"
  by (auto simp: read_field_def dest!: fgets_length aset_length)

lemma read_person_wf:
  assumes "bindE (read_name t p w) (\<lambda>(p, w). read_surname t' p w) = Inr (p', w')" and "wf_person p"
  shows "wf_person p'"
  using assms by (auto simp: read_name_def read_surname_def wf_person_def dest!: read_field_length)

lemma read_person_lines:
  assumes "stdin w = na @ NL # su @ NL # r" and "short (i, na, su)" and "length na < 29" and "length su < 29"
    and "NL \<notin> set na" and "NL \<notin> set su" and "wf_person p"
  shows "\<exists>p' p'' w' w''. read_name t p w = Inr (p', w') \<and> read_surname t' p' w' = Inr (p'', w'')
    \<and> wf_person p'' \<and> says p'' (person_id p, na, su) \<and> w'' = printf t' (printf t w)\<lparr>stdin := r\<rparr>"
proof -
  have nul: "NUL \<notin> set na" "NUL \<notin> set su" using assms(2) by (auto simp: short_def)
  from read_field_line [of "printf t w" na "su @ NL # r" "name p"] obtain f where
    f: "read_field (name p) (printf t w) = Inr (f, printf t w\<lparr>stdin := su @ NL # r\<rparr>)" "cstr f = Inr na" "length f = MAX_LENGHT"
    using assms nul by (auto simp: printf_def wf_person_def)
  let ?w = "printf t' (printf t w\<lparr>stdin := su @ NL # r\<rparr>)"
  from read_field_line [of ?w su r "surname p"] obtain f' where
    f': "read_field (surname p) ?w = Inr (f', ?w\<lparr>stdin := r\<rparr>)" "cstr f' = Inr su" "length f' = MAX_LENGHT"
    using assms nul by (auto simp: printf_def wf_person_def)
  have "read_name t p w = Inr (p\<lparr>name := f\<rparr>, printf t w\<lparr>stdin := su @ NL # r\<rparr>)"
    by (simp add: read_name_def f(1))
  moreover have "read_surname t' (p\<lparr>name := f\<rparr>) (printf t w\<lparr>stdin := su @ NL # r\<rparr>) =
      Inr (p\<lparr>name := f, surname := f'\<rparr>, printf t' (printf t w)\<lparr>stdin := r\<rparr>)"
    by (simp add: read_surname_def f'(1) del: id_apply) (simp add: printf_def)
  ultimately show ?thesis
    using f f' by (auto simp: wf_person_def says_def)
qed

text \<open>The line with the id, read into \<open>buffer\<close>.\<close>

lemma read_id_line:
  assumes "stdin w = c # show_int i @ NL # r" and "in_int i" and "length buf = MAX_LENGHT"
  shows "\<exists>b. fgets buf MAX_LENGHT (printf t (printf u (getchar w))) = Inr (True, b, printf t (printf u (getchar w))\<lparr>stdin := r\<rparr>)
    \<and> cstr b = Inr (show_int i @ [NL]) \<and> atoi (show_int i @ [NL]) = Inr i"
proof -
  let ?b = "show_int i @ NL # NUL # drop (Suc (Suc (length (show_int i)))) buf"
  have si: "c \<in> set (show_int i) \<Longrightarrow> c = CHR ''-'' \<or> isdigit c" for c
    using show_nat_digits [of "nat i"] show_nat_digits [of "nat (- i)"] by (auto simp: show_int_def split: if_splits)
  then have nl: "NL \<notin> set (show_int i)" "NUL \<notin> set (show_int i)" by (fastforce simp: NL_def NUL_def isdigit_def)+
  have "fgets buf MAX_LENGHT (printf t (printf u (getchar w))) = Inr (True, ?b, printf t (printf u (getchar w))\<lparr>stdin := r\<rparr>)"
    using assms(1,3) nl(1) show_int_length [OF assms(2)]
    by (intro fgets_newline) (auto simp: printf_def getchar_def MAX_LENGHT_def)
  moreover have "cstr ?b = Inr (show_int i @ [NL])"
    using nl takeWhile_until [of NUL "show_int i @ [NL]"] by (simp add: cstr_def)
  moreover have "atoi (show_int i @ [NL]) = Inr i"
    using scan_int_show_int [of "[NL]" i] assms(2) by (simp add: atoi_def c_int_def isdigit_def NL_def)
  ultimately show ?thesis by blast
qed

subsection \<open>What every operation keeps\<close>

lemma fscanf_person_wf:
  assumes "fscanf_person p s = Inr (k, p', s')" and "wf_person p"
  shows "wf_person p'"
proof -
  have sur: "wf_person q'" if "fscanf_surname q t = Inr (j, q', t')" "wf_person q" for q t j q' t'
    using that by (auto simp: fscanf_surname_def wf_person_def Let_def split: prod.splits if_splits dest: put_str_length)
  have nam: "wf_person q'" if f: "fscanf_name q t = Inr (j, q', t')" "wf_person q" for q t j q' t'
  proof -
    have "wf_person (q\<lparr>name := b\<rparr>)" if "put_str (name q) l = Inr b" for b l
      using that f(2) by (simp add: wf_person_def put_str_length)
    moreover obtain l r where "scan_set 29 (\<lambda>c. c \<noteq> CHR ''|'') t = (l, r)" by fastforce
    ultimately show ?thesis
      using f sur by (cases r) (auto simp: fscanf_name_def Let_def split: if_splits)
  qed
  have "wf_person (p\<lparr>person_id := v\<rparr>)" for v using assms(2) by (simp add: wf_person_def)
  moreover obtain v r where "scan_int s = (v, r)" by fastforce
  ultimately show ?thesis
    using assms nam by (cases v; cases r) (auto simp: fscanf_person_def Let_def split: if_splits)
qed

lemma aset_wf_person:
  assumes "aset us i p = Inr us'" and "\<forall>p \<in> set us. wf_person p" and "wf_person p"
  shows "\<forall>p \<in> set us'. wf_person p"
  using assms by (auto simp: aset_eq_Inr dest!: set_update_subset_insert [THEN subsetD])

lemma load_people_inv:
  "load_people us n s = Inr b \<Longrightarrow> length us = MAX_LENGHT \<Longrightarrow> \<forall>p \<in> set us. wf_person p \<Longrightarrow> 0 \<le> n \<Longrightarrow> n < 2 \<Longrightarrow> phone_inv b"
proof (induction us n s rule: load_people.induct)
  case (1 us n s)
  from 1(2) obtain p k p' s' us' where
    p: "aget us n = Inr p" "fscanf_person p s = Inr (k, p', s')" "aset us n p' = Inr us'"
    and r: "(if k = 3 then if n + 1 \<ge> MAX_LENGHT_STRUCT then Inr \<lparr>people = us', userCount = n + 1\<rparr>
        else load_people us' (n + 1) s' else Inr \<lparr>people = us', userCount = n\<rparr>) = Inr b"
    by (auto simp: load_people.simps [of us n s])
  from p(1) 1(4) have "wf_person p" by (auto simp: aget_eq_Inr)
  from fscanf_person_wf [OF p(2) this] have wf: "\<forall>p \<in> set us'. wf_person p"
    using aset_wf_person [OF p(3) 1(4)] by simp
  have len: "length us' = MAX_LENGHT" using aset_length [OF p(3)] 1(3) by simp
  show ?case
  proof (cases "k = 3 \<and> n + 1 < 2")
    case True
    with r have l: "load_people us' (n + 1) s' = Inr b" by (simp add: MAX_LENGHT_STRUCT_def)
    show ?thesis
      by (rule 1(1) [OF refl _ l len wf])
        (use p True 1(5,6) in \<open>auto simp: MAX_LENGHT_STRUCT_def\<close>)
  next
    case False
    with r len wf 1(5,6) show ?thesis
      by (auto simp: phone_inv_def MAX_LENGHT_STRUCT_def MAX_LENGHT_def split: if_splits)
  qed
qed


lemma addPerson_inv:
  assumes "addPerson buf b w = Inr (b', w')" and "phone_inv b"
  shows "phone_inv b'"
proof -
  from assms(1) obtain p i w1 q w2 q' w3 us where
    g: "aget (people b) (userCount b) = Inr p"
    and n: "read_name ''Enter your name: '' (p\<lparr>person_id := i\<rparr>) w1 = Inr (q, w2)"
      "read_surname ''Enter your surname: '' q w2 = Inr (q', w3)"
    and us: "aset (people b) (userCount b) q' = Inr us" "b' = \<lparr>people = us, userCount = userCount b + 1\<rparr>"
    by (auto simp: addPerson_def Let_def)
  from g assms(2) have "wf_person (p\<lparr>person_id := i\<rparr>)" by (auto simp: aget_eq_Inr phone_inv_def wf_person_def)
  with n read_person_wf [of "''Enter your name: ''" "p\<lparr>person_id := i\<rparr>" w1 "''Enter your surname: ''" q' w3]
  have "wf_person q'" by simp
  with us assms(2) aset_wf_person [OF us(1)] aset_length [OF us(1)] show ?thesis
    by (auto simp: phone_inv_def aset_eq_Inr)
qed

lemma editPerson_inv:
  assumes "editPerson loc b w = Inr (b', w')" and "phone_inv b"
  shows "phone_inv b'"
proof (cases "b' = b")
  case True
  with assms show ?thesis by simp
next
  case False
  with assms(1) obtain p k w1 q w2 q' w3 us where
    g: "aget (people b) k = Inr p"
    and n: "read_name ''Enter new name: '' p w1 = Inr (q, w2)"
      "read_surname ''Enter new surname: '' q w2 = Inr (q', w3)"
    and us: "aset (people b) k q' = Inr us" "b' = b\<lparr>people := us\<rparr>"
    by (auto simp: editPerson_def Let_def split: if_splits)
  from g assms(2) have "wf_person p" by (auto simp: aget_eq_Inr phone_inv_def)
  with n read_person_wf [of "''Enter new name: ''" p w1 "''Enter new surname: ''" q' w3]
  have "wf_person q'" by simp
  with us assms(2) aset_wf_person [OF us(1)] aset_length [OF us(1)] show ?thesis
    by (auto simp: phone_inv_def)
qed

text \<open>Deletion, for an id that was read already.\<close>

lemma deletePerson_users:
  assumes "phone_inv b" and "scanf_d loc (printf ''Enter ID person to delete: '' w) = Inr (d, v)"
  shows "\<exists>b'. deletePerson loc b w = Inr (b', printf
        (if d \<in> person_id ` set (users b) then ''Person with ID '' @ show_int d @ '' deleted.'' @ [NL] else not_found_text d) v)
    \<and> phone_inv b' \<and> users b' = drop_person d (users b)"
  using find_index_spec [OF assms(1), of 0 d, simplified]
proof (elim disjE conjE exE)
  assume f: "find_index d b 0 = Inr (-1)" and n: "\<forall>p \<in> set (users b). person_id p \<noteq> d"
  from n have "d \<notin> person_id ` set (users b)" by auto
  with f n assms show ?thesis by (simp add: deletePerson_def drop_person_absent)
next
  fix k
  assume k: "k < length (users b)" "find_index d b 0 = Inr (int k)" "person_id (users b ! k) = d"
    "\<forall>p \<in> set (take k (users b)). person_id p \<noteq> d"
  from shift_users [OF assms(1) k(1)] obtain us where
    us: "shift_left (people b) (int k) (userCount b) = Inr us" "phone_inv \<lparr>people = us, userCount = userCount b - 1\<rparr>"
      "users \<lparr>people = us, userCount = userCount b - 1\<rparr> = take k (users b) @ drop (Suc k) (users b)" by blast
  have "drop_person d (users b) = take k (users b) @ drop (Suc k) (users b)"
    using drop_person_split [OF k(4,3)] id_take_nth_drop [OF k(1)] by metis
  moreover have "d \<in> person_id ` set (users b)" using k(1,3) by auto
  ultimately show ?thesis using us k assms(2) by (simp add: deletePerson_def)
qed

lemma deletePerson_inv:
  assumes "deletePerson loc b w = Inr (b', w')" and "phone_inv b"
  shows "phone_inv b'"
proof -
  from assms(1) obtain d v where "scanf_d loc (printf ''Enter ID person to delete: '' w) = Inr (d, v)"
    by (auto simp: deletePerson_def)
  from deletePerson_users [OF assms(2) this] assms(1) show ?thesis by auto
qed

lemma phone_body_inv:
  assumes "phone_body e (x, b, file, w) = Inr ((x', b', file', w'), again)" and "phone_inv b"
  shows "phone_inv b'"
proof -
  from assms(1) obtain v y where "phone_switch e (y, b, file, v) = Inr (x', b', file', w')"
    by (auto simp: phone_body_def split_beta)
  then show ?thesis
    using assms(2) addPerson_inv editPerson_inv deletePerson_inv
    by (auto simp: phone_switch_def split: if_splits)
qed

interpretation phone_loop: loop_invariant "\<lambda>k. phone_body (es k)" "\<lambda>(x, b, file, w). phone_inv b" for es
  by unfold_locales (auto dest: phone_body_inv)

lemma sample_people_inv: "phone_inv sample_people"
  by (auto simp: phone_inv_def sample_people_def wf_person_def person_of_def zero_person_def MAX_LENGHT_def)

lemma sample_people_says: "list_all2 says (users sample_people) [(7, ''Ann'', ''Lee''), (8, ''Bo'', ''Kay''), (9, ''Cy'', ''Orr'')]"
  by code_simp

section \<open>Properties\<close>

text \<open>
  C8: A book that is saved and loaded into a fresh array comes back: the same ids, names and
  surnames in the same order, up to the second person, and only up to the first person with
  an empty name or surname. (Names without the separator, surnames without a newline, and
  all writes complete.)
\<close>

theorem phone_load_saved:
  assumes "phone_inv b" and "list_all2 says (users b) es" and "\<forall>e \<in> set es. plain e"
    and "\<forall>i s. wr i s = Some (length s)" and "phone_inv b0"
  shows "\<exists>text b'. saveToFile True wr file b w = Inr (Some text, printf (''Data saved to file.'' @ [NL]) w)
    \<and> loadFromFile (Some text) b0 w' = Inr (b', printf (''Data loaded from file.'' @ [NL]) w')
    \<and> phone_inv b' \<and> list_all2 says (users b') (take 2 (takeWhile has_names es))"
proof -
  let ?t = "concat (map entry_line es)"
  from write_lines [OF assms(1-4), of 0 "[]"] have
    s: "saveToFile True wr file b w = Inr (Some ?t, printf (''Data saved to file.'' @ [NL]) w)"
    by (simp add: saveToFile_def)
  have "short e" if "e \<in> set es" for e
  proof -
    from that obtain i where i: "i < length es" "e = es ! i" by (auto simp: in_set_conv_nth)
    then have "says (users b ! i) e" "users b ! i \<in> set (people b)"
      using list_all2_nthD2 [OF assms(2) i(1)] list_all2_lengthD [OF assms(2)] in_set_takeD
      by (auto simp: users_def dest!: nth_mem in_set_takeD)
    with assms(1) show ?thesis by (cases e) (auto simp: short_def phone_inv_def dest: says_entry)
  qed
  then have "\<forall>e \<in> set es. plain e \<and> short e" using assms(3) by simp
  from load_lines [OF this, of 0 "people b0" "[]"] assms(5) show ?thesis
    using s by (auto simp: loadFromFile_def phone_inv_def)
qed

theorem phone_load_saved_witness:
  "\<exists>text b'. saveToFile True (\<lambda>i s. Some (length s)) None sample_people (console []) =
      Inr (Some text, printf (''Data saved to file.'' @ [NL]) (console []))
    \<and> loadFromFile (Some text) \<lparr>people = replicate 30 zero_person, userCount = 0\<rparr> (console []) =
      Inr (b', printf (''Data loaded from file.'' @ [NL]) (console []))
    \<and> phone_inv b' \<and> list_all2 says (users b')
        (take 2 (takeWhile has_names [(7, ''Ann'', ''Lee''), (8, ''Bo'', ''Kay''), (9, ''Cy'', ''Orr'')]))"
proof (rule phone_load_saved [OF sample_people_inv sample_people_says])
  show "\<forall>e \<in> set [(7, ''Ann'', ''Lee''), (8, ''Bo'', ''Kay''), (9, ''Cy'', ''Orr'')]. plain e"
    by (simp add: plain_def c_arith NL_def)
  show "phone_inv \<lparr>people = replicate 30 zero_person, userCount = 0\<rparr>"
    by (simp add: phone_inv_def wf_person_def zero_person_def MAX_LENGHT_def)
qed simp

text \<open>
  Whatever is typed and whatever the file holds, a run that leaves the menu without a fault
  keeps the counter within the array and every field of it at its length. (A 31st person is
  a fault, see \<open>phone_add_person\<close>.)
\<close>

theorem phone_main_inv:
  assumes "phone_main fuel junk es garbage file w = Inr (x, b, file', w')"
    and "length garbage = MAX_LENGHT" and "\<forall>p \<in> set garbage. wf_person p"
  shows "phone_inv b"
proof -
  from assms(1) obtain b0 w0 where l: "loadFromFile file \<lparr>people = garbage, userCount = 0\<rparr> w = Inr (b0, w0)"
    and d: "rounds fuel (\<lambda>k. phone_body (es k)) (junk, b0, file, w0) = Inr (x, b, file', w')"
    by (auto simp: phone_main_def)
  have "phone_inv b0"
  proof (cases "file")
    case None
    with l assms(2,3) show ?thesis by (auto simp: loadFromFile_def phone_inv_def)
  next
    case (Some s)
    with l have "load_people garbage 0 s = Inr b0" by (auto simp: loadFromFile_def)
    from load_people_inv [OF this assms(2,3)] show ?thesis by simp
  qed
  with phone_loop.loop_keeps_inv [OF d] show ?thesis by simp
qed

theorem phone_main_inv_witness:
  "\<exists>x b file' w'. phone_main 3 0 (\<lambda>_. sample_env) (replicate 30 zero_person) (Some ''7|Ann|Lee'')
      (console (''1'' @ [NL] @ ''8'' @ [NL] @ ''Bo'' @ [NL] @ ''Kay'' @ [NL] @ ''4 5'')) = Inr (x, b, file', w')
    \<and> map person_id (users b) = [7, 8] \<and> phone_inv b"
proof -
  let ?m = "phone_main 3 0 (\<lambda>_. sample_env) (replicate 30 zero_person) (Some ''7|Ann|Lee'')
      (console (''1'' @ [NL] @ ''8'' @ [NL] @ ''Bo'' @ [NL] @ ''Kay'' @ [NL] @ ''4 5''))"
  have "case ?m of Inl _ \<Rightarrow> False | Inr (_, b, _, _) \<Rightarrow> map person_id (users b) = [7, 8]"
    by code_simp
  then obtain x b file' w' where m: "?m = Inr (x, b, file', w')" and i: "map person_id (users b) = [7, 8]"
    by (auto split: sum.splits)
  have "phone_inv b"
    by (rule phone_main_inv [OF m]) (simp_all add: wf_person_def zero_person_def MAX_LENGHT_def)
  then show ?thesis by (intro exI conjI) (rule m, rule i)
qed

text \<open>
  Deleting by id never leaves the array: it removes the first person with that id and
  keeps the order of the others; an id that is not there changes nothing and is reported.
\<close>

theorem phone_delete:
  assumes "phone_inv b" and "scanf_d loc (printf ''Enter ID person to delete: '' w) = Inr (d, v)"
  shows "\<exists>b'. deletePerson loc b w = Inr (b', printf
        (if d \<in> person_id ` set (users b) then ''Person with ID '' @ show_int d @ '' deleted.'' @ [NL] else not_found_text d) v)
    \<and> phone_inv b' \<and> users b' = drop_person d (users b)"
  using assms by (rule deletePerson_users)

theorem phone_delete_witness:
  "\<exists>b'. deletePerson 0 sample_people (console ''8'') = Inr (b', printf
        (if 8 \<in> person_id ` set (users sample_people) then ''Person with ID '' @ show_int 8 @ '' deleted.'' @ [NL]
         else not_found_text 8) (printf ''Enter ID person to delete: '' (console [])))
    \<and> phone_inv b' \<and> users b' = drop_person 8 (users sample_people)"
proof -
  have "scanf_d 0 (printf ''Enter ID person to delete: '' (console ''8'')) =
      Inr (8, printf ''Enter ID person to delete: '' (console []))"
    by code_simp
  from phone_delete [OF sample_people_inv this] show ?thesis .
qed

text \<open>
  While the array has room, adding a person appends exactly what was typed.
\<close>

theorem phone_add_appends:
  assumes "phone_inv b" and "userCount b < int MAX_LENGHT"
    and "stdin w = c # show_int i @ NL # na @ NL # su @ NL # r" and "in_int i"
    and "NL \<notin> set na" and "NUL \<notin> set na" and "length na < 29"
    and "NL \<notin> set su" and "NUL \<notin> set su" and "length su < 29" and "length buf = MAX_LENGHT"
  shows "\<exists>b' w' p. addPerson buf b w = Inr (b', w') \<and> phone_inv b' \<and> stdin w' = r
    \<and> users b' = users b @ [p] \<and> says p (i, na, su)"
proof -
  let ?v = "printf ''Enter which id you want: '' (printf RULER (getchar w))\<lparr>stdin := na @ NL # su @ NL # r\<rparr>"
  from read_id_line [OF assms(3,4,11)] obtain b1 where
    f: "fgets buf MAX_LENGHT (printf ''Enter which id you want: '' (printf RULER (getchar w))) = Inr (True, b1, ?v)"
    and c: "cstr b1 = Inr (show_int i @ [NL])" and a: "atoi (show_int i @ [NL]) = Inr i" by blast
  let ?n = "nat (userCount b)"
  have n: "?n < length (people b)" "0 \<le> userCount b" using assms(1,2) by (auto simp: phone_inv_def)
  let ?p = "(people b ! ?n)\<lparr>person_id := i\<rparr>"
  have wf: "wf_person ?p" using assms(1) n(1) by (auto simp: phone_inv_def wf_person_def)
  from read_person_lines [of ?v na su r i ?p] assms wf obtain q q' w2 w3 where
    q: "read_name ''Enter your name: '' ?p ?v = Inr (q, w2)" "read_surname ''Enter your surname: '' q w2 = Inr (q', w3)"
      "wf_person q'" "says q' (i, na, su)" "stdin w3 = r"
    by (fastforce simp: short_def)
  have g: "aget (people b) (userCount b) = Inr (people b ! ?n)" "aset (people b) (userCount b) q' = Inr ((people b)[?n := q'])"
    using n by (simp_all add: aget_def aset_def)
  have k: "c_int (userCount b + 1) = Inr (userCount b + 1)"
    using assms(1,2) by (simp add: c_int_def c_arith phone_inv_def MAX_LENGHT_def)
  let ?B = "\<lparr>people = (people b)[?n := q'], userCount = userCount b + 1\<rparr>"
  have add: "addPerson buf b w = Inr (?B, printf RULER (printf (''User was added.'' @ [NL]) w3))"
    unfolding addPerson_def Let_def f using c a q(1,2) g k by simp
  moreover have "users ?B = users b @ [q']"
    using n assms(1) by (simp add: users_def phone_inv_def nat_add_distrib take_Suc_conv_app_nth)
  ultimately show ?thesis
    using addPerson_inv [OF add assms(1)] q by (auto simp: printf_def)
qed

theorem phone_add_appends_witness:
  "\<exists>b' w' p. addPerson (replicate 30 NUL) sample_people
        (console (NL # show_int 5 @ NL # ''Di'' @ NL # ''Poe'' @ NL # ''4'')) = Inr (b', w')
    \<and> phone_inv b' \<and> stdin w' = ''4'' \<and> users b' = users sample_people @ [p] \<and> says p (5, ''Di'', ''Poe'')"
  by (rule phone_add_appends [OF sample_people_inv])
    (simp_all add: sample_people_def MAX_LENGHT_def console_def c_arith NL_def NUL_def)

text \<open>
  The program does not stop adding when the array is full: the next person is written
  behind its end.
\<close>

theorem phone_add_overruns:
  assumes "phone_inv b" and "userCount b = int MAX_LENGHT"
    and "stdin w = c # show_int i @ NL # r" and "in_int i" and "length buf = MAX_LENGHT"
  shows "addPerson buf b w = Inl OutOfBounds"
proof -
  have "aget (people b) (userCount b) = Inl OutOfBounds" using assms(1,2) by (simp add: aget_def phone_inv_def)
  moreover from read_id_line [OF assms(3-5)] obtain b1 where
    "fgets buf MAX_LENGHT (printf ''Enter which id you want: '' (printf RULER (getchar w))) =
       Inr (True, b1, printf ''Enter which id you want: '' (printf RULER (getchar w))\<lparr>stdin := r\<rparr>)"
    "cstr b1 = Inr (show_int i @ [NL])" "atoi (show_int i @ [NL]) = Inr i" by blast
  ultimately show ?thesis by (simp add: addPerson_def)
qed

theorem phone_add_overruns_witness:
  "addPerson (replicate 30 NUL) \<lparr>people = replicate 30 zero_person, userCount = 30\<rparr>
     (console (NL # show_int 5 @ NL # ''Di'')) = Inl OutOfBounds"
  by (rule phone_add_overruns [where c = NL and i = 5 and r = "''Di''"])
    (simp_all add: phone_inv_def wf_person_def zero_person_def MAX_LENGHT_def console_def c_arith)

text \<open>
  C16: The whole of \<open>addPerson\<close> for a person that is typed in full: below 30 people the person is
  appended with exactly the id and the two strings typed, the others stay as they are and the
  rest of the input is left; with 30 people the function writes behind the array. Nothing
  in the program keeps its user from the second case.
\<close>

theorem phone_add_person:
  assumes "phone_inv b"
    and "stdin w = c # show_int i @ NL # na @ NL # su @ NL # r" and "in_int i"
    and "NL \<notin> set na" and "NUL \<notin> set na" and "length na < 29"
    and "NL \<notin> set su" and "NUL \<notin> set su" and "length su < 29" and "length buf = MAX_LENGHT"
  shows "if length (users b) < 30
    then \<exists>b' w' p. addPerson buf b w = Inr (b', w') \<and> phone_inv b' \<and> stdin w' = r
      \<and> users b' = users b @ [p] \<and> says p (i, na, su)
    else addPerson buf b w = Inl OutOfBounds"
proof (cases "length (users b) < 30")
  case True
  then have "userCount b < int MAX_LENGHT"
    using users_length [OF assms(1)] by (simp add: MAX_LENGHT_def)
  from phone_add_appends [OF assms(1) this assms(2-10)] True show ?thesis by simp
next
  case False
  moreover have "length (users b) = nat (userCount b)" "0 \<le> userCount b" "userCount b \<le> 30"
    using users_length [OF assms(1)] assms(1) by (simp_all add: MAX_LENGHT_def phone_inv_def)
  ultimately have "userCount b = int MAX_LENGHT" by (simp add: MAX_LENGHT_def)
  from phone_add_overruns [OF assms(1) this assms(2,3,10)] False show ?thesis by simp
qed

theorem phone_add_person_witness:
  "(\<exists>b' w' p. addPerson (replicate 30 NUL) sample_people
        (console (NL # show_int 5 @ NL # ''Di'' @ NL # ''Poe'' @ NL # ''4'')) = Inr (b', w')
      \<and> phone_inv b' \<and> stdin w' = ''4'' \<and> users b' = users sample_people @ [p] \<and> says p (5, ''Di'', ''Poe''))
    \<and> addPerson (replicate 30 NUL) \<lparr>people = replicate 30 zero_person, userCount = 30\<rparr>
        (console (NL # show_int 5 @ NL # ''Di'' @ NL # ''Poe'' @ NL # ''4'')) = Inl OutOfBounds"
proof
  let ?w = "console (NL # show_int 5 @ NL # ''Di'' @ NL # ''Poe'' @ NL # ''4'')"
  let ?full = "\<lparr>people = replicate 30 zero_person, userCount = 30\<rparr>"
  have w: "stdin ?w = NL # show_int 5 @ NL # ''Di'' @ NL # ''Poe'' @ NL # ''4''" by (simp add: console_def)
  have side: "in_int 5" "NL \<notin> set ''Di''" "NUL \<notin> set ''Di''" "length ''Di'' < 29" "NL \<notin> set ''Poe''"
    "NUL \<notin> set ''Poe''" "length ''Poe'' < 29" "length (replicate 30 NUL) = MAX_LENGHT"
    by (simp_all add: c_arith NL_def NUL_def MAX_LENGHT_def)
  have "length (users sample_people) < 30" by code_simp
  with phone_add_person [OF sample_people_inv w side]
  show "\<exists>b' w' p. addPerson (replicate 30 NUL) sample_people ?w = Inr (b', w')
      \<and> phone_inv b' \<and> stdin w' = ''4'' \<and> users b' = users sample_people @ [p] \<and> says p (5, ''Di'', ''Poe'')"
    by (simp only: if_True)
  have "phone_inv ?full" by (simp add: phone_inv_def wf_person_def zero_person_def MAX_LENGHT_def)
  from phone_add_person [OF this w side] show "addPerson (replicate 30 NUL) ?full ?w = Inl OutOfBounds"
    by (simp add: users_def)
qed

end
