(* ===== verification/File_Words.thy ===== *)
theory File_Words
  imports C_Stdio
begin

text \<open>
  Printing a file word by word, as the children of Module 3, Tasks 5, 8, 10 and 11, do:
  \<open>fscanf\<close> with \<open>%s\<close> into an array of \<open>MAX_LENGTH_CHAR\<close> characters, and every word on a line of its own.
  The whole file is read in one step.
\<close>

section \<open>The loop\<close>

definition MAX_LENGTH_CHAR :: nat where
  "MAX_LENGTH_CHAR = 128"

text \<open>\<open>fscanf(file, "%s", name)\<close> until the end of the file.\<close>

function file_words :: "string \<Rightarrow> string list" where
  "file_words t =
     (let s = dropWhile isspace t
      in if s = [] then [] else takeWhile (\<lambda>c. \<not> isspace c) s # file_words (dropWhile (\<lambda>c. \<not> isspace c) s))"
  by pat_completeness auto
termination
proof (relation "measure length")
  fix t s :: string
  assume s: "s = dropWhile isspace t" "s \<noteq> []"
  then obtain c u where u: "s = c # u" "\<not> isspace c" by (metis hd_dropWhile list.collapse)
  have "length (dropWhile (\<lambda>c. \<not> isspace c) u) \<le> length u" "length s \<le> length t"
    using length_dropWhile_le s(1) by auto
  with u show "(dropWhile (\<lambda>c. \<not> isspace c) s, t) \<in> measure length" by simp
qed simp

text \<open>A word and its NUL must fit into the array.\<close>

definition print_file :: "string \<Rightarrow> string res" where
  "print_file t =
     (if \<forall>w \<in> set (file_words t). length w < MAX_LENGTH_CHAR then Inr (concat (map (\<lambda>w. w @ [NL]) (file_words t)))
      else Inl OutOfBounds)"

section \<open>Lemmas\<close>

declare file_words.simps [simp del]

lemma file_words_line:
  assumes "w \<noteq> []" and "\<forall>c \<in> set w. \<not> isspace c"
  shows "file_words (w @ NL # t) = w # file_words (NL # t)"
proof -
  have "isspace NL" by (simp add: isspace_def NL_def)
  moreover have "dropWhile isspace (w @ NL # t) = w @ NL # t" using assms by (cases w) auto
  ultimately show ?thesis
    using assms by (simp add: file_words.simps [of "w @ NL # t"] takeWhile_append dropWhile_append Let_def)
qed

lemma file_words_space: "isspace c \<Longrightarrow> file_words (c # t) = file_words t"
  by (simp add: file_words.simps [of "c # t"] file_words.simps [of t])

lemma show_int_word: "show_int n \<noteq> []" "\<forall>c \<in> set (show_int n). \<not> isspace c"
proof -
  show "show_int n \<noteq> []" by (simp add: show_int_def)
  have "\<forall>c \<in> set (show_nat k). \<not> isspace c" for k using show_nat_digits [of k] by (auto simp: isdigit_not_space)
  moreover have "\<not> isspace CHR ''-''" by (simp add: isspace_def)
  ultimately show "\<forall>c \<in> set (show_int n). \<not> isspace c" by (simp add: show_int_def)
qed

end
