(* ===== verification/Signals.thy ===== *)
theory Signals
  imports File_Words
begin

text \<open>
  Module 3, Task 5: a parent that collects the numbers of its child in \<open>number.txt\<close> and tells it
  with two signals when it may use the file. The handlers set and clear \<open>access_flag\<close>. The
  processes are step relations, call by call; a signal runs its handler in the child at once
  and ends a \<open>pause\<close>. Time plays no part: \<open>sleep\<close> is no step. Either of the parent's calls
  \<open>fopen\<close> and \<open>read\<close> may fail, which ends the parent; a child that then writes into the pipe
  is ended by \<open>SIGPIPE\<close>. The child's \<open>fopen\<close> fails exactly if there is no file. \<open>fork\<close> and \<open>pipe\<close>
  are in \<open>Signal_Files\<close>.

  Proved here: the file gets exactly the numbers the child has written into the pipe, in order;
  and in which states everything has stopped, both of which can be reached: the child
  tests the flag before the signal and pauses after it, or it does not find the file. A parent
  that leaves is followed by its child within four steps, unless the child pauses, for ever.
\<close>

section \<open>The processes\<close>

text \<open>
  \<open>CGoing\<close>: the flag was found clear and \<open>pause\<close> is called next. \<open>CFault\<close>: a word of the file
  has overrun the array \<open>name\<close>.
\<close>

datatype child_pc = CTest | CGoing | CPause | COpen | CPrint | CWrite int | CExit | CFault

datatype parent_pc = PKill1 | POpen | PRead | PPut int | PKill2 | PClose | PExit

text \<open>\<open>wr_open\<close>: the parent has not closed its own end for writing yet.\<close>

record sig_sys =
  access_flag :: bool
  cpc :: child_pc
  ppc :: parent_pc
  pipe :: "int list"
  wr_open :: bool
  number_txt :: "string option"
  screen :: string

definition sigusr1_handler :: "sig_sys \<Rightarrow> sig_sys" where
  "sigusr1_handler s = s\<lparr>access_flag := True\<rparr>"

definition sigusr2_handler :: "sig_sys \<Rightarrow> sig_sys" where
  "sigusr2_handler s = s\<lparr>access_flag := False\<rparr>"

text \<open>\<open>kill\<close>: the handler runs in the child, and a \<open>pause\<close> returns to the test of the flag.\<close>

definition kill :: "(sig_sys \<Rightarrow> sig_sys) \<Rightarrow> sig_sys \<Rightarrow> sig_sys" where
  "kill handler s = (if cpc s = CExit then s
     else (handler s)\<lparr>cpc := if cpc s = CPause then CTest else cpc s\<rparr>)"

text \<open>
  A step of the child; \<open>r\<close> is what \<open>rand\<close> returns. \<open>None\<close> if it has to wait, and the number
  it has written into the pipe, if any. Its own end for reading is closed: without the parent
  nobody can read, and \<open>write\<close> raises \<open>SIGPIPE\<close>.
\<close>

definition child_move :: "int \<Rightarrow> sig_sys \<Rightarrow> (sig_sys \<times> int list) option" where
  "child_move r s =
     (case cpc s of
        CTest \<Rightarrow> Some (s\<lparr>cpc := if access_flag s then COpen else CGoing\<rparr>, [])
      | CGoing \<Rightarrow> Some (s\<lparr>cpc := CPause\<rparr>, [])
      | CPause \<Rightarrow> None
      | COpen \<Rightarrow> Some (s\<lparr>cpc := if number_txt s = None then CExit else CPrint\<rparr>, [])
      | CPrint \<Rightarrow>
          (case print_file (the (number_txt s)) of Inl _ \<Rightarrow> Some (s\<lparr>cpc := CFault\<rparr>, [])
           | Inr l \<Rightarrow> Some (s\<lparr>cpc := CWrite (r mod 100), screen := screen s @ l\<rparr>, []))
      | CWrite n \<Rightarrow> if ppc s = PExit then Some (s\<lparr>cpc := CExit\<rparr>, [])
                   else Some (s\<lparr>cpc := CTest, pipe := pipe s @ [n]\<rparr>, [n])
      | CExit \<Rightarrow> None
      | CFault \<Rightarrow> None)"

text \<open>
  A step of the parent; \<open>ok\<close> is whether \<open>fopen\<close> or \<open>read\<close> succeeds, \<open>g\<close> is what \<open>receivedNumber\<close> holds if \<open>read\<close> finds the end of the pipe. The
  number is in the file once it is closed.
\<close>

definition parent_move :: "bool \<Rightarrow> int \<Rightarrow> sig_sys \<Rightarrow> sig_sys option" where
  "parent_move ok g s =
     (case ppc s of
        PKill1 \<Rightarrow> Some ((kill sigusr1_handler s)\<lparr>ppc := POpen\<rparr>)
      | POpen \<Rightarrow> if \<not> ok then Some (s\<lparr>ppc := PExit\<rparr>)
                 else Some (s\<lparr>ppc := PRead, number_txt := Some (case number_txt s of None \<Rightarrow> [] | Some t \<Rightarrow> t)\<rparr>)
      | PRead \<Rightarrow> if \<not> ok then Some (s\<lparr>ppc := PExit\<rparr>) else
          (case pipe s of n # ns \<Rightarrow> Some (s\<lparr>ppc := PPut n, pipe := ns\<rparr>)
           | [] \<Rightarrow> if cpc s = CExit \<and> \<not> wr_open s then Some (s\<lparr>ppc := PPut g\<rparr>) else None)
      | PPut n \<Rightarrow> Some (s\<lparr>ppc := PKill2, number_txt := map_option (\<lambda>t. t @ show_int n @ [NL]) (number_txt s)\<rparr>)
      | PKill2 \<Rightarrow> Some ((kill sigusr2_handler s)\<lparr>ppc := PClose\<rparr>)
      | PClose \<Rightarrow> Some (s\<lparr>ppc := PKill1, wr_open := False\<rparr>)
      | PExit \<Rightarrow> None)"

definition sig_start :: "string option \<Rightarrow> sig_sys" where
  "sig_start old = \<lparr>access_flag = False, cpc = CTest, ppc = PKill1, pipe = [], wr_open = True, number_txt = old, screen = []\<rparr>"

text \<open>Any interleaving, with the numbers the child has written so far.\<close>

inductive sig_reach :: "string option \<Rightarrow> int list \<Rightarrow> sig_sys \<Rightarrow> bool" for old where
  sig_begin: "sig_reach old [] (sig_start old)"
| sig_child: "sig_reach old ns s \<Longrightarrow> child_move r s = Some (s', out) \<Longrightarrow> sig_reach old (ns @ out) s'"
| sig_parent: "sig_reach old ns s \<Longrightarrow> parent_move ok g s = Some s' \<Longrightarrow> sig_reach old ns s'"

text \<open>Neither process has a step left, unless a waiting \<open>read\<close> fails.\<close>

definition sig_stopped :: "sig_sys \<Rightarrow> bool" where
  "sig_stopped s = ((\<forall>r. child_move r s = None) \<and> (\<forall>g. parent_move True g s = None))"

text \<open>A run under a schedule: \<open>True\<close> for a step of the child, in which \<open>rand\<close> returns 42.\<close>

fun sig_exec :: "bool list \<Rightarrow> int list \<times> sig_sys \<Rightarrow> (int list \<times> sig_sys) option" where
  "sig_exec [] x = Some x"
| "sig_exec (True # bs) (ns, s) = (case child_move 42 s of None \<Rightarrow> None | Some (s', out) \<Rightarrow> sig_exec bs (ns @ out, s'))"
| "sig_exec (False # bs) (ns, s) = (case parent_move True 0 s of None \<Rightarrow> None | Some s' \<Rightarrow> sig_exec bs (ns, s'))"

section \<open>What holds between the steps\<close>

definition number_lines :: "int list \<Rightarrow> string" where
  "number_lines ns = concat (map (\<lambda>n. show_int n @ [NL]) ns)"

definition in_hand :: "sig_sys \<Rightarrow> int list" where
  "in_hand s = (case ppc s of PPut n \<Rightarrow> [n] | _ \<Rightarrow> [])"

definition old_text :: "string option \<Rightarrow> string" where
  "old_text old = (case old of None \<Rightarrow> [] | Some t \<Rightarrow> t)"

text \<open>
  \<open>done\<close> are the numbers already in the file. A child that has left did so before the parent
  opened the file for the first time, or the parent has left.
\<close>

definition sig_inv :: "string option \<Rightarrow> int list \<Rightarrow> sig_sys \<Rightarrow> bool" where
  "sig_inv old ns s = (\<exists>done. ns = done @ in_hand s @ pipe s
     \<and> (case number_txt s of None \<Rightarrow> old = None \<and> ns = [] \<and> ppc s \<in> {PKill1, POpen, PExit} \<and> wr_open s \<and> (\<forall>n. cpc s \<noteq> CWrite n) \<and> cpc s \<notin> {CPrint, CFault}
        | Some t \<Rightarrow> t = old_text old @ number_lines done)
     \<and> (cpc s = CExit \<and> ppc s \<noteq> PExit \<longrightarrow> old = None \<and> ns = [] \<and> wr_open s \<and> ppc s \<in> {PKill1, POpen, PRead})
     \<and> (ppc s \<in> {POpen, PRead} \<and> cpc s \<noteq> CExit \<longrightarrow> access_flag s))"

section \<open>Lemmas\<close>

lemma number_lines_simps [simp]:
  "number_lines [] = []" "number_lines (ns @ [n]) = number_lines ns @ show_int n @ [NL]"
  by (simp_all add: number_lines_def)

lemma kill_simps [simp]:
  "pipe (kill f s) = (if cpc s = CExit then pipe s else pipe (f s))"
  "ppc (kill f s) = (if cpc s = CExit then ppc s else ppc (f s))"
  "wr_open (kill f s) = (if cpc s = CExit then wr_open s else wr_open (f s))"
  "number_txt (kill f s) = (if cpc s = CExit then number_txt s else number_txt (f s))"
  "access_flag (kill f s) = (if cpc s = CExit then access_flag s else access_flag (f s))"
  "cpc (kill f s) = (if cpc s = CPause then CTest else cpc s)"
  by (simp_all add: kill_def)

lemma handler_simps [simp]:
  "access_flag (sigusr1_handler s) = True" "access_flag (sigusr2_handler s) = False"
  "pipe (sigusr1_handler s) = pipe s" "ppc (sigusr1_handler s) = ppc s" "wr_open (sigusr1_handler s) = wr_open s"
  "number_txt (sigusr1_handler s) = number_txt s"
  "pipe (sigusr2_handler s) = pipe s" "ppc (sigusr2_handler s) = ppc s" "wr_open (sigusr2_handler s) = wr_open s"
  "number_txt (sigusr2_handler s) = number_txt s"
  by (simp_all add: sigusr1_handler_def sigusr2_handler_def)

lemma child_move_inv:
  assumes "sig_inv old ns s" and "child_move r s = Some (s', out)"
  shows "sig_inv old (ns @ out) s'"
proof -
  from assms(1) obtain d where d: "ns = d @ in_hand s @ pipe s"
    "case number_txt s of None \<Rightarrow> old = None \<and> ns = [] \<and> ppc s \<in> {PKill1, POpen, PExit} \<and> wr_open s \<and> (\<forall>n. cpc s \<noteq> CWrite n) \<and> cpc s \<notin> {CPrint, CFault}
      | Some t \<Rightarrow> t = old_text old @ number_lines d" "cpc s = CExit \<and> ppc s \<noteq> PExit \<longrightarrow> old = None \<and> ns = [] \<and> wr_open s \<and> ppc s \<in> {PKill1, POpen, PRead}"
    "ppc s \<in> {POpen, PRead} \<and> cpc s \<noteq> CExit \<longrightarrow> access_flag s"
    by (auto simp: sig_inv_def)
  show ?thesis
    unfolding sig_inv_def
    by (rule exI [of _ d]) (use d assms(2) in \<open>cases "cpc s"; cases "number_txt s";
      auto simp: child_move_def in_hand_def split: if_splits sum.splits\<close>)
qed

lemma parent_move_inv:
  assumes "sig_inv old ns s" and "parent_move ok g s = Some s'"
  shows "sig_inv old ns s'"
proof -
  from assms(1) obtain d where d: "ns = d @ in_hand s @ pipe s"
    "case number_txt s of None \<Rightarrow> old = None \<and> ns = [] \<and> ppc s \<in> {PKill1, POpen, PExit} \<and> wr_open s \<and> (\<forall>n. cpc s \<noteq> CWrite n) \<and> cpc s \<notin> {CPrint, CFault}
      | Some t \<Rightarrow> t = old_text old @ number_lines d" "cpc s = CExit \<and> ppc s \<noteq> PExit \<longrightarrow> old = None \<and> ns = [] \<and> wr_open s \<and> ppc s \<in> {PKill1, POpen, PRead}"
    "ppc s \<in> {POpen, PRead} \<and> cpc s \<noteq> CExit \<longrightarrow> access_flag s"
    by (auto simp: sig_inv_def)
  show ?thesis
    unfolding sig_inv_def
    by (rule exI [of _ "d @ in_hand s"])
      (use d assms(2) in \<open>cases "ppc s"; cases ok; cases "number_txt s";
        auto simp: parent_move_def in_hand_def old_text_def split: if_splits list.splits\<close>)
qed

lemma sig_reach_inv: "sig_reach old ns s \<Longrightarrow> sig_inv old ns s"
proof (induction rule: sig_reach.induct)
  case sig_begin
  show ?case by (auto simp: sig_inv_def sig_start_def in_hand_def old_text_def split: option.split)
qed (auto intro: child_move_inv parent_move_inv)

lemma child_waits: "child_move r s = None \<longleftrightarrow> cpc s \<in> {CPause, CExit, CFault}"
  by (cases "cpc s") (simp_all add: child_move_def split: sum.split)

lemma parent_waits:
  "parent_move True g s = None \<longleftrightarrow> ppc s = PExit \<or> ppc s = PRead \<and> pipe s = [] \<and> \<not> (cpc s = CExit \<and> \<not> wr_open s)"
  by (cases "ppc s") (simp_all add: parent_move_def split: list.split)

lemma sig_exec_serves:
  assumes "access_flag s" and "number_txt s = Some t0" and "print_file t0 = Inr l" and "ppc s = PRead" and "pipe s = []" and "cpc s = CTest"
  shows "sig_exec [True, True, True, True, False] (ns, s)
    = Some (ns @ [42], s\<lparr>cpc := CTest, screen := screen s @ l, ppc := PPut 42\<rparr>)"
  using assms by (simp add: child_move_def parent_move_def)

lemma sig_exec_reach:
  "sig_exec bs (ns, s) = Some (ns', s') \<Longrightarrow> sig_reach old ns s \<Longrightarrow> sig_reach old ns' s'"
proof (induction bs arbitrary: ns s)
  case (Cons b bs)
  then show ?case by (cases b) (auto split: option.splits intro: sig_child sig_parent)
qed simp

section \<open>Properties\<close>

text \<open>
  C21: However the processes of Task 5 are interleaved, the file always holds its old text and
  then, line by line and in order, the numbers the child has written into the pipe, less those
  that are still in the pipe or in the parent's hand; nothing else ever gets into it.
\<close>

theorem signals_file_order:
  assumes "sig_reach old ns s" and "number_txt s = Some t"
  shows "\<exists>done. ns = done @ in_hand s @ pipe s \<and> t = old_text old @ number_lines done"
  using sig_reach_inv [OF assms(1)] assms(2) by (auto simp: sig_inv_def)

theorem signals_file_order_witness:
  "\<exists>done s. sig_reach (Some ''7'') [42, 42] s \<and> [42, 42] = done @ in_hand s @ pipe s
    \<and> ''7'' @ show_int 42 @ [NL] = old_text (Some ''7'') @ number_lines done"
proof -
  have p: "print_file ''7'' = Inr (''7'' @ [NL])" "is_ok (print_file (''7'' @ show_int 42 @ [NL]))" by code_simp+
  then obtain l where l: "print_file (''7'' @ show_int 42 @ [NL]) = Inr l" by (auto simp: is_ok_def split: sum.splits)
  let ?s = "\<lparr>access_flag = True, cpc = CTest, ppc = PKill2, pipe = [42], wr_open = True,
    number_txt = Some (''7'' @ show_int 42 @ [NL]), screen = ''7'' @ NL # l\<rparr>"
  have "sig_exec [False, True, True, True, True, False, False, False, True, True, True, True] ([], sig_start (Some ''7'')) = Some ([42, 42], ?s)"
    using p(1) l by (simp add: sig_start_def child_move_def parent_move_def kill_def sigusr1_handler_def)
  from sig_exec_reach [OF this sig_begin] have r: "sig_reach (Some ''7'') [42, 42] ?s" .
  have "number_txt ?s = Some (''7'' @ show_int 42 @ [NL])" by simp
  from signals_file_order [OF r this] r show ?thesis by blast
qed

text \<open>
  C34: The program of Task 5 has stopped exactly if the parent waits for a number that nobody will send, or has left,
  and the child pauses, has left or has overrun its array. If the parent waits for a child that pauses, the flag
  is set: the signal came between the child's test and its \<open>pause\<close>, and this does happen. If the parent waits for a child that has left, there was
  no file and nothing was ever sent. A child that is at its test when the parent waits sends its number
  in its next five steps, if it can print the file, and the parent receives it.
\<close>

theorem signals_stop:
  assumes "sig_reach old ns s"
  shows "(sig_stopped s \<longleftrightarrow> (ppc s = PRead \<and> pipe s = [] \<or> ppc s = PExit) \<and> cpc s \<in> {CPause, CExit, CFault})
    \<and> (ppc s = PRead \<and> cpc s = CPause \<longrightarrow> access_flag s)
    \<and> (ppc s = PRead \<and> cpc s = CExit \<longrightarrow> old = None \<and> ns = [])
    \<and> (ppc s = PRead \<and> pipe s = [] \<and> cpc s = CTest \<and> is_ok (print_file (the (number_txt s)))
        \<longrightarrow> (\<exists>t. sig_exec [True, True, True, True, False] (ns, s) = Some (ns @ [42], t) \<and> ppc t = PPut 42))
    \<and> (\<exists>t. sig_reach old [] t \<and> sig_stopped t \<and> ppc t = PRead \<and> cpc t = CPause \<and> access_flag t)"
proof (intro conjI)
  note inv = sig_reach_inv [OF assms]
  show "sig_stopped s \<longleftrightarrow> (ppc s = PRead \<and> pipe s = [] \<or> ppc s = PExit) \<and> cpc s \<in> {CPause, CExit, CFault}"
    using inv by (auto simp: sig_stopped_def sig_inv_def child_waits parent_waits)
  show "ppc s = PRead \<and> cpc s = CPause \<longrightarrow> access_flag s" "ppc s = PRead \<and> cpc s = CExit \<longrightarrow> old = None \<and> ns = []"
    using inv by (auto simp: sig_inv_def)
  show "ppc s = PRead \<and> pipe s = [] \<and> cpc s = CTest \<and> is_ok (print_file (the (number_txt s)))
      \<longrightarrow> (\<exists>t. sig_exec [True, True, True, True, False] (ns, s) = Some (ns @ [42], t) \<and> ppc t = PPut 42)"
  proof (intro impI)
    assume a: "ppc s = PRead \<and> pipe s = [] \<and> cpc s = CTest \<and> is_ok (print_file (the (number_txt s)))"
    with inv obtain t0 where t: "number_txt s = Some t0" "access_flag s" by (auto simp: sig_inv_def split: option.splits)
    from a t obtain l where l: "print_file t0 = Inr l" by (auto simp: is_ok_def split: sum.splits)
    from a sig_exec_serves [OF t(2,1) l, of ns]
    show "\<exists>t. sig_exec [True, True, True, True, False] (ns, s) = Some (ns @ [42], t) \<and> ppc t = PPut 42" by simp
  qed
  let ?t = "\<lparr>access_flag = True, cpc = CPause, ppc = PRead, pipe = [], wr_open = True, number_txt = Some (old_text old), screen = []\<rparr>"
  have "sig_exec [True, False, True, False] ([], sig_start old) = Some ([], ?t)"
    by (simp add: sig_start_def child_move_def parent_move_def kill_def sigusr1_handler_def old_text_def split: option.split)
  from sig_exec_reach [OF this sig_begin] have "sig_reach old [] ?t" .
  moreover have "sig_stopped ?t" by (simp add: sig_stopped_def child_waits parent_waits)
  ultimately show "\<exists>t. sig_reach old [] t \<and> sig_stopped t \<and> ppc t = PRead \<and> cpc t = CPause \<and> access_flag t"
    by (intro exI [of _ ?t]) simp
qed

theorem signals_stop_witness:
  "(\<exists>s. sig_reach None [] s \<and> sig_stopped s \<and> ppc s = PRead \<and> cpc s = CExit)
    \<and> (\<exists>s. sig_reach None [] s \<and> sig_stopped s \<and> ppc s = PRead \<and> cpc s = CPause \<and> access_flag s)"
proof -
  let ?s = "\<lparr>access_flag = True, cpc = CExit, ppc = PRead, pipe = [], wr_open = True, number_txt = Some [], screen = []\<rparr>"
  have "sig_exec [False, True, True, False] ([], sig_start None) = Some ([], ?s)"
    by (simp add: sig_start_def child_move_def parent_move_def kill_def sigusr1_handler_def)
  from sig_exec_reach [OF this sig_begin] have r: "sig_reach None [] ?s" .
  have "ppc ?s = PRead \<and> pipe ?s = [] \<and> cpc ?s = CExit" by simp
  with signals_stop [OF r] r show ?thesis by blast
qed

text \<open>
  Once the parent has left, the child sends nothing more and has at most four steps left: it is
  ended by \<open>SIGPIPE\<close>, does not find the file, or pauses for ever.
\<close>

definition child_rank :: "sig_sys \<Rightarrow> nat" where
  "child_rank s = (case cpc s of CTest \<Rightarrow> 4 | COpen \<Rightarrow> 3 | CPrint \<Rightarrow> 2 | CGoing \<Rightarrow> 1 | CWrite _ \<Rightarrow> 1 | CPause \<Rightarrow> 0 | CExit \<Rightarrow> 0 | CFault \<Rightarrow> 0)"

theorem signals_orphan_stops:
  assumes "ppc s = PExit" and "child_move r s = Some (s', out)"
  shows "out = []" and "ppc s' = PExit" and "child_rank s' < child_rank s" and "child_rank s \<le> 4"
  using assms by (auto simp: child_move_def child_rank_def split: child_pc.splits sum.splits if_splits)

end
