(* ===== verification/Signal_Files.thy ===== *)
theory Signal_Files
  imports Signals
begin

text \<open>
  Module 3, Task 5: the start of the program, and what the loop in which the child prints
  \<open>number.txt\<close> makes of it; the children of Tasks 8, 10 and 11 contain the same loop.

  Proved here: the numbers the parent has stored come back as they are, and a long word
  overruns the array.
\<close>

section \<open>The start\<close>

text \<open>The exit status when \<open>pipe\<close> or \<open>fork\<close> fails, otherwise the two processes.\<close>

definition start_5 :: "int \<Rightarrow> int \<Rightarrow> string option \<Rightarrow> int + sig_sys" where
  "start_5 ret_pipe ret_fork old =
     (if ret_pipe = -1 then Inl 1 else if ret_fork = -1 then Inl 1 else Inr (sig_start old))"

section \<open>Lemmas\<close>

lemma file_words_numbers: "file_words (number_lines ns) = map show_int ns"
proof (induction ns)
  case Nil
  show ?case by (simp add: file_words.simps)
next
  case (Cons n ns)
  have "isspace NL" by (simp add: isspace_def NL_def)
  with Cons file_words_line [OF show_int_word] show ?case
    by (simp add: number_lines_def file_words_space)
qed

lemma print_numbers:
  assumes "\<forall>n \<in> set ns. in_int n"
  shows "print_file (number_lines ns) = Inr (number_lines ns)"
proof -
  have "length (show_int n) < MAX_LENGTH_CHAR" if "n \<in> set ns" for n
    using show_int_length [of n] assms that by (auto simp: MAX_LENGTH_CHAR_def)
  then have "print_file (number_lines ns) = Inr (concat (map (\<lambda>w. w @ [NL]) (map show_int ns)))"
    by (auto simp: print_file_def file_words_numbers)
  then show ?thesis by (simp add: number_lines_def o_def)
qed

text \<open>The numbers in the pipe are two-digit numbers.\<close>

lemma sig_reach_small: "sig_reach old ns s \<Longrightarrow> (\<forall>n \<in> set ns. in_int n) \<and> (\<forall>n. cpc s = CWrite n \<longrightarrow> in_int n)"
proof (induction rule: sig_reach.induct)
  case sig_begin
  show ?case by (simp add: sig_start_def)
next
  case (sig_child ns s r s' out)
  have "0 \<le> r mod 100" "r mod 100 < 100" by simp_all
  then have "- 2147483648 \<le> r mod 100" "r mod 100 \<le> 2147483647" by linarith+
  then have "in_int (r mod 100)" by (simp add: c_arith)
  with sig_child show ?case by (auto simp: child_move_def split: child_pc.splits sum.splits if_splits)
next
  case (sig_parent ns s ok g s')
  then show ?case
    by (auto simp: parent_move_def kill_def sigusr1_handler_def sigusr2_handler_def split: parent_pc.splits list.splits if_splits)
qed

section \<open>Properties\<close>

text \<open>
  In a run of Task 5 that starts without a file, whatever the child prints when it reads \<open>number.txt\<close> is
  exactly the file, which holds the first of the numbers the child has sent, each on a line of its own, in the order
  in which it has sent them.
\<close>

theorem signals_child_prints:
  assumes "sig_reach None ns s" and "number_txt s = Some t"
  shows "\<exists>k. t = number_lines (take k ns) \<and> print_file t = Inr t"
proof -
  from sig_reach_inv [OF assms(1)] assms(2) obtain d where d: "ns = d @ in_hand s @ pipe s" "t = number_lines d"
    by (auto simp: sig_inv_def old_text_def)
  have "\<forall>n \<in> set d. in_int n" using sig_reach_small [OF assms(1)] d(1) by simp
  then have "print_file t = Inr t" unfolding d(2) by (rule print_numbers)
  with d show ?thesis by (intro exI [of _ "length d"]) simp
qed

text \<open>So the child never overruns its array.\<close>

theorem signals_child_safe: "sig_reach None ns s \<Longrightarrow> cpc s \<noteq> CFault"
proof (induction rule: sig_reach.induct)
  case sig_begin
  show ?case by (simp add: sig_start_def)
next
  case (sig_child ns s r s' out)
  have "is_ok (print_file (the (number_txt s)))" if "cpc s = CPrint"
  proof -
    from that sig_reach_inv [OF sig_child(1)] obtain t where "number_txt s = Some t"
      by (auto simp: sig_inv_def split: option.splits)
    with signals_child_prints [OF sig_child(1)] show ?thesis by (auto simp: is_ok_def)
  qed
  with sig_child show ?case by (auto simp: child_move_def is_ok_def split: child_pc.splits sum.splits if_splits)
next
  case (sig_parent ns s ok g s')
  then show ?case
    by (cases "ppc s") (auto simp: parent_move_def split: list.splits if_splits)
qed

text \<open>A word of 128 characters or more in the file overruns the child's array.\<close>

theorem signals_long_word:
  assumes "\<forall>c \<in> set w. \<not> isspace c" and "MAX_LENGTH_CHAR \<le> length w"
  shows "print_file (w @ NL # t) = Inl OutOfBounds"
proof -
  have "w \<noteq> []" using assms(2) by (auto simp: MAX_LENGTH_CHAR_def)
  with file_words_line [OF this assms(1)] assms(2) show ?thesis by (auto simp: print_file_def)
qed

end
