(* ===== verification/Mail_Queue.thy ===== *)
theory Mail_Queue
  imports C_Stdio
begin

text \<open>
  Message queues as the chats of Module 3 use them: the System V queues of Task 6, where a
  receiver asks for a type of message, and the POSIX queues of Task 7, where messages come in
  the order of their priorities. The locale \<open>mailbox\<close> states what both promise: within a
  class of messages (a type, a priority) they are delivered in the order in which they were sent, and
  none is lost or doubled. What follows for a whole run is proved there once.
\<close>

section \<open>Runs of a queue\<close>

datatype ('a, 'm) mail_op = Sent 'm | Got 'a 'm

text \<open>\<open>mail_run\<close> replays a sequence of operations; a \<open>Got\<close> must return the message it names.\<close>

fun mail_run :: "('q \<Rightarrow> 'm \<Rightarrow> 'q) \<Rightarrow> ('a \<Rightarrow> 'q \<Rightarrow> ('m \<times> 'q) option) \<Rightarrow> ('a, 'm) mail_op list \<Rightarrow> 'q \<Rightarrow> 'q option" where
  "mail_run put take_one [] q = Some q"
| "mail_run put take_one (Sent m # ops) q = mail_run put take_one ops (put q m)"
| "mail_run put take_one (Got a m # ops) q =
     (case take_one a q of None \<Rightarrow> None | Some (x, q') \<Rightarrow> if x = m then mail_run put take_one ops q' else None)"

fun sents :: "('a, 'm) mail_op list \<Rightarrow> 'm list" where
  "sents [] = []"
| "sents (Sent m # ops) = m # sents ops"
| "sents (Got a m # ops) = sents ops"

fun gots :: "('a, 'm) mail_op list \<Rightarrow> 'm list" where
  "gots [] = []"
| "gots (Sent m # ops) = gots ops"
| "gots (Got a m # ops) = m # gots ops"

section \<open>The two kinds of queues\<close>

text \<open>System V: \<open>msgrcv\<close> with a positive type takes the first message of this type.\<close>

definition msgsnd :: "(int \<times> 'b) list \<Rightarrow> int \<times> 'b \<Rightarrow> (int \<times> 'b) list" where
  "msgsnd q m = q @ [m]"

fun msgrcv :: "int \<Rightarrow> (int \<times> 'b) list \<Rightarrow> ((int \<times> 'b) \<times> (int \<times> 'b) list) option" where
  "msgrcv t [] = None"
| "msgrcv t (m # q) =
     (if fst m = t then Some (m, q)
      else case msgrcv t q of None \<Rightarrow> None | Some (x, q') \<Rightarrow> Some (x, m # q'))"

text \<open>POSIX: the queue is kept in the order of falling priorities; the oldest comes first.\<close>

definition mq_send :: "(int \<times> 'b) list \<Rightarrow> int \<times> 'b \<Rightarrow> (int \<times> 'b) list" where
  "mq_send q m = takeWhile (\<lambda>x. fst m \<le> fst x) q @ m # dropWhile (\<lambda>x. fst m \<le> fst x) q"

definition mq_receive :: "unit \<Rightarrow> (int \<times> 'b) list \<Rightarrow> ((int \<times> 'b) \<times> (int \<times> 'b) list) option" where
  "mq_receive u q = (case q of [] \<Rightarrow> None | m # q \<Rightarrow> Some (m, q))"

text \<open>The messages of a class that are waiting.\<close>

definition waiting :: "int \<Rightarrow> (int \<times> 'b) list \<Rightarrow> (int \<times> 'b) list" where
  "waiting t q = filter (\<lambda>m. fst m = t) q"

definition by_priority :: "(int \<times> 'b) list \<Rightarrow> bool" where
  "by_priority q = sorted_wrt (\<lambda>x y. fst x \<ge> fst y) q"

section \<open>What a queue promises\<close>

locale mailbox =
  fixes put :: "'q \<Rightarrow> 'm \<Rightarrow> 'q"
    and take_one :: "'a \<Rightarrow> 'q \<Rightarrow> ('m \<times> 'q) option"
    and cls :: "'m \<Rightarrow> 'c"
    and wait :: "'c \<Rightarrow> 'q \<Rightarrow> 'm list"
    and ok :: "'q \<Rightarrow> bool"
  assumes put_ok: "ok q \<Longrightarrow> ok (put q m)"
    and take_ok: "ok q \<Longrightarrow> take_one a q = Some (m, q') \<Longrightarrow> ok q'"
    and put_wait: "ok q \<Longrightarrow> wait c (put q m) = wait c q @ (if cls m = c then [m] else [])"
    and take_wait: "ok q \<Longrightarrow> take_one a q = Some (m, q') \<Longrightarrow>
      wait c q = (if cls m = c then m # wait c q' else wait c q')"
begin

text \<open>First in, first out within every class, over a whole run.\<close>

lemma run_fifo:
  "ok q \<Longrightarrow> mail_run put take_one ops q = Some q' \<Longrightarrow>
    wait c q @ filter (\<lambda>m. cls m = c) (sents ops) = filter (\<lambda>m. cls m = c) (gots ops) @ wait c q' \<and> ok q'"
proof (induction ops arbitrary: q)
  case Nil
  then show ?case by simp
next
  case (Cons x ops)
  show ?case
  proof (cases x)
    case (Sent m)
    with Cons.prems have "mail_run put take_one ops (put q m) = Some q'" by simp
    from Cons.IH [OF put_ok [OF Cons.prems(1)] this] show ?thesis
      using Sent put_wait [OF Cons.prems(1), of c m] by (cases "cls m = c") simp_all
  next
    case (Got a m)
    with Cons.prems(2) obtain q2 where q2: "take_one a q = Some (m, q2)" "mail_run put take_one ops q2 = Some q'"
      by (auto split: option.splits if_splits)
    from Cons.IH [OF take_ok [OF Cons.prems(1) q2(1)] q2(2)] show ?thesis
      using Got take_wait [OF Cons.prems(1) q2(1), of c] by simp
  qed
qed

end

lemma mail_run_append:
  "mail_run put get (xs @ ys) q = (case mail_run put get xs q of None \<Rightarrow> None | Some q' \<Rightarrow> mail_run put get ys q')"
  by (induction put get xs q rule: mail_run.induct) (auto split: option.splits)

section \<open>Both are mailboxes\<close>

lemma waiting_simps [simp]:
  "waiting t [] = []"
  "waiting t (m # q) = (if fst m = t then m # waiting t q else waiting t q)"
  "waiting t (p @ q) = waiting t p @ waiting t q"
  by (simp_all add: waiting_def)

lemma msgrcv_None: "msgrcv t q = None \<longleftrightarrow> waiting t q = []"
  by (induction t q rule: msgrcv.induct) (auto split: option.splits)

lemma msgrcv_Some:
  "msgrcv t q = Some (m, q') \<Longrightarrow> fst m = t \<and> waiting t q = m # waiting t q' \<and> (\<forall>c. c \<noteq> t \<longrightarrow> waiting c q = waiting c q')
    \<and> set q = insert m (set q') \<and> length q = Suc (length q')"
  by (induction t q arbitrary: q' rule: msgrcv.induct) (auto split: if_splits option.splits prod.splits)

lemma mq_send_waiting:
  assumes "by_priority q"
  shows "waiting t (mq_send q m) = waiting t q @ (if fst m = t then [m] else [])"
proof -
  let ?d = "dropWhile (\<lambda>x. fst m \<le> fst x) q"
  have q: "waiting t q = waiting t (takeWhile (\<lambda>x. fst m \<le> fst x) q) @ waiting t ?d"
    by (metis takeWhile_dropWhile_id waiting_simps(3))
  have "fst x < fst m" if "x \<in> set ?d" for x
  proof -
    have "sorted_wrt (\<lambda>x y. fst x \<ge> fst y) ?d"
      using assms by (metis by_priority_def sorted_wrt_append takeWhile_dropWhile_id)
    with that show ?thesis using hd_dropWhile [of "\<lambda>x. fst m \<le> fst x" q] by (cases ?d) force+
  qed
  then have "waiting (fst m) ?d = []" by (fastforce simp: waiting_def filter_empty_conv)
  with q show ?thesis by (auto simp: mq_send_def)
qed

lemma mq_send_by_priority:
  assumes "by_priority q"
  shows "by_priority (mq_send q m)"
  using assms
proof (induction q)
  case Nil
  then show ?case by (simp add: mq_send_def by_priority_def)
next
  case (Cons x q)
  have "set (mq_send q m) = insert m (set q)"
    by (metis Un_insert_right list.simps(15) mq_send_def set_append takeWhile_dropWhile_id)
  with Cons show ?case by (fastforce simp: mq_send_def by_priority_def)
qed

interpretation sysv_queue: mailbox msgsnd msgrcv fst waiting "\<lambda>_. True"
proof unfold_locales
  fix a c :: int and q q' :: "(int \<times> 'b) list" and m
  show "waiting c (msgsnd q m) = waiting c q @ (if fst m = c then [m] else [])" by (simp add: msgsnd_def)
  assume "msgrcv a q = Some (m, q')"
  from msgrcv_Some [OF this] show "waiting c q = (if fst m = c then m # waiting c q' else waiting c q')" by auto
qed simp_all

interpretation posix_queue: mailbox mq_send mq_receive fst waiting by_priority
proof unfold_locales
  fix a :: unit and q q' :: "(int \<times> 'b) list" and m
  assume q: "by_priority q"
  then show "by_priority (mq_send q m)" by (rule mq_send_by_priority)
  show "waiting c (mq_send q m) = waiting c q @ (if fst m = c then [m] else [])" for c
    using q by (rule mq_send_waiting)
  assume r: "mq_receive a q = Some (m, q')"
  then show "by_priority q'" using q by (auto simp: mq_receive_def by_priority_def split: list.splits)
  show "waiting c q = (if fst m = c then m # waiting c q' else waiting c q')" for c
    using r by (auto simp: mq_receive_def split: list.splits)
qed

end
