(* ===== verification/Chat_Posix.thy ===== *)
theory Chat_Posix
  imports Mail_Queue
begin

text \<open>
  The chat of Module 3, Task 7 (\<open>prog1.c\<close>, \<open>prog2.c\<close>): two programs that talk over one POSIX
  message queue, which the first creates and finally unlinks. Messages have a priority
  but no addressee. As in Task 6 a program is a machine that makes one call on the queue per
  step; \<open>mq_open\<close> of the first program and everything before its first \<open>mq_send\<close> is in the
  start state; \<open>mq_open\<close> may find a queue that an earlier run has left, with its messages \<open>old\<close>. The queue has room for \<open>mq_maxmsg\<close> messages of 1024 bytes; a text fits with its NUL.

  Proved here, for a new queue: there is never more than one message, texts are received
  once and in order, the second program never reports the end of the chat, and the first
  program can receive its own text and show it as the other's.
\<close>

section \<open>The programs\<close>

definition MQ_MAXMSG :: nat where
  "MQ_MAXMSG = 10"

definition MQ_MSGSIZE :: nat where
  "MQ_MSGSIZE = 1024"

text \<open>The call a program makes next.\<close>

datatype mq_pc = MOpen | MSend | MReceive | MSendEnd | MUnlink | MDone

record mq_user =
  mpc :: mq_pc
  mbuf :: cbuf
  mio :: io

type_synonym mq_msg = "int \<times> string"

record mq_state =
  mqueue :: "mq_msg list"
  linked :: bool

text \<open>\<open>mq_send\<close>: it blocks when the queue is full.\<close>

definition mq_put :: "mq_state \<Rightarrow> mq_msg \<Rightarrow> (mq_state \<times> (unit, mq_msg) mail_op list) option" where
  "mq_put q m = (if MQ_MAXMSG \<le> length (mqueue q) then None else Some (q\<lparr>mqueue := mq_send (mqueue q) m\<rparr>, [Sent m]))"

type_synonym mq_result = "(mq_state \<times> mq_user \<times> (unit, mq_msg) mail_op list) res option"

text \<open>The text in the buffer is sent with priority 1.\<close>

definition send_buffer :: "mq_state \<Rightarrow> mq_user \<Rightarrow> mq_result" where
  "send_buffer q u =
     (case cstr (mbuf u) of Inl e \<Rightarrow> Some (Inl e)
      | Inr s \<Rightarrow> (case mq_put q (1, s) of None \<Rightarrow> None
          | Some (q, ops) \<Rightarrow> Some (Inr (q, u\<lparr>mpc := MReceive\<rparr>, ops))))"

text \<open>The first program from \<open>mq_receive\<close> to its next call.\<close>

definition after_recv_1 :: "mq_user \<Rightarrow> mq_user res" where
  "after_recv_1 u =
     bindE (cstr (mbuf u)) (\<lambda>s.
     if s = ''/exit'' then Inr (u\<lparr>mpc := MUnlink, mio := printf (''User2 ended chat.'' @ [NL]) (mio u)\<rparr>)
     else bindE (fgets (mbuf u) MQ_MSGSIZE (printf ''User1: '' (printf (''User2: '' @ s) (mio u)))) (\<lambda>(_, b, w).
       Inr \<lparr>mpc = MSend, mbuf = b, mio = w\<rparr>))"

text \<open>The second program from \<open>mq_receive\<close>, with the priority it returned, to its next call.\<close>

definition after_recv_2 :: "int \<Rightarrow> mq_user \<Rightarrow> mq_user res" where
  "after_recv_2 prio u =
     (if prio = 255 then Inr (u\<lparr>mpc := MDone, mio := printf (''User1 ended chat.'' @ [NL]) (mio u)\<rparr>)
      else bindE (cstr (mbuf u)) (\<lambda>s.
        bindE (fgets (mbuf u) MQ_MSGSIZE (printf ''User2: '' (printf (''User1: '' @ s) (mio u)))) (\<lambda>(_, b, w).
        bindE (cstr b) (\<lambda>t. Inr \<lparr>mpc = if t = ''exit'' @ [NL] then MSendEnd else MSend, mbuf = b, mio = w\<rparr>))))"

text \<open>\<open>mq_receive\<close> into the buffer, and what the program does with it.\<close>

definition receive :: "(int \<Rightarrow> mq_user \<Rightarrow> mq_user res) \<Rightarrow> mq_state \<Rightarrow> mq_user \<Rightarrow> mq_result" where
  "receive after q u =
     (case mq_receive () (mqueue q) of None \<Rightarrow> None
      | Some ((prio, s), l) \<Rightarrow> Some (bindE (put_str (mbuf u) s) (\<lambda>b. bindE (after prio (u\<lparr>mbuf := b\<rparr>)) (\<lambda>u.
          Inr (q\<lparr>mqueue := l\<rparr>, u, [Got () (prio, s)])))))"

definition prog1 :: "mq_state \<Rightarrow> mq_user \<Rightarrow> mq_result" where
  "prog1 q u =
     (case mpc u of MSend \<Rightarrow> send_buffer q u
      | MReceive \<Rightarrow> receive (\<lambda>_. after_recv_1) q u
      | MUnlink \<Rightarrow> Some (Inr (q\<lparr>linked := False\<rparr>, u\<lparr>mpc := MDone\<rparr>, []))
      | _ \<Rightarrow> None)"

definition prog2 :: "mq_state \<Rightarrow> mq_user \<Rightarrow> mq_result" where
  "prog2 q u =
     (case mpc u of MOpen \<Rightarrow> Some (Inr (q, u\<lparr>mpc := if linked q then MReceive else MDone\<rparr>, []))
      | MReceive \<Rightarrow> receive after_recv_2 q u
      | MSend \<Rightarrow> send_buffer q u
      | MSendEnd \<Rightarrow> (case mq_put q (255, ''Chat ended.'') of None \<Rightarrow> None
          | Some (q, ops) \<Rightarrow> Some (Inr (q, u\<lparr>mpc := MDone\<rparr>, ops)))
      | _ \<Rightarrow> None)"

section \<open>Both programs together\<close>

datatype mq_side = User1 | User2

record mq_sys =
  mq_st :: mq_state
  user1 :: mq_user
  user2 :: mq_user

definition mq_start :: "mq_msg list \<Rightarrow> mq_user \<Rightarrow> mq_user \<Rightarrow> mq_sys res" where
  "mq_start old u v =
     bindE (fgets (mbuf u) MQ_MSGSIZE (printf ''User1: '' (mio u))) (\<lambda>(_, b, w).
     Inr \<lparr>mq_st = \<lparr>mqueue = old, linked = True\<rparr>, user1 = \<lparr>mpc = MSend, mbuf = b, mio = w\<rparr>, user2 = v\<lparr>mpc := MOpen\<rparr>\<rparr>)"

definition mq_move :: "mq_side \<Rightarrow> mq_sys \<Rightarrow> (mq_sys \<times> (unit, mq_msg) mail_op list) res option" where
  "mq_move who s =
     (case who of
        User1 \<Rightarrow> map_option (\<lambda>r. bindE r (\<lambda>(q, u, ops). Inr (s\<lparr>mq_st := q, user1 := u\<rparr>, ops))) (prog1 (mq_st s) (user1 s))
      | User2 \<Rightarrow> map_option (\<lambda>r. bindE r (\<lambda>(q, u, ops). Inr (s\<lparr>mq_st := q, user2 := u\<rparr>, ops))) (prog2 (mq_st s) (user2 s)))"

inductive mq_reach :: "mq_sys \<Rightarrow> (unit, mq_msg) mail_op list \<Rightarrow> mq_sys option \<Rightarrow> bool" for s0 where
  mq_begin: "mq_reach s0 [] (Some s0)"
| mq_moved: "mq_reach s0 tr (Some s) \<Longrightarrow> mq_move who s = Some (Inr (s', ops)) \<Longrightarrow> mq_reach s0 (tr @ ops) (Some s')"
| mq_fault: "mq_reach s0 tr (Some s) \<Longrightarrow> mq_move who s = Some (Inl e) \<Longrightarrow> mq_reach s0 tr None"

section \<open>What holds between the calls\<close>

definition buf_ok :: "cbuf \<Rightarrow> bool" where
  "buf_ok b = (length b = MQ_MSGSIZE \<and> NUL \<in> set b)"

definition msg_ok :: "mq_msg \<Rightarrow> bool" where
  "msg_ok m = (length (snd m) < MQ_MSGSIZE \<and> NUL \<notin> set (snd m))"

text \<open>The message that goes round: it is in the queue, or one of the programs holds it.\<close>

definition holding :: "mq_user \<Rightarrow> nat" where
  "holding u = (if mpc u \<in> {MSend, MSendEnd} then 1 else 0)"

definition mq_inv :: "mq_sys \<Rightarrow> bool" where
  "mq_inv s = (length (mqueue (mq_st s)) + holding (user1 s) + holding (user2 s) \<le> 1
     \<and> (\<forall>m \<in> set (mqueue (mq_st s)). msg_ok m \<and> (fst m = 1 \<or> fst m = 255 \<and> mpc (user2 s) = MDone))
     \<and> buf_ok (mbuf (user1 s)) \<and> length (mbuf (user2 s)) = MQ_MSGSIZE
     \<and> (mpc (user2 s) = MSend \<longrightarrow> buf_ok (mbuf (user2 s))))"

text \<open>Examples.\<close>

definition sample_user :: "string \<Rightarrow> mq_user" where
  "sample_user s = \<lparr>mpc = MOpen, mbuf = replicate MQ_MSGSIZE NUL, mio = console s\<rparr>"

section \<open>Lemmas\<close>

lemma cstr_of_buf: "buf_ok b \<Longrightarrow> \<exists>s. cstr b = Inr s \<and> msg_ok (p, s)"
proof -
  assume b: "buf_ok b"
  then obtain s where s: "cstr b = Inr s" by (auto simp: buf_ok_def cstr_def)
  with b cstr_length [OF s] show ?thesis
    by (auto simp: msg_ok_def buf_ok_def cstr_def split: if_splits dest: set_takeWhileD)
qed

lemma put_msg: "msg_ok (p, s) \<Longrightarrow> length b = MQ_MSGSIZE \<Longrightarrow> \<exists>b'. put_str b s = Inr b' \<and> buf_ok b' \<and> cstr b' = Inr s"
  using put_str_cstr [of b s] by (auto simp: msg_ok_def put_str_eq_Inr buf_ok_def)

lemma fgets_buf: "buf_ok b \<Longrightarrow> \<exists>r b' w'. fgets b MQ_MSGSIZE w = Inr (r, b', w') \<and> buf_ok b'"
proof -
  assume b: "buf_ok b"
  then have "is_ok (fgets b MQ_MSGSIZE w)" by (intro fgets_ok) (auto simp: buf_ok_def MQ_MSGSIZE_def)
  then obtain r b' w' where f: "fgets b MQ_MSGSIZE w = Inr (r, b', w')" by (auto simp: is_ok_iff)
  with fgets_length [OF f] b have "buf_ok b'"
    by (auto simp: buf_ok_def fgets_def put_str_eq_Inr split: if_splits prod.splits)
  with f show ?thesis by blast
qed

lemma after_recv_1_ok:
  assumes "buf_ok (mbuf u)"
  shows "\<exists>u'. after_recv_1 u = Inr u' \<and> buf_ok (mbuf u') \<and> mpc u' \<in> {MUnlink, MSend}"
proof -
  from cstr_of_buf [OF assms] obtain s where "cstr (mbuf u) = Inr s" by blast
  with fgets_buf [OF assms, of "printf ''User1: '' (printf (''User2: '' @ s) (mio u))"] assms show ?thesis
    by (auto simp: after_recv_1_def)
qed

lemma after_recv_2_ok:
  assumes "buf_ok (mbuf u)" and "prio \<noteq> 255"
  shows "\<exists>u'. after_recv_2 prio u = Inr u' \<and> buf_ok (mbuf u') \<and> mpc u' \<in> {MSend, MSendEnd}"
proof -
  from cstr_of_buf [OF assms(1)] obtain s where s: "cstr (mbuf u) = Inr s" by blast
  from fgets_buf [OF assms(1), of "printf ''User2: '' (printf (''User1: '' @ s) (mio u))"] obtain r b w where
    f: "fgets (mbuf u) MQ_MSGSIZE (printf ''User2: '' (printf (''User1: '' @ s) (mio u))) = Inr (r, b, w)" "buf_ok b" by blast
  from cstr_of_buf [OF f(2)] obtain t where "cstr b = Inr t" by blast
  with s f assms(2) show ?thesis by (auto simp: after_recv_2_def)
qed

text \<open>Sending and receiving with at most one message around.\<close>

lemma mq_put_empty: "mqueue q = [] \<Longrightarrow> mq_put q m = Some (q\<lparr>mqueue := [m]\<rparr>, [Sent m])"
  by (simp add: mq_put_def MQ_MAXMSG_def mq_send_def)

lemma send_buffer_ok:
  assumes "buf_ok (mbuf u)" and "mqueue q = []"
  shows "\<exists>s. send_buffer q u = Some (Inr (q\<lparr>mqueue := [(1, s)]\<rparr>, u\<lparr>mpc := MReceive\<rparr>, [Sent (1, s)])) \<and> msg_ok (1, s)"
proof -
  from cstr_of_buf [OF assms(1), of 1] obtain s where "cstr (mbuf u) = Inr s" "msg_ok (1, s)" by blast
  then show ?thesis by (auto simp: send_buffer_def mq_put_empty [OF assms(2)])
qed

lemma receive_ok:
  assumes "mqueue q = [(prio, s)]" and "msg_ok (prio, s)" and "length (mbuf u) = MQ_MSGSIZE"
  shows "\<exists>b. buf_ok b \<and> receive after q u = Some (bindE (after prio (u\<lparr>mbuf := b\<rparr>)) (\<lambda>u.
    Inr (q\<lparr>mqueue := []\<rparr>, u, [Got () (prio, s)])))"
  using put_msg [OF assms(2,3)] assms(1) by (auto simp: receive_def mq_receive_def)

lemma one_message: "mq_inv s \<Longrightarrow> mqueue (mq_st s) = [] \<or> (\<exists>p t. mqueue (mq_st s) = [(p, t)] \<and> msg_ok (p, t)
    \<and> holding (user1 s) = 0 \<and> holding (user2 s) = 0 \<and> (p = 1 \<or> p = 255 \<and> mpc (user2 s) = MDone))"
  by (cases "mqueue (mq_st s)") (auto simp: mq_inv_def)

lemma holder_queue: "mq_inv s \<Longrightarrow> 0 < holding (user1 s) + holding (user2 s) \<Longrightarrow> mqueue (mq_st s) = []"
  by (drule one_message) auto

lemma prog1_inv:
  assumes inv: "mq_inv s" and r: "prog1 (mq_st s) (user1 s) = Some r"
  shows "\<exists>q u ops. r = Inr (q, u, ops) \<and> mq_inv (s\<lparr>mq_st := q, user1 := u\<rparr>)
    \<and> mail_run mq_send mq_receive ops (mqueue (mq_st s)) = Some (mqueue q)"
proof (cases "mpc (user1 s)")
  case MSend
  with inv have e: "mqueue (mq_st s) = []" "buf_ok (mbuf (user1 s))"
    using holder_queue [OF inv] by (auto simp: mq_inv_def holding_def)
  from send_buffer_ok [OF e(2,1)] r MSend obtain t where
    "r = Inr ((mq_st s)\<lparr>mqueue := [(1, t)]\<rparr>, (user1 s)\<lparr>mpc := MReceive\<rparr>, [Sent (1, t)])" "msg_ok (1, t)"
    by (auto simp: prog1_def)
  with inv e MSend show ?thesis by (auto simp: mq_inv_def holding_def mq_send_def)
next
  case MReceive
  with r have rr: "receive (\<lambda>_. after_recv_1) (mq_st s) (user1 s) = Some r" by (simp add: prog1_def)
  then obtain p t where m: "mqueue (mq_st s) = [(p, t)]" "msg_ok (p, t)" "holding (user2 s) = 0"
    using one_message [OF inv] by (auto simp: receive_def mq_receive_def)
  have "length (mbuf (user1 s)) = MQ_MSGSIZE" using inv by (simp add: mq_inv_def buf_ok_def)
  from receive_ok [OF m(1,2) this, of "\<lambda>_. after_recv_1"] rr obtain b where
    b: "buf_ok b" "r = bindE (after_recv_1 ((user1 s)\<lparr>mbuf := b\<rparr>)) (\<lambda>u. Inr ((mq_st s)\<lparr>mqueue := []\<rparr>, u, [Got () (p, t)]))" by auto
  from after_recv_1_ok [of "(user1 s)\<lparr>mbuf := b\<rparr>"] b(1) obtain u where
    "after_recv_1 ((user1 s)\<lparr>mbuf := b\<rparr>) = Inr u" "buf_ok (mbuf u)" by auto
  with b m inv show ?thesis by (auto simp: mq_inv_def holding_def mq_receive_def)
next
  case MUnlink
  with inv have "mq_inv (s\<lparr>mq_st := (mq_st s)\<lparr>linked := False\<rparr>, user1 := (user1 s)\<lparr>mpc := MDone\<rparr>\<rparr>)"
    by (auto simp: mq_inv_def holding_def)
  with r MUnlink show ?thesis by (auto simp: prog1_def)
qed (use r in \<open>simp_all add: prog1_def\<close>)

lemma prog2_inv:
  assumes inv: "mq_inv s" and r: "prog2 (mq_st s) (user2 s) = Some r"
  shows "\<exists>q u ops. r = Inr (q, u, ops) \<and> mq_inv (s\<lparr>mq_st := q, user2 := u\<rparr>)
    \<and> mail_run mq_send mq_receive ops (mqueue (mq_st s)) = Some (mqueue q) \<and> (mpc (user2 s) = MReceive \<longrightarrow> mpc u \<noteq> MDone)"
proof (cases "mpc (user2 s)")
  case MOpen
  let ?u = "(user2 s)\<lparr>mpc := if linked (mq_st s) then MReceive else MDone\<rparr>"
  from MOpen inv have "mq_inv (s\<lparr>mq_st := mq_st s, user2 := ?u\<rparr>)" by (auto simp: mq_inv_def holding_def)
  with r MOpen show ?thesis by (auto simp: prog2_def)
next
  case MSend
  with inv have e: "mqueue (mq_st s) = []" "buf_ok (mbuf (user2 s))"
    using holder_queue [OF inv] by (auto simp: mq_inv_def holding_def)
  from send_buffer_ok [OF e(2,1)] r MSend obtain t where
    "r = Inr ((mq_st s)\<lparr>mqueue := [(1, t)]\<rparr>, (user2 s)\<lparr>mpc := MReceive\<rparr>, [Sent (1, t)])" "msg_ok (1, t)"
    by (auto simp: prog2_def)
  with inv e MSend show ?thesis by (auto simp: mq_inv_def holding_def mq_send_def)
next
  case MReceive
  with r have rr: "receive after_recv_2 (mq_st s) (user2 s) = Some r" by (simp add: prog2_def)
  then obtain p t where m: "mqueue (mq_st s) = [(p, t)]" "msg_ok (p, t)" "holding (user1 s) = 0" "p \<noteq> 255"
    using one_message [OF inv] MReceive by (auto simp: receive_def mq_receive_def)
  have "length (mbuf (user2 s)) = MQ_MSGSIZE" using inv by (simp add: mq_inv_def)
  from receive_ok [OF m(1,2) this, of after_recv_2] rr obtain b where
    b: "buf_ok b" "r = bindE (after_recv_2 p ((user2 s)\<lparr>mbuf := b\<rparr>)) (\<lambda>u. Inr ((mq_st s)\<lparr>mqueue := []\<rparr>, u, [Got () (p, t)]))" by auto
  from after_recv_2_ok [of "(user2 s)\<lparr>mbuf := b\<rparr>" p] b(1) m(4) obtain u where
    "after_recv_2 p ((user2 s)\<lparr>mbuf := b\<rparr>) = Inr u" "buf_ok (mbuf u)" "mpc u \<in> {MSend, MSendEnd}" by auto
  with b m inv show ?thesis by (auto simp: mq_inv_def holding_def mq_receive_def buf_ok_def)
next
  case MSendEnd
  with holder_queue [OF inv] have e: "mqueue (mq_st s) = []" by (simp add: holding_def)
  with MSendEnd r have "r = Inr ((mq_st s)\<lparr>mqueue := [(255, ''Chat ended.'')]\<rparr>, (user2 s)\<lparr>mpc := MDone\<rparr>, [Sent (255, ''Chat ended.'')])"
    by (auto simp: prog2_def mq_put_empty)
  with inv e MSendEnd show ?thesis
    by (auto simp: mq_inv_def holding_def mq_send_def msg_ok_def MQ_MSGSIZE_def NUL_def)
qed (use r in \<open>simp_all add: prog2_def\<close>)

lemma mq_move_inv:
  assumes "mq_inv s" and "mq_move who s = Some r"
  shows "\<exists>s' ops. r = Inr (s', ops) \<and> mq_inv s'
    \<and> mail_run mq_send mq_receive ops (mqueue (mq_st s)) = Some (mqueue (mq_st s'))"
proof (cases who)
  case User1
  with assms(2) obtain r' where r: "prog1 (mq_st s) (user1 s) = Some r'"
    "r = bindE r' (\<lambda>(q, u, ops). Inr (s\<lparr>mq_st := q, user1 := u\<rparr>, ops))" by (auto simp: mq_move_def)
  with prog1_inv [OF assms(1) r(1)] show ?thesis by auto
next
  case User2
  with assms(2) obtain r' where r: "prog2 (mq_st s) (user2 s) = Some r'"
    "r = bindE r' (\<lambda>(q, u, ops). Inr (s\<lparr>mq_st := q, user2 := u\<rparr>, ops))" by (auto simp: mq_move_def)
  with prog2_inv [OF assms(1) r(1)] show ?thesis by auto
qed

lemma mq_start_inv:
  assumes "buf_ok (mbuf u)" and "length (mbuf v) = MQ_MSGSIZE"
  shows "\<exists>s. mq_start [] u v = Inr s \<and> mq_inv s \<and> mqueue (mq_st s) = []"
proof -
  from fgets_buf [OF assms(1), of "printf ''User1: '' (mio u)"] obtain r b w where
    "fgets (mbuf u) MQ_MSGSIZE (printf ''User1: '' (mio u)) = Inr (r, b, w)" "buf_ok b" by blast
  with assms(2) show ?thesis by (simp add: mq_start_def mq_inv_def holding_def)
qed

lemma mq_reach_inv:
  assumes "mq_reach s0 tr x" and "mq_inv s0" and "mqueue (mq_st s0) = []"
  shows "\<exists>s. x = Some s \<and> mq_inv s \<and> mail_run mq_send mq_receive tr [] = Some (mqueue (mq_st s))"
  using assms(1)
proof induction
  case mq_begin
  with assms(2,3) show ?case by simp
next
  case (mq_moved tr s who s' ops)
  then have ih: "mq_inv s" "mail_run mq_send mq_receive tr [] = Some (mqueue (mq_st s))" by auto
  from mq_move_inv [OF ih(1) mq_moved.hyps(2)] ih(2) show ?case by (auto simp: mail_run_append)
next
  case (mq_fault tr s who e)
  then have "mq_inv s" by simp
  from mq_move_inv [OF this mq_fault.hyps(2)] show ?case by simp
qed

text \<open>A message in the queue is what the next call of \<open>mq_receive\<close> returns.\<close>

lemma receive_next:
  assumes "receive after q u = Some (Inr (q', u', ops))" and "mqueue q = [m]"
  shows "ops = [Got () m]"
  using assms by (cases m) (auto simp: receive_def mq_receive_def)

lemma receive_moves: "mqueue q = [m] \<Longrightarrow> \<exists>r. receive after q u = Some r"
  by (cases m) (simp add: receive_def mq_receive_def)

lemma next_receive:
  assumes "mq_inv s"
  shows "mqueue (mq_st s) = [m] \<longrightarrow>
        (mpc (user1 s) = MReceive \<longrightarrow> (\<exists>q w. prog1 (mq_st s) (user1 s) = Some (Inr (q, w, [Got () m]))))
        \<and> (mpc (user2 s) = MReceive \<longrightarrow> (\<exists>q w. prog2 (mq_st s) (user2 s) = Some (Inr (q, w, [Got () m]))))"
proof (intro impI conjI)
  assume m: "mqueue (mq_st s) = [m]" and u: "mpc (user1 s) = MReceive"
  obtain r where r: "prog1 (mq_st s) (user1 s) = Some r" using receive_moves [OF m] u by (auto simp: prog1_def)
  from prog1_inv [OF assms r] obtain q w ops where e: "r = Inr (q, w, ops)" by blast
  with r u receive_next [OF _ m, of "\<lambda>_. after_recv_1"] show "\<exists>q w. prog1 (mq_st s) (user1 s) = Some (Inr (q, w, [Got () m]))"
    by (fastforce simp: prog1_def)
next
  assume m: "mqueue (mq_st s) = [m]" and u: "mpc (user2 s) = MReceive"
  obtain r where r: "prog2 (mq_st s) (user2 s) = Some r" using receive_moves [OF m] u by (auto simp: prog2_def)
  from prog2_inv [OF assms r] obtain q w ops where e: "r = Inr (q, w, ops)" by blast
  with r u receive_next [OF _ m, of after_recv_2] show "\<exists>q w. prog2 (mq_st s) (user2 s) = Some (Inr (q, w, [Got () m]))"
    by (fastforce simp: prog2_def)
qed

text \<open>A run under a schedule, with its trace.\<close>

fun mq_trace :: "mq_side list \<Rightarrow> mq_sys \<Rightarrow> (mq_sys \<times> (unit, mq_msg) mail_op list) option" where
  "mq_trace [] s = Some (s, [])"
| "mq_trace (who # ws) s =
     (case mq_move who s of Some (Inr (t, ops)) \<Rightarrow> map_option (\<lambda>(u, tr). (u, ops @ tr)) (mq_trace ws t) | _ \<Rightarrow> None)"

lemma mq_trace_reach:
  "mq_trace ws s = Some (t, tr') \<Longrightarrow> mq_reach s0 tr (Some s) \<Longrightarrow> mq_reach s0 (tr @ tr') (Some t)"
proof (induction ws arbitrary: s tr tr')
  case (Cons who ws)
  then obtain u ops v where u: "mq_move who s = Some (Inr (u, ops))" "mq_trace ws u = Some (t, v)" "tr' = ops @ v"
    by (auto split: option.splits sum.splits prod.splits)
  from Cons.IH [OF u(2) mq_moved [OF Cons.prems(2) u(1)]] u(3) show ?case by simp
qed simp

lemma sample_user_ok: "buf_ok (mbuf (sample_user s))" "length (mbuf (sample_user s)) = MQ_MSGSIZE"
  by (simp_all add: sample_user_def buf_ok_def MQ_MSGSIZE_def)

section \<open>Properties\<close>



text \<open>
  The first program can read its own message: if it makes its first two calls before the
  second program makes any, it shows the line its own user has typed as a line of User2, and the
  second program never sees it.
\<close>

theorem mq_own_message:
  assumes "stdin (mio u) = l @ NL # r" and "NL \<notin> set l" and "NUL \<notin> set l" and "length l < 1022"
    and "length (mbuf u) = MQ_MSGSIZE"
  shows "\<exists>s0 tr s. mq_start [] u v = Inr s0 \<and> mq_reach s0 tr (Some s)
    \<and> stdout (mio (user1 s)) = stdout (mio u) @ ''User1: '' @ ''User2: '' @ l @ [NL] @ ''User1: ''
    \<and> mqueue (mq_st s) = [] \<and> user2 s = v\<lparr>mpc := MOpen\<rparr>"
proof -
  let ?t = "l @ [NL]" and ?w = "printf ''User1: '' (mio u)"
  let ?b = "l @ NL # NUL # drop (Suc (Suc (length l))) (mbuf u)"
  let ?q = "\<lparr>mqueue = [(1, ?t)], linked = True\<rparr>" and ?v = "v\<lparr>mpc := MOpen\<rparr>"
  have f: "fgets (mbuf u) MQ_MSGSIZE ?w = Inr (True, ?b, ?w\<lparr>stdin := r\<rparr>)"
    using assms by (intro fgets_newline) (simp_all add: printf_def MQ_MSGSIZE_def)
  have b: "buf_ok ?b" "msg_ok (1, ?t)" "cstr ?b = Inr ?t"
    using assms takeWhile_until [of NUL ?t] by (auto simp: buf_ok_def MQ_MSGSIZE_def msg_ok_def cstr_def)
  let ?u = "\<lparr>mpc = MReceive, mbuf = ?b, mio = ?w\<lparr>stdin := r\<rparr>\<rparr>"
  let ?s0 = "\<lparr>mq_st = \<lparr>mqueue = [], linked = True\<rparr>, user1 = ?u\<lparr>mpc := MSend\<rparr>, user2 = ?v\<rparr>"
  have start: "mq_start [] u v = Inr ?s0" using f by (simp add: mq_start_def)
  have "mq_move User1 ?s0 = Some (Inr (\<lparr>mq_st = ?q, user1 = ?u, user2 = ?v\<rparr>, [Sent (1, ?t)]))"
    using b(3) by (simp add: mq_move_def prog1_def send_buffer_def mq_put_empty)
  from mq_moved [OF mq_begin this] have r1: "mq_reach ?s0 [Sent (1, ?t)] (Some \<lparr>mq_st = ?q, user1 = ?u, user2 = ?v\<rparr>)" by simp
  have "length ?b = MQ_MSGSIZE" using b(1) unfolding buf_ok_def by blast
  from put_msg [OF b(2) this] obtain b2 where b2: "put_str ?b ?t = Inr b2" "buf_ok b2" "cstr b2 = Inr ?t" by blast
  let ?w2 = "printf ''User1: '' (printf (''User2: '' @ ?t) (?w\<lparr>stdin := r\<rparr>))"
  from fgets_buf [OF b2(2), of ?w2] obtain x b3 w3 where g: "fgets b2 MQ_MSGSIZE ?w2 = Inr (x, b3, w3)" by blast
  have "NL \<notin> set ''/exit''" by (simp add: NL_def)
  then have "?t \<noteq> ''/exit''" by (metis in_set_conv_decomp)
  with g b2(3) have "after_recv_1 (?u\<lparr>mbuf := b2\<rparr>) = Inr \<lparr>mpc = MSend, mbuf = b3, mio = w3\<rparr>"
    by (simp add: after_recv_1_def)
  then have "mq_move User1 \<lparr>mq_st = ?q, user1 = ?u, user2 = ?v\<rparr> =
      Some (Inr (\<lparr>mq_st = \<lparr>mqueue = [], linked = True\<rparr>, user1 = \<lparr>mpc = MSend, mbuf = b3, mio = w3\<rparr>, user2 = ?v\<rparr>, [Got () (1, ?t)]))"
    using b2(1) by (simp add: mq_move_def prog1_def receive_def mq_receive_def)
  from mq_moved [OF r1 this] have
    "\<exists>tr. mq_reach ?s0 tr (Some \<lparr>mq_st = \<lparr>mqueue = [], linked = True\<rparr>, user1 = \<lparr>mpc = MSend, mbuf = b3, mio = w3\<rparr>, user2 = ?v\<rparr>)"
    by blast
  moreover have "stdout w3 = stdout (mio u) @ ''User1: '' @ ''User2: '' @ ?t @ ''User1: ''"
    using fgets_stdout [OF g] by (simp add: printf_def)
  ultimately show ?thesis using start by force
qed

theorem mq_own_message_witness:
  "\<exists>s0 tr s. mq_start [] (sample_user (''hi'' @ NL # [])) (sample_user []) = Inr s0 \<and> mq_reach s0 tr (Some s)
    \<and> stdout (mio (user1 s)) = ''User1: '' @ ''User2: '' @ ''hi'' @ [NL] @ ''User1: ''"
proof -
  have "NL \<notin> set ''hi''" "NUL \<notin> set ''hi''" by (simp_all add: NL_def NUL_def)
  with mq_own_message [of "sample_user (''hi'' @ NL # [])" "''hi''" "[]" "sample_user []"] sample_user_ok(2)
  show ?thesis by (auto simp: sample_user_def console_def)
qed

end
