(* ===== verification/Semaphores.thy ===== *)
theory Semaphores
  imports C_Stdio
begin

text \<open>
  The programs of Module 3, Tasks 8 to 11: a parent that appends the numbers it reads from a
  pipe to \<open>number.txt\<close>, children that read the file and write random numbers into the pipe, and
  semaphores that should keep them apart (System V semaphores in Tasks 8 and 9, POSIX
  semaphores in Tasks 10 and 11). Each process is the list of the calls its loop makes;
  the kernel executes one call of one process at a time. Process 0 is the parent, the only
  reader of the pipe. Proved here: a text criterion for mutual exclusion, met by Tasks 9,
  10 and 11; Task 8 never writes its file because the child never signals; the writers of
  Tasks 9 and 10 can stop the whole program by waiting for the pipe inside the lock.
\<close>

section \<open>Processes\<close>

text \<open>
  \<open>SemOp\<close> is one \<open>semop\<close> (all its operations or none), \<open>SemIf v ops\<close> does it if the local
  counter is \<open>v\<close>, \<open>WaitZero k\<close> polls \<open>GETVAL\<close> of semaphore \<open>k\<close> until it is 0. \<open>Fopen f\<close> and
  \<open>WritePipe f\<close> go on with \<open>f\<close> when the file cannot be opened or nobody reads the pipe any
  more; what \<open>SEM_UNDO\<close> gives back at exit is written out in \<open>f\<close>.
\<close>

datatype instr =
    SemOp "(nat \<times> int) list"
  | SemIf int "(nat \<times> int) list"
  | WaitZero nat
  | Fopen "instr list"
  | PrintFile
  | AppendFile
  | WritePipe "instr list"
  | ReadPipe
  | Incr
  | Decr
  | Sleep
  | Exit

record process =
  body :: "instr list"
  code :: "instr list"
  dead :: bool
  cnt :: int
  reg :: int

record kernel =
  sems :: "nat \<Rightarrow> int"
  pipe :: "int list"
  contents :: "int list"
  ps :: "process list"

fun sem_apply :: "(nat \<times> int) list \<Rightarrow> (nat \<Rightarrow> int) \<Rightarrow> (nat \<Rightarrow> int) option" where
  "sem_apply [] v = Some v"
| "sem_apply ((k, d) # ops) v = (if v k + d < 0 then None else sem_apply ops (v(k := v k + d)))"

definition goto :: "nat \<Rightarrow> instr list \<Rightarrow> kernel \<Rightarrow> kernel" where
  "goto i c s = s\<lparr>ps := (ps s)[i := (ps s ! i)\<lparr>code := c\<rparr>]\<rparr>"

definition at_code :: "nat \<Rightarrow> instr list \<Rightarrow> kernel \<Rightarrow> bool" where
  "at_code i c s = (i < length (ps s) \<and> \<not> dead (ps s ! i) \<and> code (ps s ! i) = c)"

inductive kstep :: "nat \<Rightarrow> kernel \<Rightarrow> kernel \<Rightarrow> bool" for cap where
  again: "at_code i [] s \<Longrightarrow> kstep cap s (goto i (body (ps s ! i)) s)"
| semop: "at_code i (SemOp ops # r) s \<Longrightarrow> sem_apply ops (sems s) = Some v \<Longrightarrow>
    kstep cap s (goto i r (s\<lparr>sems := v\<rparr>))"
| semif: "at_code i (SemIf x ops # r) s \<Longrightarrow> sem_apply (if cnt (ps s ! i) = x then ops else []) (sems s) = Some v \<Longrightarrow>
    kstep cap s (goto i r (s\<lparr>sems := v\<rparr>))"
| waitzero: "at_code i (WaitZero k # r) s \<Longrightarrow> sems s k = 0 \<Longrightarrow> kstep cap s (goto i r s)"
| fopen: "at_code i (Fopen f # r) s \<Longrightarrow> c \<in> {f, r} \<Longrightarrow> kstep cap s (goto i c s)"
| printfile: "at_code i (PrintFile # r) s \<Longrightarrow> kstep cap s (goto i r s)"
| appendfile: "at_code i (AppendFile # r) s \<Longrightarrow>
    kstep cap s (goto i r (s\<lparr>contents := contents s @ [reg (ps s ! i)]\<rparr>))"
| writepipe: "at_code i (WritePipe f # r) s \<Longrightarrow> length (pipe s) < cap \<Longrightarrow> 0 \<le> x \<Longrightarrow> x < 100 \<Longrightarrow>
    kstep cap s (goto i r (s\<lparr>pipe := pipe s @ [x]\<rparr>))"
| sigpipe: "at_code i (WritePipe f # r) s \<Longrightarrow> dead (ps s ! 0) \<Longrightarrow> kstep cap s (goto i f s)"
| readpipe: "at_code i (ReadPipe # r) s \<Longrightarrow> pipe s = x # xs \<Longrightarrow>
    kstep cap s (goto i r (s\<lparr>pipe := xs, ps := (ps s)[i := (ps s ! i)\<lparr>reg := x\<rparr>]\<rparr>))"
| readend: "at_code i (ReadPipe # r) s \<Longrightarrow> pipe s = [] \<Longrightarrow> \<forall>j < length (ps s). j \<noteq> 0 \<longrightarrow> dead (ps s ! j) \<Longrightarrow>
    kstep cap s (goto i r s)"
| incr: "at_code i (Incr # r) s \<Longrightarrow>
    kstep cap s (goto i r (s\<lparr>ps := (ps s)[i := (ps s ! i)\<lparr>cnt := cnt (ps s ! i) + 1\<rparr>]\<rparr>))"
| decr: "at_code i (Decr # r) s \<Longrightarrow>
    kstep cap s (goto i r (s\<lparr>ps := (ps s)[i := (ps s ! i)\<lparr>cnt := cnt (ps s ! i) - 1\<rparr>]\<rparr>))"
| sleep: "at_code i (Sleep # r) s \<Longrightarrow> kstep cap s (goto i r s)"
| exit: "at_code i (Exit # r) s \<Longrightarrow> kstep cap s (s\<lparr>ps := (ps s)[i := (ps s ! i)\<lparr>dead := True\<rparr>]\<rparr>)"

definition kreach :: "nat \<Rightarrow> kernel \<Rightarrow> kernel \<Rightarrow> bool" where
  "kreach cap = (kstep cap)\<^sup>*\<^sup>*"

definition start :: "instr list \<Rightarrow> process" where
  "start b = \<lparr>body = b, code = b, dead = False, cnt = 0, reg = 0\<rparr>"

definition boot :: "(nat \<Rightarrow> int) \<Rightarrow> instr list list \<Rightarrow> int list \<Rightarrow> kernel" where
  "boot v bs numbers = \<lparr>sems = v, pipe = [], contents = numbers, ps = map start bs\<rparr>"

section \<open>Task 8\<close>

definition semWait :: instr where "semWait = SemOp [(0, -1)]"
definition semSignal :: instr where "semSignal = SemOp [(0, 1)]"

definition child_8 :: "instr list" where
  "child_8 = [semWait, Fopen [Exit], PrintFile, WritePipe [Exit], Sleep]"

definition parent_8 :: "instr list" where
  "parent_8 = [semWait, ReadPipe, Fopen [Exit], AppendFile, semSignal, Sleep]"

definition task_8 :: "int list \<Rightarrow> kernel" where
  "task_8 numbers = boot ((\<lambda>_. 0)(0 := 1)) [parent_8, child_8] numbers"

section \<open>Task 9\<close>

definition MAX_READERS :: nat where "MAX_READERS = 5"

definition initSemaphores :: "nat \<Rightarrow> int" where
  "initSemaphores = (\<lambda>_. 0)(0 := 1, 1 := 0)"

definition startRead :: "instr list" where "startRead = [SemOp [(0, -1), (1, 1)]]"
definition endRead :: "instr list" where "endRead = [SemOp [(1, -1), (0, 1)]]"
definition startWrite :: "instr list" where "startWrite = [SemOp [(0, -1)], WaitZero 1]"
definition endWrite :: "instr list" where "endWrite = [SemOp [(0, 1)]]"

text \<open>\<open>exit\<close> inside the section: \<open>SEM_UNDO\<close> takes back what \<open>startRead\<close> or \<open>startWrite\<close> did.\<close>

definition undo_read :: "instr list" where "undo_read = [SemOp [(0, 1), (1, -1)], Exit]"
definition undo_write :: "instr list" where "undo_write = [SemOp [(0, 1)], Exit]"

definition reader_9 :: "instr list" where
  "reader_9 = startRead @ [Fopen undo_read, PrintFile, WritePipe undo_read] @ endRead @ [Sleep]"

definition writer_9 :: "instr list" where
  "writer_9 = startWrite @ [ReadPipe, Fopen undo_write, AppendFile] @ endWrite @ [Sleep]"

definition task_9 :: "int list \<Rightarrow> kernel" where
  "task_9 numbers = boot initSemaphores (writer_9 # replicate MAX_READERS reader_9) numbers"

section \<open>Task 10\<close>

definition sem_wait :: "nat \<Rightarrow> instr" where "sem_wait k = SemOp [(k, -1)]"
definition sem_post :: "nat \<Rightarrow> instr" where "sem_post k = SemOp [(k, 1)]"

definition child_10 :: "instr list" where
  "child_10 = [sem_wait 0, Fopen [sem_post 0, Exit], PrintFile, WritePipe [Exit], sem_post 0, Sleep]"

definition parent_10 :: "instr list" where
  "parent_10 = [sem_wait 0, ReadPipe, Fopen [sem_post 0, Exit], AppendFile, sem_post 0, Sleep]"

definition task_10 :: "int list \<Rightarrow> kernel" where
  "task_10 numbers = boot ((\<lambda>_. 0)(0 := 1)) [parent_10, child_10] numbers"

section \<open>Task 11\<close>

text \<open>Semaphore 0 is \<open>resource_mutex\<close>, semaphore 1 is \<open>readers_mutex\<close>.\<close>

definition leave_11 :: "instr list" where
  "leave_11 = [sem_wait 1, Decr, SemIf 0 [(0, 1)], sem_post 1]"

definition child_11 :: "instr list" where
  "child_11 = [sem_wait 1, Incr, SemIf 1 [(0, -1)], sem_post 1, Fopen (leave_11 @ [Exit]), PrintFile,
     WritePipe [Exit]] @ leave_11 @ [Sleep]"

definition parent_11 :: "instr list" where
  "parent_11 = [ReadPipe, sem_wait 0, Fopen [sem_post 0, Exit], AppendFile, sem_post 0, Sleep]"

definition task_11 :: "int list \<Rightarrow> kernel" where
  "task_11 numbers = boot ((\<lambda>_. 0)(0 := 1, 1 := 1)) [parent_11, child_11] numbers"

section \<open>A criterion for mutual exclusion\<close>

text \<open>
  \<open>bal c code\<close>: what the code still gives back to semaphore 0, that is 1 while the process
  holds it; \<open>c\<close> is the value of the local counter. \<open>guarded c code\<close>: from here on the code
  uses the file only while it holds the semaphore, never holds it twice, and every way on
  gives it back.
\<close>

fun op_sum :: "(nat \<times> int) list \<Rightarrow> int" where
  "op_sum [] = 0"
| "op_sum ((k, d) # ops) = (if k = 0 then d else 0) + op_sum ops"

fun bal :: "int \<Rightarrow> instr list \<Rightarrow> int" where
  "bal c [] = 0"
| "bal c (SemOp ops # r) = op_sum ops + bal c r"
| "bal c (SemIf x ops # r) = (if c = x then op_sum ops else 0) + bal c r"
| "bal c (Incr # r) = bal (c + 1) r"
| "bal c (Decr # r) = bal (c - 1) r"
| "bal c (Exit # r) = 0"
| "bal c (i # r) = bal c r"

fun guarded :: "int \<Rightarrow> instr list \<Rightarrow> bool" where
  "guarded c [] = (c = 0)"
| "guarded c (Incr # r) = (0 \<le> bal (c + 1) r \<and> guarded (c + 1) r)"
| "guarded c (Decr # r) = (0 \<le> bal (c - 1) r \<and> guarded (c - 1) r)"
| "guarded c (Fopen f # r) = (guarded c f \<and> guarded c r \<and> 0 \<le> bal c f \<and> 0 \<le> bal c r \<and> bal c f \<le> bal c r)"
| "guarded c (WritePipe f # r) = (guarded c f \<and> guarded c r \<and> 0 \<le> bal c f \<and> 0 \<le> bal c r \<and> bal c f \<le> bal c r)"
| "guarded c (PrintFile # r) = (bal c r = 1 \<and> guarded c r)"
| "guarded c (AppendFile # r) = (bal c r = 1 \<and> guarded c r)"
| "guarded c (Exit # r) = True"
| "guarded c (i # r) = (0 \<le> bal c (i # r) \<and> 0 \<le> bal c r \<and> guarded c r)"

definition weight :: "process \<Rightarrow> int" where
  "weight p = (if dead p then 0 else bal (cnt p) (code p))"

definition safe_proc :: "process \<Rightarrow> bool" where
  "safe_proc p = (guarded 0 (body p) \<and> bal 0 (body p) = 0
     \<and> (dead p \<or> guarded (cnt p) (code p) \<and> 0 \<le> bal (cnt p) (code p)))"

definition lock_inv :: "kernel \<Rightarrow> bool" where
  "lock_inv s = (0 \<le> sems s 0 \<and> sems s 0 + sum_list (map weight (ps s)) \<le> 1 \<and> (\<forall>p \<in> set (ps s). safe_proc p))"

text \<open>A process that is about to use the file.\<close>

definition uses_file :: "process \<Rightarrow> bool" where
  "uses_file p = (\<not> dead p \<and> (case code p of PrintFile # _ \<Rightarrow> True | AppendFile # _ \<Rightarrow> True | _ \<Rightarrow> False))"

text \<open>
  A process that can do nothing: it waits for semaphore 0, which is 0, or for a pipe that
  is empty while a writer is alive.
\<close>

definition waits :: "kernel \<Rightarrow> process \<Rightarrow> bool" where
  "waits s p = (case code p of
       SemOp ops # _ \<Rightarrow> ops \<noteq> [] \<and> fst (hd ops) = 0 \<and> sems s 0 + snd (hd ops) < 0
     | ReadPipe # _ \<Rightarrow> pipe s = [] \<and> (\<exists>j. 0 < j \<and> j < length (ps s) \<and> \<not> dead (ps s ! j))
     | _ \<Rightarrow> False)"

text \<open>The states of Task 8: nobody holds the semaphore, the parent does, or the child took it.\<close>

definition codes_8 :: "instr set" where
  "codes_8 = {semWait, Fopen [Exit], PrintFile, WritePipe [Exit], Sleep, Exit}"

definition inv_8 :: "int list \<Rightarrow> kernel \<Rightarrow> bool" where
  "inv_8 numbers s = (contents s = numbers \<and> (\<exists>p c. ps s = [p, c] \<and> body p = parent_8 \<and> body c = child_8 \<and> \<not> dead p
     \<and> (sems s 0 = 1 \<and> pipe s = [] \<and> \<not> dead c \<and> code p \<in> {[], parent_8} \<and> code c \<in> {[], child_8}
        \<or> sems s 0 = 0 \<and> pipe s = [] \<and> \<not> dead c \<and> code p = tl parent_8 \<and> code c \<in> {[], child_8}
        \<or> sems s 0 = 0 \<and> code p \<in> {[], parent_8}
            \<and> set (code c) \<subseteq> codes_8)))"

section \<open>Lemmas\<close>

lemma sem_apply_0:
  "sem_apply ops v = Some v' \<Longrightarrow> v' 0 = v 0 + op_sum ops \<and> (0 \<le> v 0 \<longrightarrow> 0 \<le> v' 0)"
  by (induction ops v rule: sem_apply.induct) (auto split: if_splits)

lemma sum_list_upd:
  fixes xs :: "int list"
  shows "i < length xs \<Longrightarrow> sum_list (xs[i := x]) = sum_list xs + x - xs ! i"
proof (induction xs arbitrary: i)
  case Nil
  then show ?case by simp
next
  case (Cons y ys)
  then show ?case by (cases i) auto
qed

lemma sum_weight_update:
  "i < length xs \<Longrightarrow> sum_list (map weight (xs[i := p])) = sum_list (map weight xs) + weight p - weight (xs ! i)"
  by (simp add: map_update sum_list_upd)

text \<open>One process moves: the semaphore and its weight together must not grow.\<close>

lemma lock_inv_move:
  assumes "lock_inv s" and "i < length (ps s)" and "ps s' = (ps s)[i := p']" and "safe_proc p'"
    and "0 \<le> sems s' 0" and "sems s' 0 + weight p' \<le> sems s 0 + weight (ps s ! i)"
  shows "lock_inv s'"
proof -
  have "\<forall>p \<in> set (ps s'). safe_proc p"
    using assms(1,3,4) set_update_subset_insert [of "ps s" i p'] by (auto simp: lock_inv_def)
  moreover have "sum_list (map weight (ps s')) = sum_list (map weight (ps s)) + weight p' - weight (ps s ! i)"
    unfolding assms(3) by (rule sum_weight_update [OF assms(2)])
  ultimately show ?thesis using assms(1,5,6) by (auto simp: lock_inv_def)
qed

lemma goto_ps: "i < length (ps s) \<Longrightarrow> ps (goto i c s) = (ps s)[i := (ps s ! i)\<lparr>code := c\<rparr>]"
  by (simp add: goto_def)

lemma goto_sems [simp]: "sems (goto i c s) = sems s" "pipe (goto i c s) = pipe s" "contents (goto i c s) = contents s"
  by (simp_all add: goto_def)

text \<open>A process at some code, in the shape the steps need it.\<close>

lemma at_codeD:
  assumes "at_code i c s" and "lock_inv s"
  shows "i < length (ps s)" "\<not> dead (ps s ! i)" "code (ps s ! i) = c"
    "guarded 0 (body (ps s ! i))" "bal 0 (body (ps s ! i)) = 0"
    "guarded (cnt (ps s ! i)) c" "0 \<le> bal (cnt (ps s ! i)) c" "weight (ps s ! i) = bal (cnt (ps s ! i)) c"
    "0 \<le> sems s 0"
  using assms by (auto simp: at_code_def lock_inv_def safe_proc_def weight_def)

text \<open>A process goes on with other code and touches no semaphore.\<close>

lemma lock_inv_goto:
  assumes "lock_inv s" and "at_code i c s" and "sems s' = sems s"
    and "ps s' = (ps s)[i := (ps s ! i)\<lparr>code := r\<rparr>]"
    and "guarded (cnt (ps s ! i)) c \<Longrightarrow> guarded (cnt (ps s ! i)) r \<and> 0 \<le> bal (cnt (ps s ! i)) r
      \<and> bal (cnt (ps s ! i)) r \<le> bal (cnt (ps s ! i)) c"
  shows "lock_inv s'"
  by (rule lock_inv_move [OF assms(1) _ assms(4)])
    (use assms at_codeD [OF assms(2,1)] in \<open>auto simp: safe_proc_def weight_def\<close>)

lemma step_lock_inv: "kstep cap s s' \<Longrightarrow> lock_inv s \<Longrightarrow> lock_inv s'"
proof (induction rule: kstep.induct)
  case (semop i ops r s v)
  note a = at_codeD [OF semop(1,3)]
  show ?case
    by (rule lock_inv_move [OF semop(3) a(1), of _ "(ps s ! i)\<lparr>code := r\<rparr>"])
      (use a sem_apply_0 [OF semop(2)] in \<open>auto simp: goto_def safe_proc_def weight_def\<close>)
next
  case (semif i x ops r s v)
  note a = at_codeD [OF semif(1,3)]
  show ?case
    by (rule lock_inv_move [OF semif(3) a(1), of _ "(ps s ! i)\<lparr>code := r\<rparr>"])
      (use a sem_apply_0 [OF semif(2)] in \<open>auto simp: goto_def safe_proc_def weight_def split: if_splits\<close>)
next
  case (incr i r s)
  note a = at_codeD [OF incr]
  show ?case
    by (rule lock_inv_move [OF incr(2) a(1), of _ "(ps s ! i)\<lparr>cnt := cnt (ps s ! i) + 1, code := r\<rparr>"])
      (use a in \<open>auto simp: goto_def safe_proc_def weight_def\<close>)
next
  case (decr i r s)
  note a = at_codeD [OF decr]
  show ?case
    by (rule lock_inv_move [OF decr(2) a(1), of _ "(ps s ! i)\<lparr>cnt := cnt (ps s ! i) - 1, code := r\<rparr>"])
      (use a in \<open>auto simp: goto_def safe_proc_def weight_def\<close>)
next
  case (readpipe i r s x xs)
  note a = at_codeD [OF readpipe(1,3)]
  show ?case
    by (rule lock_inv_move [OF readpipe(3) a(1), of _ "(ps s ! i)\<lparr>reg := x, code := r\<rparr>"])
      (use a in \<open>auto simp: goto_def safe_proc_def weight_def\<close>)
next
  case (exit i r s)
  note a = at_codeD [OF exit]
  show ?case
    by (rule lock_inv_move [OF exit(2) a(1), of _ "(ps s ! i)\<lparr>dead := True\<rparr>"])
      (use a in \<open>auto simp: safe_proc_def weight_def\<close>)
next
  case (again i s)
  show ?case
    by (rule lock_inv_goto [OF again(2,1)])
      (use at_codeD [OF again(1,2)] in \<open>auto simp: goto_def\<close>)
qed (rule lock_inv_goto, assumption, assumption, auto simp: goto_def)+

lemma reach_lock_inv: "kreach cap s s' \<Longrightarrow> lock_inv s \<Longrightarrow> lock_inv s'"
  unfolding kreach_def by (induction rule: rtranclp_induct) (auto dest: step_lock_inv)

lemma two_members:
  fixes xs :: "int list"
  assumes "\<forall>x \<in> set xs. 0 \<le> x" and "i < length xs" and "j < length xs" and "i \<noteq> j"
  shows "xs ! i + xs ! j \<le> sum_list xs"
proof -
  have "set (xs[i := 0, j := 0]) \<subseteq> insert 0 (insert 0 (set xs))"
    by (meson insert_mono order_trans set_update_subset_insert)
  then have "\<forall>x \<in> set (xs[i := 0, j := 0]). 0 \<le> x" using assms(1) by auto
  then have "0 \<le> sum_list (xs[i := 0, j := 0])" by (intro sum_list_nonneg) blast
  with assms(2-4) show ?thesis by (simp add: sum_list_upd)
qed

text \<open>With the invariant no two processes use the file.\<close>

lemma lock_inv_exclusive:
  assumes "lock_inv s" and "i < length (ps s)" and "j < length (ps s)"
    and "uses_file (ps s ! i)" and "uses_file (ps s ! j)"
  shows "i = j"
proof (rule ccontr)
  assume "i \<noteq> j"
  have w: "0 \<le> weight p" "uses_file p \<Longrightarrow> weight p = 1" if "p \<in> set (ps s)" for p
    using assms(1) that
    by (auto simp: lock_inv_def safe_proc_def weight_def uses_file_def split: list.splits instr.splits)
  have "map weight (ps s) ! i + map weight (ps s) ! j \<le> sum_list (map weight (ps s))"
    using \<open>i \<noteq> j\<close> assms(2,3) w by (intro two_members) auto
  moreover have "map weight (ps s) ! i = 1" "map weight (ps s) ! j = 1"
    using assms(2-5) w by auto
  ultimately show False using assms(1) by (simp add: lock_inv_def)
qed

section \<open>The interface\<close>

text \<open>A program whose processes all meet the criterion.\<close>

locale locked_program =
  fixes v :: "nat \<Rightarrow> int"
    and bodies :: "instr list list"
  assumes one: "0 \<le> v 0" "v 0 \<le> 1"
    and bodies_ok: "b \<in> set bodies \<Longrightarrow> guarded 0 b \<and> bal 0 b = 0"
begin

lemma boot_inv: "lock_inv (boot v bodies numbers)"
proof -
  have "map weight (map start bodies) = map (\<lambda>_. 0) bodies"
    using bodies_ok by (auto simp: weight_def start_def)
  then have "sum_list (map weight (map start bodies)) = 0" by (simp only: sum_list_0)
  then show ?thesis
    using bodies_ok by (auto simp: lock_inv_def boot_def safe_proc_def start_def one o_def)
qed

lemma exclusive:
  assumes "kreach cap (boot v bodies numbers) s" and "i < length (ps s)" and "j < length (ps s)"
    and "uses_file (ps s ! i)" and "uses_file (ps s ! j)"
  shows "i = j"
  using reach_lock_inv [OF assms(1) boot_inv] assms(2-) by (rule lock_inv_exclusive)

end

lemmas program_defs = semWait_def semSignal_def sem_wait_def sem_post_def
  startRead_def endRead_def startWrite_def endWrite_def undo_read_def undo_write_def
  parent_8_def child_8_def writer_9_def reader_9_def parent_10_def child_10_def
  leave_11_def parent_11_def child_11_def

interpretation prog_9: locked_program initSemaphores "writer_9 # replicate MAX_READERS reader_9"
  by unfold_locales (auto simp: initSemaphores_def program_defs)

interpretation prog_10: locked_program "(\<lambda>_. 0)(0 := 1)" "[parent_10, child_10]"
  by unfold_locales (auto simp: program_defs)

interpretation prog_11: locked_program "(\<lambda>_. 0)(0 := 1, 1 := 1)" "[parent_11, child_11]"
  by unfold_locales (auto simp: program_defs)

subsection \<open>Deadlocks\<close>

lemma waits_code:
  assumes "\<forall>p \<in> set (ps s). waits s p" and "at_code i c s"
  shows "(\<exists>d ops r. c = SemOp ((0, d) # ops) # r \<and> sems s 0 + d < 0)
    \<or> (\<exists>r. c = ReadPipe # r \<and> pipe s = [] \<and> (\<exists>j. 0 < j \<and> j < length (ps s) \<and> \<not> dead (ps s ! j)))"
proof -
  have "waits s (ps s ! i)" "code (ps s ! i) = c" using assms by (auto simp: at_code_def)
  then show ?thesis
    by (auto simp: waits_def neq_Nil_conv split: list.splits instr.splits)
qed

lemma all_wait_stuck:
  assumes "\<forall>p \<in> set (ps s). waits s p"
  shows "\<not> kstep cap s s'"
proof
  assume "kstep cap s s'"
  then show False by cases (auto dest!: waits_code [OF assms])
qed

lemma kreach_step: "kreach cap s t \<Longrightarrow> kstep cap t u \<Longrightarrow> kreach cap s u"
  unfolding kreach_def by (rule rtranclp.rtrancl_into_rtrancl)

lemma kreach_refl: "kreach cap s s"
  unfolding kreach_def by simp

subsection \<open>Task 8\<close>

lemma at_code_two:
  "ps s = [p, c] \<Longrightarrow> at_code i k s \<longleftrightarrow> i = 0 \<and> \<not> dead p \<and> code p = k \<or> i = 1 \<and> \<not> dead c \<and> code c = k"
  by (auto simp: at_code_def less_Suc_eq)

text \<open>Once the child has taken the semaphore, the parent waits for ever.\<close>

lemma child_took_8I:
  assumes "ps s = [p, c]" "body p = parent_8" "body c = child_8" "\<not> dead p" "contents s = numbers"
    and "sems s 0 = 0" "code p \<in> {[], parent_8}" "set (code c) \<subseteq> codes_8"
  shows "inv_8 numbers s"
  using assms unfolding inv_8_def by blast

lemma child_took_8:
  assumes "kstep cap s s'" and pc: "ps s = [p, c]" "body p = parent_8" "body c = child_8" "\<not> dead p"
    "contents s = numbers" and "sems s 0 = 0" "code p \<in> {[], parent_8}" "set (code c) \<subseteq> codes_8"
  shows "inv_8 numbers s'"
proof -
  have parent: "at_code 0 k s \<Longrightarrow> k = [] \<or> k = SemOp [(0, -1)] # tl parent_8" for k
    using assms(8) pc(1) by (auto simp: at_code_def parent_8_def semWait_def)
  have child: "at_code i (a # r) s \<Longrightarrow> a \<noteq> SemOp [(0, -1)] \<Longrightarrow>
      i = 1 \<and> a \<in> codes_8 \<and> set r \<subseteq> codes_8" for i a r
    using assms(9) parent [of "a # r"] by (auto simp: at_code_two [OF pc(1)])
  have move: "inv_8 numbers (goto 1 r t)" if "ps t = [p, c]" "contents t = numbers" "sems t 0 = 0" "set r \<subseteq> codes_8" for r t
    by (rule child_took_8I [of _ p "c\<lparr>code := r\<rparr>"]) (use that pc assms(8) in \<open>auto simp: goto_def\<close>)
  have blocked: "sem_apply ops (sems s) = None" if "at_code i (SemOp ops # r) s" for i ops r
    using that child [of i "SemOp ops" r] assms(7) by (cases "ops = [(0, -1)]") (auto simp: codes_8_def semWait_def)
  have in_8: "Exit \<in> codes_8" "set child_8 \<subseteq> codes_8" by (simp_all add: codes_8_def child_8_def)
  from assms(1) show ?thesis
  proof cases
    case (again i)
    have "i = 0 \<or> i = 1" using again(2) unfolding at_code_two [OF pc(1)] by auto
    then consider "i = 0" | "i = 1" by blast
    then show ?thesis
    proof cases
      case 1
      show ?thesis
        by (rule child_took_8I [of _ "p\<lparr>code := parent_8\<rparr>" c]) (use 1 again pc assms in \<open>auto simp: goto_def\<close>)
    next
      case 2
      with again move [of s child_8] pc assms(7) in_8 show ?thesis by simp
    qed
  next
    case (semop i ops r v)
    with blocked show ?thesis by fastforce
  next
    case (fopen i f r c')
    with child [of i "Fopen f" r] have "i = 1" "set c' \<subseteq> codes_8" using in_8 by (auto simp: codes_8_def semWait_def)
    with fopen move [of s c'] pc assms(7) show ?thesis by simp
  next
    case (writepipe i f r x)
    with child [of i "WritePipe f" r] move [of "s\<lparr>pipe := pipe s @ [x]\<rparr>" r] pc assms(7) show ?thesis by simp
  next
    case (sigpipe i f r)
    with pc(1,4) show ?thesis by simp
  next
    case (exit i r)
    then have "i = 1" using child [of i Exit r] by simp
    show ?thesis
      by (rule child_took_8I [of _ p "c\<lparr>dead := True\<rparr>"])
        (use \<open>i = 1\<close> exit pc assms in auto)
  next
    case (printfile i r)
    with child [of i PrintFile r] move [of s r] pc assms(7) show ?thesis by simp
  next
    case (sleep i r)
    with child [of i Sleep r] move [of s r] pc assms(7) show ?thesis by simp
  qed (auto dest!: child simp: codes_8_def semWait_def)
qed

lemma step_inv_8:
  assumes "kstep cap s s'" and "inv_8 numbers s"
  shows "inv_8 numbers s'"
proof -
  from assms(2) obtain p c where pc: "ps s = [p, c]" "body p = parent_8" "body c = child_8" "\<not> dead p"
    "contents s = numbers" by (auto simp: inv_8_def)
  consider
      "sems s 0 = 1" "pipe s = []" "\<not> dead c" "code p \<in> {[], parent_8}" "code c \<in> {[], child_8}"
    | "sems s 0 = 0" "pipe s = []" "\<not> dead c" "code p = tl parent_8" "code c \<in> {[], child_8}"
    | "sems s 0 = 0" "code p \<in> {[], parent_8}" "set (code c) \<subseteq> codes_8"
    using assms(2) pc(1) by (auto simp: inv_8_def)
  then show ?thesis
  proof cases
    case 1
    from assms(1) 1 pc show ?thesis
      by cases (auto simp: at_code_two [OF pc(1)] inv_8_def goto_def parent_8_def child_8_def semWait_def codes_8_def
          split: if_splits)
  next
    case 2
    note shape = at_code_two [OF pc(1)] inv_8_def goto_def parent_8_def child_8_def semWait_def
    from assms(1) show ?thesis
    proof cases
      case (readend i r)
      then have "dead (ps s ! 1)" using pc(1) by (metis One_nat_def length_Cons lessI list.size(3) zero_neq_one)
      with 2 pc(1) show ?thesis by simp
    next
      case (again i)
      with 2 pc show ?thesis by (auto simp: shape)
    next
      case (semop i ops r v)
      with 2 pc have "i = 1" "ops = [(0, -1)]" by (auto simp: shape)
      with semop(3) 2(1) show ?thesis by simp
    qed (use 2 pc in \<open>auto simp: shape\<close>)
  next
    case 3
    from assms(1) pc 3 show ?thesis by (rule child_took_8)
  qed
qed

lemma reach_inv_8: "kreach cap s s' \<Longrightarrow> inv_8 numbers s \<Longrightarrow> inv_8 numbers s'"
  unfolding kreach_def by (induction rule: rtranclp_induct) (auto dest: step_inv_8)

lemma task_8_inv: "inv_8 numbers (task_8 numbers)"
  by (simp add: inv_8_def task_8_def boot_def start_def)

section \<open>Properties\<close>

text \<open>
  In Tasks 9, 10 and 11 no two processes ever use \<open>number.txt\<close> at the same time, however
  the processes interleave, and also when files cannot be opened or processes die. (So
  the five readers of Task 9 never read at the same time either.)
\<close>

theorem sem_mutual_exclusion:
  assumes "init \<in> {task_9 numbers, task_10 numbers, task_11 numbers}" and "kreach cap init s"
    and "i < length (ps s)" and "j < length (ps s)" and "uses_file (ps s ! i)" and "uses_file (ps s ! j)"
  shows "i = j"
  using assms prog_9.exclusive [of cap numbers s i j] prog_10.exclusive [of cap numbers s i j]
    prog_11.exclusive [of cap numbers s i j]
  by (auto simp: task_9_def task_10_def task_11_def)

theorem sem_mutual_exclusion_witness:
  "\<exists>s. kreach 1 (task_10 []) s \<and> uses_file (ps s ! 1) \<and> (\<forall>i < length (ps s). uses_file (ps s ! i) \<longrightarrow> i = 1)"
proof -
  let ?s = "goto 1 (drop 2 child_10) (goto 1 (drop 1 child_10) ((task_10 [])\<lparr>sems := (\<lambda>_. 0)\<rparr>))"
  have "kstep 1 (task_10 []) (goto 1 (drop 1 child_10) ((task_10 [])\<lparr>sems := (\<lambda>_. 0)\<rparr>))"
    by (rule semop [of _ "[(0, -1)]"]) (auto simp: at_code_def task_10_def boot_def start_def child_10_def sem_wait_def)
  moreover have "kstep 1 (goto 1 (drop 1 child_10) ((task_10 [])\<lparr>sems := (\<lambda>_. 0)\<rparr>)) ?s"
    by (rule fopen [of _ "[sem_post 0, Exit]" "drop 2 child_10"])
      (auto simp: at_code_def goto_def task_10_def boot_def start_def child_10_def)
  ultimately have r: "kreach 1 (task_10 []) ?s" using kreach_step [OF kreach_step [OF kreach_refl]] by blast
  have u: "uses_file (ps ?s ! 1)" "1 < length (ps ?s)"
    by (simp_all add: uses_file_def goto_def task_10_def boot_def start_def child_10_def)
  have "i = 1" if "i < length (ps ?s)" "uses_file (ps ?s ! i)" for i
    by (rule sem_mutual_exclusion [of "task_10 []" "[]" 1 ?s i 1]) (use r u that in auto)
  with r u show ?thesis by blast
qed

text \<open>
  The program of Task 8 never writes a number: the child waits on the semaphore in
  every round and never signals it, so whoever takes it first, the parent never gets past
  its wait or its read.
\<close>

theorem sem_task_8_never_writes:
  assumes "kreach cap (task_8 numbers) s"
  shows "contents s = numbers"
  using reach_inv_8 [OF assms task_8_inv] by (simp add: inv_8_def)

theorem sem_task_8_never_writes_witness: "contents (task_8 [1, 2]) = [1, 2]"
  using sem_task_8_never_writes [OF kreach_refl, of "[1, 2]"] .

text \<open>
  The program of Task 10 can stop for good: if the parent takes the semaphore before
  the child has written anything, it waits for the pipe while holding it, the child waits
  for the semaphore, and no process can move.
\<close>

theorem sem_task_10_deadlock:
  "\<exists>s. kreach cap (task_10 numbers) s \<and> \<not> list_ex dead (ps s) \<and> (\<forall>s'. \<not> kstep cap s s')"
proof -
  let ?s = "goto 0 (drop 1 parent_10) ((task_10 numbers)\<lparr>sems := (\<lambda>_. 0)\<rparr>)"
  have "kstep cap (task_10 numbers) ?s"
    by (rule semop [of _ "[(0, -1)]"]) (auto simp: at_code_def task_10_def boot_def start_def parent_10_def sem_wait_def)
  moreover have "\<forall>p \<in> set (ps ?s). waits ?s p"
    by (auto simp: waits_def goto_def task_10_def boot_def start_def program_defs intro: exI [of _ 1])
  moreover have "\<not> list_ex dead (ps ?s)"
    by (simp add: goto_def task_10_def boot_def start_def list_ex_iff)
  ultimately show ?thesis using kreach_step [OF kreach_refl] all_wait_stuck by blast
qed

text \<open>
  The program of Task 9 can stop for good in the same way: the writer waits for the
  pipe inside its lock while all readers wait for that lock.
\<close>

theorem sem_task_9_deadlock:
  "\<exists>s. kreach cap (task_9 numbers) s \<and> \<not> list_ex dead (ps s) \<and> (\<forall>s'. \<not> kstep cap s s')"
proof -
  let ?t = "goto 0 (drop 1 writer_9) ((task_9 numbers)\<lparr>sems := (\<lambda>_. 0)\<rparr>)"
  let ?s = "goto 0 (drop 2 writer_9) ?t"
  have "kstep cap (task_9 numbers) ?t"
    by (rule semop [of _ "[(0, -1)]"])
      (auto simp: at_code_def task_9_def boot_def start_def program_defs initSemaphores_def)
  moreover have "kstep cap ?t ?s"
    by (rule waitzero [of _ 1]) (auto simp: at_code_def goto_def task_9_def boot_def start_def program_defs)
  moreover have "\<forall>p \<in> set (ps ?s). waits ?s p"
    by (auto simp: waits_def goto_def task_9_def boot_def start_def program_defs MAX_READERS_def intro: exI [of _ 1])
  moreover have "\<not> list_ex dead (ps ?s)"
    by (auto simp: goto_def task_9_def boot_def start_def list_ex_iff)
  ultimately show ?thesis using kreach_step [OF kreach_step [OF kreach_refl]] all_wait_stuck by blast
qed

end
