(* ===== verification/Sem_Start.thy ===== *)
theory Sem_Start
  imports Semaphores
begin

text \<open>
  How the programs of Module 3, Tasks 8 to 11 get to the loops of \<open>Semaphores\<close>: the calls that
  create semaphores, pipe and processes, with their error exits. A semaphore outlives the
  program that made it: \<open>sem_open\<close> finds one an earlier run has left, with the value it
  had then, while Tasks 8 and 9 set the values again. An error exit ends with a status and
  leaves some semaphores behind; their names are kept.

  Proved here: two processes never use the file at the same time, however a start went; and a
  run of Task 10 that was killed while the semaphore was taken makes all later runs stop at once.
\<close>

section \<open>The starts\<close>

datatype started = Stopped int "string list" | Running kernel

definition start_8 :: "int \<Rightarrow> bool \<Rightarrow> bool \<Rightarrow> int \<Rightarrow> int list \<Rightarrow> started" where
  "start_8 ret_semget semctl_ok pipe_ok ret_fork numbers =
     (if ret_semget = -1 then Stopped 1 []
      else if \<not> semctl_ok then Stopped 1 [''semid'']
      else if \<not> pipe_ok then Stopped 1 [''semid'']
      else if ret_fork = -1 then Stopped 1 [''semid'']
      else Running (task_8 numbers))"

text \<open>
  Task 9: the loop that creates the readers stops at the first \<open>fork\<close> that fails; the number of readers
  until then, and whether all were created.
\<close>

fun fork_readers :: "int list \<Rightarrow> nat \<times> bool" where
  "fork_readers [] = (0, True)"
| "fork_readers (f # fs) = (if f = -1 then (0, False) else let (n, ok) = fork_readers fs in (Suc n, ok))"

text \<open>The writer leaves when a reader cannot be created; the readers it has go on.\<close>

definition start_9 :: "int \<Rightarrow> bool \<Rightarrow> bool \<Rightarrow> int list \<Rightarrow> int list \<Rightarrow> started" where
  "start_9 ret_semget semctl_ok pipe_ok forks numbers =
     (if ret_semget = -1 then Stopped 1 []
      else if \<not> semctl_ok then Stopped 1 [''semid'']
      else if \<not> pipe_ok then Stopped 1 [''semid'']
      else let (n, ok) = fork_readers (take MAX_READERS forks);
               k = boot initSemaphores (writer_9 # replicate n reader_9) numbers
           in Running (if ok then k else k\<lparr>ps := (ps k)[0 := (ps k ! 0)\<lparr>dead := True\<rparr>]\<rparr>))"

text \<open>\<open>sem_open\<close> with the value 1 for a new semaphore; \<open>old\<close> is the value of one that exists.\<close>

definition sem_open :: "int option \<Rightarrow> int" where
  "sem_open old = (case old of None \<Rightarrow> 1 | Some v \<Rightarrow> v)"

definition start_10 :: "int option \<Rightarrow> bool \<Rightarrow> bool \<Rightarrow> int \<Rightarrow> int list \<Rightarrow> started" where
  "start_10 old open_ok pipe_ok ret_fork numbers =
     (if \<not> open_ok then Stopped 1 (if old = None then [] else [''semaphore''])
      else if \<not> pipe_ok then Stopped 1 []
      else if ret_fork = -1 then Stopped 1 []
      else Running (boot ((\<lambda>_. 0)(0 := sem_open old)) [parent_10, child_10] numbers))"

text \<open>\<open>old_r\<close> and \<open>ok_r\<close> for \<open>readers_mutex\<close>, \<open>old_w\<close> and \<open>ok_w\<close> for \<open>resource_mutex\<close>; both are opened first.\<close>

definition start_11 :: "int option \<Rightarrow> bool \<Rightarrow> int option \<Rightarrow> bool \<Rightarrow> bool \<Rightarrow> int \<Rightarrow> int list \<Rightarrow> started" where
  "start_11 old_r ok_r old_w ok_w pipe_ok ret_fork numbers =
     (if \<not> ok_r \<or> \<not> ok_w then
        Stopped 1 ((if ok_r \<or> old_r \<noteq> None then [''readers_mutex''] else [])
          @ (if ok_w \<or> old_w \<noteq> None then [''resource_mutex''] else []))
      else if \<not> pipe_ok then Stopped 1 []
      else if ret_fork = -1 then Stopped 1 []
      else Running (boot ((\<lambda>_. 0)(0 := sem_open old_w, 1 := sem_open old_r)) [parent_11, child_11] numbers))"

section \<open>Lemmas\<close>

text \<open>What an earlier run can have left in a semaphore that starts with 1.\<close>

definition left_value :: "int option \<Rightarrow> bool" where
  "left_value old = (old \<in> {None, Some 0, Some 1})"

lemma sem_open_value: "left_value old \<Longrightarrow> 0 \<le> sem_open old \<and> sem_open old \<le> 1"
  by (auto simp: left_value_def sem_open_def)

lemma start_10_locked:
  assumes "left_value old"
  shows "locked_program ((\<lambda>_. 0)(0 := sem_open old)) [parent_10, child_10]"
  using sem_open_value [OF assms] by unfold_locales (auto simp: program_defs)

lemma start_11_locked:
  assumes "left_value old_w"
  shows "locked_program ((\<lambda>_. 0)(0 := sem_open old_w, 1 := sem_open old_r)) [parent_11, child_11]"
  using sem_open_value [OF assms] by unfold_locales (auto simp: program_defs)

lemma start_9_locked: "locked_program initSemaphores (writer_9 # replicate n reader_9)"
  by unfold_locales (auto simp: initSemaphores_def program_defs)

text \<open>A process that has not begun can be taken away.\<close>

lemma lock_inv_dead:
  assumes "lock_inv s" and "i < length (ps s)" and "weight (ps s ! i) = 0"
  shows "lock_inv (s\<lparr>ps := (ps s)[i := (ps s ! i)\<lparr>dead := True\<rparr>]\<rparr>)"
proof (rule lock_inv_move [OF assms(1,2)])
  have "safe_proc (ps s ! i)" using assms(1,2) by (simp add: lock_inv_def)
  then show "safe_proc ((ps s ! i)\<lparr>dead := True\<rparr>)" by (simp add: safe_proc_def)
qed (use assms in \<open>simp_all add: lock_inv_def weight_def\<close>)

lemma start_9_inv:
  assumes "start_9 ret_semget semctl_ok pipe_ok forks numbers = Running k"
  shows "lock_inv k"
proof -
  obtain n ok where n: "fork_readers (take MAX_READERS forks) = (n, ok)" by fastforce
  let ?k = "boot initSemaphores (writer_9 # replicate n reader_9) numbers"
  have inv: "lock_inv ?k" by (rule locked_program.boot_inv [OF start_9_locked])
  have "weight (ps ?k ! 0) = 0" by (simp add: boot_def start_def weight_def program_defs)
  then have "lock_inv (?k\<lparr>ps := (ps ?k)[0 := (ps ?k ! 0)\<lparr>dead := True\<rparr>]\<rparr>)"
    using inv by (intro lock_inv_dead) (simp_all add: boot_def)
  with inv n assms show ?thesis by (auto simp: start_9_def Let_def split: if_splits)
qed

lemma kstep_procs: "kstep cap s t \<Longrightarrow> length (ps t) = length (ps s)"
  by (induction rule: kstep.induct) (simp_all add: goto_def)

lemma kreach_procs: "kreach cap s t \<Longrightarrow> length (ps t) = length (ps s)"
  unfolding kreach_def by (induction rule: rtranclp_induct) (auto dest: kstep_procs)

section \<open>Properties\<close>

text \<open>
  C7: However the programs of Tasks 9, 10 and 11 were started, after a reader could not be created or with
  semaphores an earlier run has left, no two of their processes ever use \<open>number.txt\<close> at the same time.
\<close>

theorem sem_started_exclusive:
  assumes "start_9 ret_semget semctl_ok pipe_ok forks numbers = Running k
      \<or> start_10 old_w ok_w pipe_ok ret_fork numbers = Running k
      \<or> start_11 old_r ok_r old_w ok_w pipe_ok ret_fork numbers = Running k"
    and "left_value old_w" and "kreach cap k s"
    and "i < length (ps s)" and "j < length (ps s)" and "uses_file (ps s ! i)" and "uses_file (ps s ! j)"
  shows "i = j"
proof -
  have "lock_inv k"
    using assms(1) start_9_inv locked_program.boot_inv [OF start_10_locked [OF assms(2)]]
      locked_program.boot_inv [OF start_11_locked [OF assms(2)]]
    by (auto simp: start_10_def start_11_def split: if_splits)
  from reach_lock_inv [OF assms(3) this] assms(4-) show ?thesis by (rule lock_inv_exclusive)
qed

theorem sem_started_exclusive_witness:
  "\<exists>k s. start_10 (Some 1) True True 5 [] = Running k \<and> kreach 1 k s \<and> {i. i < length (ps s) \<and> uses_file (ps s ! i)} = {1}"
proof -
  from sem_mutual_exclusion_witness obtain s where s: "kreach 1 (task_10 []) s" "uses_file (ps s ! 1)" by blast
  have k: "start_10 (Some 1) True True 5 [] = Running (task_10 [])"
    by (simp add: start_10_def sem_open_def task_10_def)
  then have start: "start_9 (-1) True True [] [] = Running (task_10 []) \<or> start_10 (Some 1) True True 5 [] = Running (task_10 [])
      \<or> start_11 None True (Some 1) True True 5 [] = Running (task_10 [])" by blast
  have "length (ps s) = 2" using s(1) kreach_procs [of 1 "task_10 []" s] by (simp add: task_10_def boot_def)
  moreover have "i = 1" if "i < length (ps s)" "uses_file (ps s ! i)" for i
    by (rule sem_started_exclusive [OF start _ s(1) that(1) _ that(2) s(2)]) (use calculation in \<open>simp_all add: left_value_def\<close>)
  ultimately have "{i. i < length (ps s) \<and> uses_file (ps s ! i)} = {1}" using s(2) by auto
  with k s(1) show ?thesis by blast
qed

text \<open>
  A run of Task 10 that is killed while one of its processes holds the semaphore leaves it at 0, and
  every later run stops at once: no process can take a single step.
\<close>

theorem sem_10_restart_stops:
  assumes "kreach cap (task_10 numbers) s" and "sems s 0 = 0" and "ret_fork \<noteq> -1"
  shows "\<exists>k. start_10 (Some (sems s 0)) True True ret_fork numbers' = Running k \<and> (\<forall>s'. \<not> kstep cap k s')"
proof -
  let ?k = "boot ((\<lambda>_. 0)(0 := sem_open (Some 0))) [parent_10, child_10] numbers'"
  have "\<forall>p \<in> set (ps ?k). waits ?k p"
    by (simp add: waits_def boot_def start_def program_defs sem_open_def)
  then have "\<forall>s'. \<not> kstep cap ?k s'" using all_wait_stuck by blast
  then show ?thesis using assms(2,3) by (intro exI [of _ ?k]) (simp add: start_10_def)
qed

end
