(* ===== verification/Shared_Memory.thy ===== *)
theory Shared_Memory
  imports C_Prelude
begin

text \<open>
  The shared-memory programs of Module 3, Tasks 12 (System V) and 13 (POSIX): the parent
  stores random numbers in a segment of \<open>SHM_SIZE\<close> bytes, the child looks for their minimum
  and maximum and stores them behind the numbers, the parent prints them. Both programs
  have the same two functions and the same loops; they differ in the calls that create and
  remove the segment, which are in \<open>Shm_Programs\<close>.

  The two processes run side by side without synchronisation. \<open>shm_step\<close> interleaves them
  access by access; \<open>findMinMax\<close> and \<open>generateNumbers\<close> are also given as functions, for what
  they do when nobody interferes. The values of \<open>rand\<close> are an argument.

  Proved here: the child finds the minimum and maximum of what it reads, the number the
  parent forgets to generate, agreement of the two descriptions of the child, and that no
  interleaving leaves the segment.
\<close>

section \<open>The functions\<close>

definition SHM_SIZE :: nat where
  "SHM_SIZE = 1024"

type_synonym shm = "int list"

text \<open>The segment as an array of \<open>int\<close>.\<close>

definition shm_cells :: nat where
  "shm_cells = SHM_SIZE div 4"

text \<open>The loop of \<open>generateNumbers\<close>: \<open>rand i\<close> is what the call for the cell \<open>i\<close> returns.\<close>

function generate_from :: "(int \<Rightarrow> int) \<Rightarrow> int \<Rightarrow> int \<Rightarrow> shm \<Rightarrow> shm res" where
  "generate_from rand i cnt m =
     (if i < cnt then bindE (aset m i (rand i mod 20)) (generate_from rand (i + 1) cnt) else Inr m)"
  by pat_completeness auto
termination by (relation "measure (\<lambda>(r, i, cnt, m). nat (cnt - i))") auto

definition generateNumbers :: "(int \<Rightarrow> int) \<Rightarrow> shm \<Rightarrow> int \<Rightarrow> shm res" where
  "generateNumbers rand m cnt = bindE (aset m 0 cnt) (generate_from rand 1 cnt)"

function minmax_from :: "shm \<Rightarrow> int \<Rightarrow> int \<Rightarrow> int \<Rightarrow> int \<Rightarrow> (int \<times> int) res" where
  "minmax_from m cnt i mi ma =
     (if i \<le> cnt then
        bindE (aget m i) (\<lambda>x. minmax_from m cnt (i + 1) (if x < mi then x else mi) (if x > ma then x else ma))
      else Inr (mi, ma))"
  by pat_completeness auto
termination by (relation "measure (\<lambda>(m, cnt, i, mi, ma). nat (cnt + 1 - i))") auto

definition findMinMax :: "shm \<Rightarrow> shm res" where
  "findMinMax m =
     bindE (aget m 0) (\<lambda>cnt.
     bindE (aget m 1) (\<lambda>x.
     bindE (minmax_from m cnt 2 x x) (\<lambda>(mi, ma).
     bindE (aset m (cnt + 1) mi) (\<lambda>m. aset m (cnt + 2) ma))))"

section \<open>The processes\<close>

text \<open>
  The child between two accesses to the segment: about to read the count, the first number
  for \<open>min\<close>, the first number for \<open>max\<close>, the number \<open>i\<close> (which is read once for each
  comparison, and again for each assignment), about to write the minimum, the maximum.
\<close>

datatype child =
    ReadCount
  | ReadMin int
  | ReadMax int int
  | CmpMin int int int int    \<comment> \<open>count, i, min, max: the test \<open>shm_ptr[i] < min\<close>\<close>
  | SetMin int int int        \<comment> \<open>count, i, max: the assignment to \<open>min\<close>\<close>
  | CmpMax int int int int    \<comment> \<open>count, i, min, max: the test \<open>shm_ptr[i] > max\<close>\<close>
  | SetMax int int int        \<comment> \<open>count, i, min: the assignment to \<open>max\<close>\<close>
  | PutMin int int int
  | PutMax int int

text \<open>The loop test of the child.\<close>

definition child_loop :: "int \<Rightarrow> int \<Rightarrow> int \<Rightarrow> int \<Rightarrow> child" where
  "child_loop cnt i mi ma = (if i \<le> cnt then CmpMin cnt i mi ma else PutMin cnt mi ma)"

fun child_step :: "child \<Rightarrow> shm \<Rightarrow> (child \<times> shm) res" where
  "child_step ReadCount m = bindE (aget m 0) (\<lambda>cnt. Inr (ReadMin cnt, m))"
| "child_step (ReadMin cnt) m = bindE (aget m 1) (\<lambda>x. Inr (ReadMax cnt x, m))"
| "child_step (ReadMax cnt mi) m = bindE (aget m 1) (\<lambda>x. Inr (child_loop cnt 2 mi x, m))"
| "child_step (CmpMin cnt i mi ma) m =
     bindE (aget m i) (\<lambda>x. Inr (if x < mi then SetMin cnt i ma else CmpMax cnt i mi ma, m))"
| "child_step (SetMin cnt i ma) m = bindE (aget m i) (\<lambda>x. Inr (CmpMax cnt i x ma, m))"
| "child_step (CmpMax cnt i mi ma) m =
     bindE (aget m i) (\<lambda>x. Inr (if x > ma then SetMax cnt i mi else child_loop cnt (i + 1) mi ma, m))"
| "child_step (SetMax cnt i mi) m = bindE (aget m i) (\<lambda>x. Inr (child_loop cnt (i + 1) mi x, m))"
| "child_step (PutMin cnt mi ma) m = bindE (aset m (cnt + 1) mi) (\<lambda>m. Inr (PutMax cnt ma, m))"
| "child_step (PutMax cnt ma) m = bindE (aset m (cnt + 2) ma) (\<lambda>m. Inr (ReadCount, m))"

text \<open>
  The parent: about to choose a count, to store the count, to generate the number \<open>i\<close>, to
  print the number \<open>i\<close>, to print the minimum (after \<open>sleep\<close>) and the maximum. A step that
  prints returns the number; \<open>r\<close> is what \<open>rand\<close> returns if the step calls it.
\<close>

datatype parent =
    Choose
  | PutCount int
  | Generate int int
  | Show int int
  | ShowMin int
  | ShowMax int

definition parent_gen :: "int \<Rightarrow> int \<Rightarrow> parent" where
  "parent_gen cnt i = (if i < cnt then Generate cnt i else Show cnt 1)"

definition parent_show :: "int \<Rightarrow> int \<Rightarrow> parent" where
  "parent_show cnt i = (if i \<le> cnt then Show cnt i else ShowMin cnt)"

fun parent_step :: "int \<Rightarrow> parent \<Rightarrow> shm \<Rightarrow> (parent \<times> shm \<times> int list) res" where
  "parent_step r Choose m = Inr (PutCount (2 + r mod 5), m, [])"
| "parent_step r (PutCount cnt) m = bindE (aset m 0 cnt) (\<lambda>m. Inr (parent_gen cnt 1, m, []))"
| "parent_step r (Generate cnt i) m = bindE (aset m i (r mod 20)) (\<lambda>m. Inr (parent_gen cnt (i + 1), m, []))"
| "parent_step r (Show cnt i) m = bindE (aget m i) (\<lambda>x. Inr (parent_show cnt (i + 1), m, [x]))"
| "parent_step r (ShowMin cnt) m = bindE (aget m (cnt + 1)) (\<lambda>x. Inr (ShowMax cnt, m, [x]))"
| "parent_step r (ShowMax cnt) m = bindE (aget m (cnt + 2)) (\<lambda>x. Inr (Choose, m, [x]))"

text \<open>
  Any interleaving of the two processes; a state is \<open>None\<close> once a process has left the
  segment. \<open>rand\<close> returns numbers that are not negative.
\<close>

inductive shm_step :: "(parent \<times> child \<times> shm) option \<Rightarrow> (parent \<times> child \<times> shm) option \<Rightarrow> bool" where
  parent_ok: "0 \<le> r \<Longrightarrow> parent_step r p m = Inr (p', m', out) \<Longrightarrow> shm_step (Some (p, c, m)) (Some (p', c, m'))"
| parent_bad: "0 \<le> r \<Longrightarrow> parent_step r p m = Inl e \<Longrightarrow> shm_step (Some (p, c, m)) None"
| child_ok: "child_step c m = Inr (c', m') \<Longrightarrow> shm_step (Some (p, c, m)) (Some (p, c', m'))"
| child_bad: "child_step c m = Inl e \<Longrightarrow> shm_step (Some (p, c, m)) None"

text \<open>
  The segment at the start: a new one is filled with zeros, but \<open>IPC_CREAT\<close> without \<open>IPC_EXCL\<close> also
  finds the one that an earlier run of the program has left behind, with whatever numbers
  are in it; its first cell is then 0 or a count that was put there.
\<close>

definition shm_left :: "shm \<Rightarrow> bool" where
  "shm_left old = (length old = shm_cells \<and> 0 \<le> old ! 0 \<and> old ! 0 \<le> 6)"

definition shm_start :: "shm \<Rightarrow> (parent \<times> child \<times> shm) option" where
  "shm_start old = Some (Choose, ReadCount, old)"

inductive shm_reach :: "(parent \<times> child \<times> shm) option \<Rightarrow> bool" where
  reach_start: "shm_left old \<Longrightarrow> shm_reach (shm_start old)"
| reach_step: "shm_reach s \<Longrightarrow> shm_step s t \<Longrightarrow> shm_reach t"

text \<open>The child alone, for \<open>n\<close> steps.\<close>

fun child_run :: "nat \<Rightarrow> child \<Rightarrow> shm \<Rightarrow> (child \<times> shm) res" where
  "child_run 0 c m = Inr (c, m)"
| "child_run (Suc n) c m = bindE (child_step c m) (\<lambda>(c, m). child_run n c m)"

section \<open>What the processes rely on\<close>

definition count_ok :: "int \<Rightarrow> bool" where
  "count_ok n = (0 \<le> n \<and> n \<le> 6)"

fun child_ok_at :: "child \<Rightarrow> bool" where
  "child_ok_at ReadCount = True"
| "child_ok_at (ReadMin n) = count_ok n"
| "child_ok_at (ReadMax n _) = count_ok n"
| "child_ok_at (CmpMin n i _ _) = (count_ok n \<and> 2 \<le> i \<and> i \<le> n)"
| "child_ok_at (SetMin n i _) = (count_ok n \<and> 2 \<le> i \<and> i \<le> n)"
| "child_ok_at (CmpMax n i _ _) = (count_ok n \<and> 2 \<le> i \<and> i \<le> n)"
| "child_ok_at (SetMax n i _) = (count_ok n \<and> 2 \<le> i \<and> i \<le> n)"
| "child_ok_at (PutMin n _ _) = count_ok n"
| "child_ok_at (PutMax n _) = count_ok n"

fun parent_ok_at :: "parent \<Rightarrow> bool" where
  "parent_ok_at Choose = True"
| "parent_ok_at (PutCount n) = (2 \<le> n \<and> n \<le> 6)"
| "parent_ok_at (Generate n i) = (2 \<le> n \<and> n \<le> 6 \<and> 1 \<le> i \<and> i < n)"
| "parent_ok_at (Show n i) = (2 \<le> n \<and> n \<le> 6 \<and> 1 \<le> i \<and> i \<le> n)"
| "parent_ok_at (ShowMin n) = (2 \<le> n \<and> n \<le> 6)"
| "parent_ok_at (ShowMax n) = (2 \<le> n \<and> n \<le> 6)"

definition shm_inv :: "parent \<times> child \<times> shm \<Rightarrow> bool" where
  "shm_inv = (\<lambda>(p, c, m). length m = shm_cells \<and> count_ok (m ! 0) \<and> parent_ok_at p \<and> child_ok_at c)"

text \<open>The numbers the child looks at.\<close>

definition numbers :: "shm \<Rightarrow> int list" where
  "numbers m = take (nat (m ! 0)) (tl m)"

section \<open>Lemmas\<close>

declare generate_from.simps [simp del] minmax_from.simps [simp del]

lemma cells: "shm_cells = 256"
  by (simp add: shm_cells_def SHM_SIZE_def)

lemma generate_from_spec:
  assumes "i \<le> cnt" and "0 \<le> i" and "cnt \<le> int (length m)"
  shows "\<exists>m'. generate_from rand i cnt m = Inr m' \<and> length m' = length m
    \<and> (\<forall>j < length m. m' ! j = (if i \<le> int j \<and> int j < cnt then rand (int j) mod 20 else m ! j))"
  using assms
proof (induction rand i cnt m rule: generate_from.induct)
  case (1 rand i cnt m)
  show ?case
  proof (cases "i < cnt")
    case False
    then have "generate_from rand i cnt m = Inr m" by (subst generate_from.simps) simp
    with False show ?thesis by auto
  next
    case True
    let ?m = "m[nat i := rand i mod 20]"
    have a: "aset m i (rand i mod 20) = Inr ?m" using 1 True by (simp add: aset_def)
    from 1(1) [OF True, of ?m] 1 True obtain m' where
      m': "generate_from rand (i + 1) cnt ?m = Inr m'" "length m' = length m"
      "\<forall>j < length m. m' ! j = (if i + 1 \<le> int j \<and> int j < cnt then rand (int j) mod 20 else ?m ! j)"
      by auto
    moreover have "m' ! j = (if i \<le> int j \<and> int j < cnt then rand (int j) mod 20 else m ! j)" if "j < length m" for j
      using that m'(3) True 1(3) by (cases "int j = i") (auto simp: nth_list_update)
    ultimately show ?thesis using True a by (simp add: generate_from.simps [of rand i])
  qed
qed

text \<open>The loop of the child folds minimum and maximum over the cells \<open>i\<close> to \<open>count\<close>.\<close>

lemma minmax_from_spec:
  assumes "0 \<le> i" and "i \<le> cnt + 1" and "cnt < int (length m)"
  shows "minmax_from m cnt i mi ma =
    Inr (fold min (map ((!) m) [nat i..<nat (cnt + 1)]) mi, fold max (map ((!) m) [nat i..<nat (cnt + 1)]) ma)"
  using assms
proof (induction m cnt i mi ma rule: minmax_from.induct)
  case (1 m cnt i mi ma)
  show ?case
  proof (cases "i \<le> cnt")
    case False
    with 1 show ?thesis by (simp add: minmax_from.simps [of m cnt i])
  next
    case True
    let ?x = "m ! nat i"
    have g: "aget m i = Inr ?x" using True 1 by (simp add: aget_def)
    have "nat i < nat (cnt + 1)" using True 1 by simp
    then have u: "[nat i..<nat (cnt + 1)] = nat i # [nat (i + 1)..<nat (cnt + 1)]"
      using 1(2) by (subst upt_conv_Cons) (auto simp: nat_add_distrib)
    have mm: "(if ?x < mi then ?x else mi) = min ?x mi" "(if ?x > ma then ?x else ma) = max ?x ma" by auto
    show ?thesis
      using 1(1) [OF True, of ?x] 1(2-) True g u
      by (simp add: minmax_from.simps [of m cnt i] mm)
  qed
qed

lemma fold_min_Min: "fold min xs (a :: int) = Min (set (a # xs))"
  by (metis Min.set_eq_fold)

lemma fold_max_Max: "fold max xs (a :: int) = Max (set (a # xs))"
  by (metis Max.set_eq_fold)

lemma numbers_nth:
  "m ! 0 = int n \<Longrightarrow> n < length m \<Longrightarrow> numbers m = map ((!) m) [1..<Suc n]"
  by (rule nth_equalityI) (simp_all add: numbers_def nth_tl del: upt_Suc)

lemma findMinMax_spec:
  assumes "m ! 0 = int n" and "1 \<le> n" and "n + 2 < length m"
  shows "findMinMax m = Inr (m[n + 1 := Min (set (numbers m)), n + 2 := Max (set (numbers m))])"
proof -
  have g: "aget m 0 = Inr (int n)" "aget m 1 = Inr (m ! 1)" using assms by (auto simp: aget_def)
  have "[1..<Suc n] = 1 # [2..<Suc n]" using assms(2) by (subst upt_conv_Cons) (simp_all add: numeral_2_eq_2)
  then have "numbers m = m ! 1 # map ((!) m) [2..<Suc n]"
    using numbers_nth [OF assms(1)] assms(3) by (simp del: upt_Suc)
  moreover have "minmax_from m (int n) 2 (m ! 1) (m ! 1) =
      Inr (fold min (map ((!) m) [2..<Suc n]) (m ! 1), fold max (map ((!) m) [2..<Suc n]) (m ! 1))"
    using minmax_from_spec [of 2 "int n" m] assms by (simp add: nat_add_distrib del: upt_Suc)
  ultimately have "minmax_from m (int n) 2 (m ! 1) (m ! 1) = Inr (Min (set (numbers m)), Max (set (numbers m)))"
    by (simp add: fold_min_Min fold_max_Max del: upt_Suc)
  then show ?thesis
    using g assms(3) by (simp add: findMinMax_def aset_def nat_add_distrib)
qed

lemma generateNumbers_spec:
  assumes "1 \<le> n" and "n < length m"
  shows "\<exists>m'. generateNumbers rand m (int n) = Inr m' \<and> length m' = length m \<and> m' ! 0 = int n
    \<and> (\<forall>j < length m. 1 \<le> j \<longrightarrow> m' ! j = (if j < n then rand (int j) mod 20 else m ! j))"
proof -
  have "aset m 0 (int n) = Inr (m[0 := int n])" using assms by (auto simp: aset_def)
  moreover obtain m' where
    g: "generate_from rand 1 (int n) (m[0 := int n]) = Inr m'" "length m' = length m"
    and j: "\<forall>j < length m. m' ! j = (if 1 \<le> int j \<and> int j < int n then rand (int j) mod 20 else m[0 := int n] ! j)"
    using generate_from_spec [of 1 "int n" "m[0 := int n]" rand] assms by auto
  moreover from j [rule_format, of 0] assms have "m' ! 0 = int n" by (cases m) simp_all
  ultimately show ?thesis by (auto simp: generateNumbers_def)
qed

subsection \<open>The child, access by access\<close>

lemma child_run_add:
  "child_run (a + b) c m = bindE (child_run a c m) (\<lambda>(c, m). child_run b c m)"
proof (induction a arbitrary: c m)
  case (Suc a)
  then show ?case by (cases "child_step c m") (simp_all add: split_beta)
qed simp

lemma child_run_trans:
  "child_run a c m = Inr (c', m') \<Longrightarrow> child_run b c' m' = Inr r \<Longrightarrow> child_run (a + b) c m = Inr r"
  by (simp add: child_run_add)

text \<open>One round of the loop takes two to four accesses.\<close>

lemma child_round:
  assumes "aget m i = Inr x" and "i \<le> cnt"
  shows "\<exists>k. child_run k (child_loop cnt i mi ma) m =
    Inr (child_loop cnt (i + 1) (if x < mi then x else mi) (if x > ma then x else ma), m)"
proof -
  let ?k = "Suc (Suc 0) + (if x < mi then 1 else 0) + (if x > ma then 1 else 0)"
  show ?thesis by (rule exI [of _ ?k]) (use assms in \<open>simp add: child_loop_def [of cnt i]\<close>)
qed

lemma child_minmax:
  "minmax_from m cnt i mi ma = Inr (a, b) \<Longrightarrow> \<exists>k. child_run k (child_loop cnt i mi ma) m = Inr (PutMin cnt a b, m)"
proof (induction m cnt i mi ma rule: minmax_from.induct)
  case (1 m cnt i mi ma)
  show ?case
  proof (cases "i \<le> cnt")
    case False
    with 1(2) have "child_run 0 (child_loop cnt i mi ma) m = Inr (PutMin cnt a b, m)"
      by (simp add: minmax_from.simps [of m cnt i] child_loop_def)
    then show ?thesis ..
  next
    case True
    with 1(2) obtain x where x: "aget m i = Inr x"
      and r: "minmax_from m cnt (i + 1) (if x < mi then x else mi) (if x > ma then x else ma) = Inr (a, b)"
      by (auto simp: minmax_from.simps [of m cnt i])
    from child_round [OF x True] 1(1) [OF True r] show ?thesis by (blast intro: child_run_trans)
  qed
qed

lemma child_runs_findMinMax:
  assumes "findMinMax m = Inr m'"
  shows "\<exists>k. child_run k ReadCount m = Inr (ReadCount, m')"
proof -
  from assms obtain cnt x a b m1 where
    g: "aget m 0 = Inr cnt" "aget m 1 = Inr x" and mm: "minmax_from m cnt 2 x x = Inr (a, b)"
    and s: "aset m (cnt + 1) a = Inr m1" "aset m1 (cnt + 2) b = Inr m'"
    by (auto simp: findMinMax_def)
  have "child_run 3 ReadCount m = Inr (child_loop cnt 2 x x, m)" using g by (simp add: numeral_3_eq_3)
  moreover from child_minmax [OF mm] obtain k where "child_run k (child_loop cnt 2 x x) m = Inr (PutMin cnt a b, m)" ..
  moreover have "child_run 2 (PutMin cnt a b) m = Inr (ReadCount, m')" using s by (simp add: numeral_2_eq_2)
  ultimately show ?thesis by (blast intro: child_run_trans)
qed

subsection \<open>Interference\<close>

lemma child_step_inv:
  assumes "shm_inv (p, c, m)"
  shows "\<exists>c' m'. child_step c m = Inr (c', m') \<and> shm_inv (p, c', m')"
  using assms by (cases c) (auto simp: shm_inv_def cells count_ok_def aget_def aset_def child_loop_def nth_list_update)

lemma parent_step_inv:
  assumes "shm_inv (p, c, m)" and "0 \<le> r"
  shows "\<exists>p' m' out. parent_step r p m = Inr (p', m', out) \<and> shm_inv (p', c, m')"
  using assms pos_mod_bound [of 5 r] pos_mod_sign [of 5 r]
  by (cases p) (auto simp: shm_inv_def cells count_ok_def aget_def aset_def parent_gen_def parent_show_def nth_list_update)

inductive_cases shm_stepE: "shm_step (Some (p, c, m)) t"

inductive_cases shm_step_None: "shm_step None t"

lemma shm_reach_inv: "shm_reach s \<Longrightarrow> \<exists>x. s = Some x \<and> shm_inv x"
proof (induction rule: shm_reach.induct)
  case (reach_start old)
  then show ?case by (simp add: shm_start_def shm_left_def shm_inv_def cells count_ok_def)
next
  case (reach_step s t)
  then obtain p c m where s: "s = Some (p, c, m)" and inv: "shm_inv (p, c, m)" by (metis prod_cases3)
  from reach_step.hyps(2) show ?case
    unfolding s
    by (cases rule: shm_stepE) (use child_step_inv [OF inv] parent_step_inv [OF inv] in \<open>auto, force+\<close>)
qed

section \<open>Properties\<close>

text \<open>
  C18: With \<open>n\<close> numbers in the segment the child writes their minimum and their maximum into the
  two cells behind them and changes nothing else; step by step, undisturbed, it does the same.
\<close>

theorem shm_minmax:
  assumes "m ! 0 = int n" and "1 \<le> n" and "n + 2 < length m"
  shows "findMinMax m = Inr (m[n + 1 := Min (set (numbers m)), n + 2 := Max (set (numbers m))])
    \<and> (\<exists>k. child_run k ReadCount m =
          Inr (ReadCount, m[n + 1 := Min (set (numbers m)), n + 2 := Max (set (numbers m))]))"
  using findMinMax_spec [OF assms] child_runs_findMinMax by blast

theorem shm_minmax_witness:
  "findMinMax [3, 5, 2, 9, 0, 0, 0] = Inr [3, 5, 2, 9, 2, 9, 0]
    \<and> (\<exists>k. child_run k ReadCount [3, 5, 2, 9, 0, 0, 0] = Inr (ReadCount, [3, 5, 2, 9, 2, 9, 0]))"
  using shm_minmax [of "[3, 5, 2, 9, 0, 0, 0]" 3] by (simp add: numbers_def)

text \<open>
  C17: No interleaving of the two processes reads or writes outside the segment, whether it is
  new or was left by an earlier run.
\<close>

theorem shm_in_bounds:
  assumes "shm_reach s"
  shows "\<exists>p c m. s = Some (p, c, m) \<and> length m = shm_cells \<and> 0 \<le> m ! 0 \<and> m ! 0 \<le> 6"
  using shm_reach_inv [OF assms] by (auto simp: shm_inv_def count_ok_def)

theorem shm_in_bounds_witness:
  "\<exists>p c m. Some (PutCount 4, ReadCount, replicate shm_cells (0 :: int)) = Some (p, c, m)
    \<and> length m = shm_cells \<and> 0 \<le> m ! 0 \<and> m ! 0 \<le> 6"
proof (rule shm_in_bounds)
  have l: "shm_left (replicate shm_cells 0)" by (simp add: shm_left_def cells)
  have "parent_step 7 Choose (replicate shm_cells 0) = Inr (PutCount 4, replicate shm_cells 0, [])" by simp
  from parent_ok [OF _ this] show "shm_reach (Some (PutCount 4, ReadCount, replicate shm_cells 0))"
    by (intro reach_step [OF reach_start [OF l]]) (simp add: shm_start_def)
qed

text \<open>
  The last number of every round is not generated: after a round of \<open>n\<close> numbers has been
  processed, a round of \<open>n + 1\<close> numbers ends with the minimum of the round before.
\<close>

theorem shm_last_number_stale:
  assumes "m ! 0 = int n" and "1 \<le> n" and "n + 3 < length m"
    and "findMinMax m = Inr m1" and "generateNumbers rand m1 (int (Suc n)) = Inr m2"
  shows "numbers m2 = map (\<lambda>j. rand (int j) mod 20) [1..<Suc n] @ [Min (set (numbers m))]"
proof -
  have m1: "m1 = m[n + 1 := Min (set (numbers m)), n + 2 := Max (set (numbers m))]"
    using findMinMax_spec [OF assms(1,2)] assms(3,4) by simp
  then have l: "Suc n < length m1" using assms(3) by simp
  from generateNumbers_spec [OF _ l, of rand] assms(5) have
    m2: "length m2 = length m1" "m2 ! 0 = int (Suc n)"
      "\<And>j. j < length m1 \<Longrightarrow> 1 \<le> j \<Longrightarrow> m2 ! j = (if j < Suc n then rand (int j) mod 20 else m1 ! j)"
    by auto
  have "m2 ! Suc n = Min (set (numbers m))" using m2(3) [OF l] m1 assms(3) by simp
  moreover have "map ((!) m2) [1..<Suc n] = map (\<lambda>j. rand (int j) mod 20) [1..<Suc n]"
    using m2(3) l by (intro map_cong refl) (auto simp del: upt_Suc)
  moreover have "numbers m2 = map ((!) m2) [1..<Suc (Suc n)]" using m2(1,2) l by (intro numbers_nth) simp_all
  ultimately show ?thesis by simp
qed

theorem shm_last_number_stale_witness:
  "numbers [3, 11, 11, 4, 7, 0, 0] = map (\<lambda>j. (\<lambda>_. 11) (int j) mod 20) [1..<Suc 2] @ [Min (set (numbers [2, 7, 4, 0, 0, 0, 0]))]"
  by (rule shm_last_number_stale [where ?m1.0 = "[2, 7, 4, 4, 7, 0, 0]" and rand = "\<lambda>_. 11"])
    (simp_all add: findMinMax_def minmax_from.simps aget_def aset_def generateNumbers_def generate_from.simps)

end
