(* ===== verification/Shm_Programs.thy ===== *)
theory Shm_Programs
  imports Shared_Memory C_Stdio
begin

text \<open>
  The two programs of \<open>Shared_Memory\<close> from the creation of the segment to its removal (Module 3,
  Task 12 with System V calls, Task 13 with POSIX calls): the calls of the start with their
  error exits, the loops with the flag that the handler of \<open>SIGINT\<close> sets, what the parent
  prints, and the end of both processes. The list of events is the order in which the
  processes take their steps and the signals arrive. A segment that is removed stays usable
  for a process that still has it attached, in both systems.

  Proved here: the error exits of the start that leave a segment behind, that the segment
  disappears with the parent and no process leaves it before, and that both processes end
  after a signal.
\<close>

section \<open>The start\<close>

text \<open>The exit status if the program ends at once, and whether there is a segment.\<close>

definition shm_open_12 :: "int \<Rightarrow> bool \<Rightarrow> int \<Rightarrow> int option \<times> bool" where
  "shm_open_12 ret_shmget shmat_ok ret_fork =
     (if ret_shmget = -1 then (Some 1, False)
      else if \<not> shmat_ok then (Some 1, True)
      else if ret_fork = -1 then (Some 1, True)
      else (None, True))"

definition shm_open_13 :: "int \<Rightarrow> int \<Rightarrow> bool \<Rightarrow> int \<Rightarrow> int option \<times> bool" where
  "shm_open_13 ret_open ret_ftruncate mmap_ok ret_fork =
     (if ret_open = -1 then (Some 1, False)
      else if ret_ftruncate = -1 then (Some 1, True)
      else if \<not> mmap_ok then (Some 1, True)
      else if ret_fork = -1 then (Some 1, True)
      else (None, True))"

section \<open>The processes\<close>

text \<open>
  \<open>None\<close> for a process that has ended, and so detached the segment; \<open>named\<close> is whether the segment
  can still be found.
\<close>

record shm_sys =
  cells :: shm
  named :: bool
  par :: "parent option"
  par_stop :: bool
  processedCount :: int
  par_text :: string
  chi :: "child option"
  chi_stop :: bool
  chi_text :: string

datatype shm_event = ParentMoves nat | ChildMoves | SigParent | SigChild

text \<open>What the parent prints with a step; the numbers are those it has read.\<close>

fun parent_says :: "parent \<Rightarrow> parent \<Rightarrow> int list \<Rightarrow> string" where
  "parent_says (PutCount n) (Show cnt i) out = ''Generated numbers(Count: '' @ show_int cnt @ ''): ''"
| "parent_says (Generate n j) (Show cnt i) out = ''Generated numbers(Count: '' @ show_int cnt @ ''): ''"
| "parent_says (Show n j) (Show cnt i) [x] = show_int x @ '' ''"
| "parent_says (Show n j) (ShowMin cnt) [x] = show_int x @ '' '' @ [NL]"
| "parent_says (ShowMin n) p [x] = ''Min: '' @ show_int x @ [NL]"
| "parent_says (ShowMax n) p [x] = ''Max: '' @ show_int x"
| "parent_says p q out = []"

text \<open>
  The parent tests the flag before every round; \<open>processedCount\<close> is incremented at the end of one. When
  it leaves the loop it detaches and removes the segment.
\<close>

definition parent_turn :: "nat \<Rightarrow> shm_sys \<Rightarrow> shm_sys res" where
  "parent_turn r s =
     (case par s of None \<Rightarrow> Inr s
      | Some p \<Rightarrow>
          if p = Choose \<and> par_stop s then
            Inr (s\<lparr>par := None, named := False, par_text := par_text s @ ''Data processed: '' @ show_int (processedCount s)\<rparr>)
          else bindE (parent_step (int r) p (cells s)) (\<lambda>(p', m, out).
            bindE (if p' = Choose then c_int (processedCount s + 1) else Inr (processedCount s)) (\<lambda>k.
            Inr (s\<lparr>par := Some p', cells := m, par_text := par_text s @ parent_says p p' out, processedCount := k\<rparr>))))"

definition child_turn :: "shm_sys \<Rightarrow> shm_sys res" where
  "child_turn s =
     (case chi s of None \<Rightarrow> Inr s
      | Some c \<Rightarrow>
          if c = ReadCount \<and> chi_stop s then Inr (s\<lparr>chi := None\<rparr>)
          else bindE (child_step c (cells s)) (\<lambda>(c', m). Inr (s\<lparr>chi := Some c', cells := m\<rparr>)))"

fun shm_turn :: "shm_event \<Rightarrow> shm_sys \<Rightarrow> shm_sys res" where
  "shm_turn (ParentMoves r) s = parent_turn r s"
| "shm_turn ChildMoves s = child_turn s"
| "shm_turn SigParent s = Inr (s\<lparr>par_stop := True\<rparr>)"
| "shm_turn SigChild s = Inr (s\<lparr>chi_stop := True\<rparr>)"

fun shm_run :: "shm_event list \<Rightarrow> shm_sys \<Rightarrow> shm_sys res" where
  "shm_run [] s = Inr s"
| "shm_run (e # es) s = bindE (shm_turn e s) (shm_run es)"

definition shm_forked :: "shm \<Rightarrow> shm_sys" where
  "shm_forked old = \<lparr>cells = old, named = True, par = Some Choose, par_stop = False, processedCount = 0,
     par_text = ''Parent process'' @ [NL], chi = Some ReadCount, chi_stop = False, chi_text = ''Child process'' @ [NL]\<rparr>"

text \<open>
  The programs: the exit status of the start or the state after the events, and whether a segment is
  left. \<open>old\<close> is what the segment holds when it is opened.
\<close>

definition shm_main_12 :: "shm \<Rightarrow> int \<Rightarrow> bool \<Rightarrow> int \<Rightarrow> shm_event list \<Rightarrow> (int option \<times> shm_sys) res" where
  "shm_main_12 old ret_shmget shmat_ok ret_fork es =
     (case shm_open_12 ret_shmget shmat_ok ret_fork of
        (Some n, seg) \<Rightarrow> Inr (Some n, (shm_forked old)\<lparr>named := seg, par := None, par_text := [], chi := None, chi_text := []\<rparr>)
      | (None, seg) \<Rightarrow> bindE (shm_run es (shm_forked old)) (\<lambda>s. Inr (None, s)))"

definition shm_main_13 :: "shm \<Rightarrow> int \<Rightarrow> int \<Rightarrow> bool \<Rightarrow> int \<Rightarrow> shm_event list \<Rightarrow> (int option \<times> shm_sys) res" where
  "shm_main_13 old ret_open ret_ftruncate mmap_ok ret_fork es =
     (case shm_open_13 ret_open ret_ftruncate mmap_ok ret_fork of
        (Some n, seg) \<Rightarrow> Inr (Some n, (shm_forked old)\<lparr>named := seg, par := None, par_text := [], chi := None, chi_text := []\<rparr>)
      | (None, seg) \<Rightarrow> bindE (shm_run es (shm_forked old)) (\<lambda>s. Inr (None, s)))"

section \<open>Invariant and progress\<close>

definition sys_inv :: "shm_sys \<Rightarrow> bool" where
  "sys_inv s = (length (cells s) = shm_cells \<and> count_ok (cells s ! 0) \<and> (named s \<longleftrightarrow> par s \<noteq> None)
     \<and> (\<forall>p. par s = Some p \<longrightarrow> parent_ok_at p) \<and> (\<forall>c. chi s = Some c \<longrightarrow> child_ok_at c)
     \<and> 0 \<le> processedCount s \<and> in_int (processedCount s))"

text \<open>The number of steps a process takes at most once its flag is set.\<close>

fun parent_rank :: "parent \<Rightarrow> nat" where
  "parent_rank Choose = 1"
| "parent_rank (ShowMax n) = 2"
| "parent_rank (ShowMin n) = 3"
| "parent_rank (Show n i) = 3 + nat (n - i + 1)"
| "parent_rank (Generate n i) = 3 + nat n + nat (n - i)"
| "parent_rank (PutCount n) = 3 + nat n + nat n"

fun child_rank :: "child \<Rightarrow> nat" where
  "child_rank ReadCount = 1"
| "child_rank (PutMax n a) = 2"
| "child_rank (PutMin n a b) = 3"
| "child_rank (CmpMin n i a b) = 3 + 4 * nat (n - i + 1)"
| "child_rank (SetMin n i a) = 2 + 4 * nat (n - i + 1)"
| "child_rank (CmpMax n i a b) = 1 + 4 * nat (n - i + 1)"
| "child_rank (SetMax n i a) = 4 * nat (n - i + 1)"
| "child_rank (ReadMax n a) = 4 + 4 * nat (n - 1)"
| "child_rank (ReadMin n) = 5 + 4 * nat (n - 1)"

definition rank_of :: "('p \<Rightarrow> nat) \<Rightarrow> 'p option \<Rightarrow> nat" where
  "rank_of f x = (case x of None \<Rightarrow> 0 | Some p \<Rightarrow> f p)"

fun is_parent_move :: "shm_event \<Rightarrow> bool" where
  "is_parent_move (ParentMoves r) = True"
| "is_parent_move e = False"

section \<open>Lemmas\<close>

lemma parent_rank_step:
  assumes "parent_ok_at p" and "p \<noteq> Choose" and "parent_step r p m = Inr (p', m', out)"
  shows "parent_rank p' < parent_rank p"
  using assms by (cases p) (auto simp: parent_gen_def parent_show_def)

lemma child_rank_step:
  assumes "child_ok_at c" and "c \<noteq> ReadCount" and "child_step c m = Inr (c', m')"
  shows "child_rank c' < child_rank c"
  using assms by (cases c) (auto simp: child_loop_def split: if_splits)

lemma parent_rank_bound: "parent_ok_at p \<Longrightarrow> parent_rank p \<le> 15"
  by (cases p) auto

lemma child_rank_bound: "child_ok_at c \<Longrightarrow> child_rank c \<le> 25"
  by (cases c) (auto simp: count_ok_def)

lemma parent_rank_pos: "0 < parent_rank p"
  by (cases p) auto

lemma child_rank_pos:
  assumes "child_ok_at c"
  shows "0 < child_rank c"
  using assms by (cases c) auto

lemma rank_of_0:
  assumes "sys_inv s"
  shows "rank_of parent_rank (par s) = 0 \<longleftrightarrow> par s = None" and "rank_of child_rank (chi s) = 0 \<longleftrightarrow> chi s = None"
  using assms parent_rank_pos child_rank_pos
  by (auto simp: rank_of_def sys_inv_def split: option.splits)

lemma parent_turn_ok:
  assumes "sys_inv s" and "processedCount s < INT_MAX"
  shows "\<exists>t. parent_turn r s = Inr t \<and> sys_inv t \<and> chi t = chi s \<and> chi_stop t = chi_stop s \<and> par_stop t = par_stop s
    \<and> processedCount t \<le> processedCount s + 1
    \<and> (par_stop s \<longrightarrow> rank_of parent_rank (par t) \<le> rank_of parent_rank (par s) - 1)"
proof (cases "par s")
  case None
  with assms(1) show ?thesis by (simp add: parent_turn_def rank_of_def)
next
  case (Some p)
  show ?thesis
  proof (cases "p = Choose \<and> par_stop s")
    case True
    with Some assms(1) show ?thesis by (simp add: parent_turn_def rank_of_def sys_inv_def)
  next
    case False
    have "shm_inv (p, ReadCount, cells s)" using assms(1) Some by (simp add: sys_inv_def shm_inv_def)
    from parent_step_inv [OF this, of "int r"] obtain p' m out where
      step: "parent_step (int r) p (cells s) = Inr (p', m, out)" "shm_inv (p', ReadCount, m)" by auto
    have k: "c_int (processedCount s + 1) = Inr (processedCount s + 1)"
      using assms by (simp add: c_int_def sys_inv_def c_arith)
    let ?k = "if p' = Choose then processedCount s + 1 else processedCount s"
    have t: "parent_turn r s = Inr (s\<lparr>par := Some p', cells := m, par_text := par_text s @ parent_says p p' out, processedCount := ?k\<rparr>)"
      using Some False step(1) k by (auto simp: parent_turn_def)
    have "in_int ?k" using assms by (simp add: sys_inv_def c_arith)
    moreover have "par_stop s \<longrightarrow> parent_rank p' \<le> parent_rank p - 1"
    proof
      assume "par_stop s"
      with False assms(1) Some have "parent_rank p' < parent_rank p"
        by (intro parent_rank_step [OF _ _ step(1)]) (auto simp: sys_inv_def)
      then show "parent_rank p' \<le> parent_rank p - 1" by simp
    qed
    ultimately show ?thesis
      using assms(1) Some step(2) unfolding t by (cases "p' = Choose") (simp_all add: sys_inv_def shm_inv_def rank_of_def)
  qed
qed

lemma child_turn_ok:
  assumes "sys_inv s"
  shows "\<exists>t. child_turn s = Inr t \<and> sys_inv t \<and> par t = par s \<and> chi_stop t = chi_stop s \<and> par_stop t = par_stop s
    \<and> processedCount t = processedCount s \<and> named t = named s
    \<and> (chi_stop s \<longrightarrow> rank_of child_rank (chi t) \<le> rank_of child_rank (chi s) - 1)"
proof (cases "chi s")
  case None
  with assms show ?thesis by (simp add: child_turn_def rank_of_def)
next
  case (Some c)
  show ?thesis
  proof (cases "c = ReadCount \<and> chi_stop s")
    case True
    with Some assms show ?thesis by (simp add: child_turn_def rank_of_def sys_inv_def)
  next
    case False
    have "shm_inv (Choose, c, cells s)" using assms Some by (simp add: sys_inv_def shm_inv_def)
    from child_step_inv [OF this] obtain c' m where
      step: "child_step c (cells s) = Inr (c', m)" "shm_inv (Choose, c', m)" by auto
    have t: "child_turn s = Inr (s\<lparr>chi := Some c', cells := m\<rparr>)"
      using Some False step(1) by (auto simp: child_turn_def)
    have "chi_stop s \<longrightarrow> child_rank c' \<le> child_rank c - 1"
    proof
      assume "chi_stop s"
      with False assms Some have "child_rank c' < child_rank c"
        by (intro child_rank_step [OF _ _ step(1)]) (auto simp: sys_inv_def)
      then show "child_rank c' \<le> child_rank c - 1" by simp
    qed
    then show ?thesis
      using assms Some step(2) unfolding t by (simp add: sys_inv_def shm_inv_def rank_of_def)
  qed
qed

text \<open>One event.\<close>

lemma shm_turn_ok:
  assumes "sys_inv s" and "processedCount s < INT_MAX"
  shows "\<exists>t. shm_turn e s = Inr t \<and> sys_inv t \<and> processedCount t \<le> processedCount s + 1
    \<and> (par_stop s \<longrightarrow> par_stop t \<and> rank_of parent_rank (par t) \<le> rank_of parent_rank (par s) - (if is_parent_move e then 1 else 0))
    \<and> (chi_stop s \<longrightarrow> chi_stop t \<and> rank_of child_rank (chi t) \<le> rank_of child_rank (chi s) - (if e = ChildMoves then 1 else 0))"
proof (cases e)
  case (ParentMoves r)
  with parent_turn_ok [OF assms, of r] show ?thesis by auto
next
  case ChildMoves
  with child_turn_ok [OF assms(1)] show ?thesis by auto
qed (use assms(1) in \<open>auto simp: sys_inv_def\<close>)

text \<open>A sequence of them.\<close>

lemma shm_run_ok:
  assumes "sys_inv s" and "processedCount s + int (length es) \<le> INT_MAX"
  shows "\<exists>t. shm_run es s = Inr t \<and> sys_inv t \<and> processedCount t \<le> processedCount s + int (length es)
    \<and> (par_stop s \<longrightarrow> rank_of parent_rank (par t) \<le> rank_of parent_rank (par s) - length (filter is_parent_move es))
    \<and> (chi_stop s \<longrightarrow> rank_of child_rank (chi t) \<le> rank_of child_rank (chi s) - length (filter (\<lambda>e. e = ChildMoves) es))"
  using assms
proof (induction es arbitrary: s)
  case (Cons e es)
  have "processedCount s < INT_MAX" using Cons.prems(2) by simp
  from shm_turn_ok [OF Cons.prems(1) this, of e] obtain t where
    t: "shm_turn e s = Inr t" "sys_inv t" "processedCount t \<le> processedCount s + 1"
      "par_stop s \<Longrightarrow> par_stop t \<and> rank_of parent_rank (par t) \<le> rank_of parent_rank (par s) - (if is_parent_move e then 1 else 0)"
      "chi_stop s \<Longrightarrow> chi_stop t \<and> rank_of child_rank (chi t) \<le> rank_of child_rank (chi s) - (if e = ChildMoves then 1 else 0)"
    by blast
  have "processedCount t + int (length es) \<le> INT_MAX" using t(3) Cons.prems(2) by simp
  from Cons.IH [OF t(2) this] obtain u where
    u: "shm_run es t = Inr u" "sys_inv u" "processedCount u \<le> processedCount t + int (length es)"
      "par_stop t \<Longrightarrow> rank_of parent_rank (par u) \<le> rank_of parent_rank (par t) - length (filter is_parent_move es)"
      "chi_stop t \<Longrightarrow> rank_of child_rank (chi u) \<le> rank_of child_rank (chi t) - length (filter (\<lambda>e. e = ChildMoves) es)"
    by blast
  have "rank_of parent_rank (par u) \<le> rank_of parent_rank (par s) - length (filter is_parent_move (e # es))" if "par_stop s"
    using t(4) [OF that] u(4) by (cases "is_parent_move e") (simp_all, arith+)
  moreover have "rank_of child_rank (chi u) \<le> rank_of child_rank (chi s) - length (filter (\<lambda>e. e = ChildMoves) (e # es))" if "chi_stop s"
    using t(5) [OF that] u(5) by (cases "e = ChildMoves") (simp_all, arith+)
  ultimately show ?case using t(1,3) u(1-3) by (intro exI [of _ u]) simp
qed simp

lemma shm_forked_inv: "shm_left old \<Longrightarrow> sys_inv (shm_forked old)"
  by (simp add: sys_inv_def shm_forked_def shm_left_def cells count_ok_def c_arith)

lemma shm_run_append: "shm_run (es @ fs) s = bindE (shm_run es s) (shm_run fs)"
proof (induction es arbitrary: s)
  case (Cons e es)
  then show ?case by (cases "shm_turn e s") simp_all
qed simp

section \<open>Properties\<close>

text \<open>
  C30: Tasks 12 and 13 after an interrupt: whatever parent and child have done before, once both have
  got the signal each of them ends after at most 15 steps of the parent and 25 of the child, in whatever
  order the processes take them; then the segment is gone, and no access on the way was outside it.
\<close>

theorem shm_stops:
  assumes "int (length es + length fs) < INT_MAX" and "15 \<le> length (filter is_parent_move fs)"
    and "25 \<le> length (filter (\<lambda>e. e = ChildMoves) fs)" and "ret_shmget \<noteq> -1" and "ret_fork \<noteq> -1"
    and "ret_open \<noteq> -1" and "ret_ftruncate \<noteq> -1" and "shm_left old"
  shows "\<exists>s. shm_main_12 old ret_shmget True ret_fork (es @ [SigParent, SigChild] @ fs) = Inr (None, s)
    \<and> shm_main_13 old ret_open ret_ftruncate True ret_fork (es @ [SigParent, SigChild] @ fs) = Inr (None, s)
    \<and> par s = None \<and> chi s = None \<and> \<not> named s"
proof -
  have "processedCount (shm_forked old) + int (length es) \<le> INT_MAX" using assms(1) by (simp add: shm_forked_def)
  from shm_run_ok [OF shm_forked_inv [OF assms(8)] this] obtain s where
    s: "shm_run es (shm_forked old) = Inr s" "sys_inv s" "processedCount s \<le> int (length es)" by (auto simp: shm_forked_def)
  let ?s = "s\<lparr>par_stop := True, chi_stop := True\<rparr>"
  have "sys_inv ?s" "processedCount ?s + int (length fs) \<le> INT_MAX" using s assms(1) by (simp_all add: sys_inv_def)
  from shm_run_ok [OF this] obtain t where
    t: "shm_run fs ?s = Inr t" "sys_inv t"
      "rank_of parent_rank (par t) \<le> rank_of parent_rank (par s) - length (filter is_parent_move fs)"
      "rank_of child_rank (chi t) \<le> rank_of child_rank (chi s) - length (filter (\<lambda>e. e = ChildMoves) fs)"
    by auto
  have "rank_of parent_rank (par s) \<le> 15" "rank_of child_rank (chi s) \<le> 25"
    using s(2) parent_rank_bound child_rank_bound by (auto simp: sys_inv_def rank_of_def split: option.splits)
  with t(3,4) assms(2,3) have "rank_of parent_rank (par t) = 0" "rank_of child_rank (chi t) = 0" by simp_all
  with rank_of_0 [OF t(2)] have "par t = None" "chi t = None" by simp_all
  moreover from this t(2) have "\<not> named t" by (simp add: sys_inv_def)
  moreover have "shm_run (es @ [SigParent, SigChild] @ fs) (shm_forked old) = Inr t"
    using s(1) t(1) by (simp add: shm_run_append)
  ultimately show ?thesis using assms(4-7) by (simp add: shm_main_12_def shm_open_12_def shm_main_13_def shm_open_13_def)
qed

theorem shm_stops_witness:
  "\<exists>s. shm_main_12 (3 # replicate 255 9) 5 True 7 ([ParentMoves 3] @ [SigParent, SigChild] @ replicate 15 (ParentMoves 9) @ replicate 25 ChildMoves) = Inr (None, s)
    \<and> shm_main_13 (3 # replicate 255 9) 3 0 True 7 ([ParentMoves 3] @ [SigParent, SigChild] @ replicate 15 (ParentMoves 9) @ replicate 25 ChildMoves) = Inr (None, s)
    \<and> par s = None \<and> chi s = None \<and> \<not> named s"
  by (rule shm_stops) (simp_all add: c_arith shm_left_def cells)

end
