(* ===== verification/Tcp_Calc.thy ===== *)
theory Tcp_Calc
  imports C_Float
begin

text \<open>
  The calculators over TCP of Module 3, Tasks 15 and 18 (\<open>server.c\<close>, \<open>client.c\<close>); the
  function \<open>calculate\<close> of the server of Task 16 is that of Task 15. A client sends a line with
  two numbers and an operator, the server answers with the result. In Task 15 a child
  process serves one client in a loop; in Task 18 one process serves all clients with
  \<open>select\<close>.

  Floating-point numbers are a parameter (theory \<open>C_Float\<close>). Local variables that are never initialised
  are arguments. The calls on sockets return what the arguments say; a read that returns
  nothing means that the client has closed the connection.

  Proved here: what is answered to every kind of line in both servers, that the two agree
  where the answer is short, the table of descriptors of the server of Task 18 and that
  every client gets exactly its own answers; and where the programs go wrong.
\<close>

section \<open>Arithmetic\<close>

definition sum_f :: "'d fp \<Rightarrow> 'd \<Rightarrow> 'd \<Rightarrow> 'd" where
  "sum_f fp a b = fadd fp a b"

definition division :: "'d fp \<Rightarrow> 'd \<Rightarrow> 'd \<Rightarrow> 'd" where
  "division fp a b = (if is_zero fp b then fzero fp else fdiv fp a b)"

definition multiplication :: "'d fp \<Rightarrow> 'd \<Rightarrow> 'd \<Rightarrow> 'd" where
  "multiplication fp a b = fmul fp a b"

definition subtraction :: "'d fp \<Rightarrow> 'd \<Rightarrow> 'd \<Rightarrow> 'd" where
  "subtraction fp a b = fsub fp a b"

type_synonym 'd operation = "string \<times> ('d \<Rightarrow> 'd \<Rightarrow> 'd)"

definition operations :: "'d fp \<Rightarrow> 'd operation list" where
  "operations fp = [(''+'', sum_f fp), (''/'', division fp), (''*'', multiplication fp), (''-'', subtraction fp)]"

section \<open>One line\<close>

text \<open>The local variables of \<open>calculate\<close>; \<open>temp\<close> has two characters.\<close>

record 'd locals =
  loc_a :: 'd
  loc_b :: 'd
  loc_result :: 'd
  loc_temp :: cbuf

definition PROMPT :: string where
  "PROMPT = ''Enter a +-*/ b'' @ [NL]"

definition INCORRECT :: string where
  "INCORRECT = ''Incorrect data'' @ [NL]"

text \<open>\<open>sscanf(buff, "%lf %s %lf", &a, temp, &b)\<close>: the number of variables that were set.\<close>

definition sscanf_abc :: "'d fp \<Rightarrow> string \<Rightarrow> 'd locals \<Rightarrow> (nat \<times> 'd locals) res" where
  "sscanf_abc fp s v =
     (case scan_lf fp s of (None, _) \<Rightarrow> Inr (0, v)
      | (Some a, r) \<Rightarrow>
          (let v = v\<lparr>loc_a := a\<rparr>;
               word = takeWhile (\<lambda>c. \<not> isspace c) (dropWhile isspace r);
               r = dropWhile (\<lambda>c. \<not> isspace c) (dropWhile isspace r)
           in if word = [] then Inr (1, v)
              else bindE (put_str (loc_temp v) word) (\<lambda>t.
                let v = v\<lparr>loc_temp := t\<rparr>
                in case scan_lf fp r of (None, _) \<Rightarrow> Inr (2, v) | (Some b, _) \<Rightarrow> Inr (3, v\<lparr>loc_b := b\<rparr>))))"

text \<open>The loop over the table: the index at which it stopped and the result.\<close>

fun op_loop :: "(string \<Rightarrow> bool) \<Rightarrow> 'd operation list \<Rightarrow> nat \<Rightarrow> 'd \<Rightarrow> 'd \<Rightarrow> 'd \<Rightarrow> nat \<times> 'd" where
  "op_loop same [] i a b result = (i, result)"
| "op_loop same ((name, func) # ops) i a b result =
     (if same name then (i, func a b) else op_loop same ops (Suc i) a b result)"

text \<open>
  The test for a division by zero: \<open>operation[i].name\<close> is read only if the result is zero,
  and \<open>i\<close> is behind the table if no operator matched.
\<close>

definition div_by_zero :: "'d fp \<Rightarrow> nat \<Rightarrow> 'd \<Rightarrow> bool res" where
  "div_by_zero fp i result =
     (if is_zero fp result then bindE (aget (operations fp) (int i)) (\<lambda>(name, func). Inr (name = ''/''))
      else Inr False)"

text \<open>Task 15: the answer to the text \<open>s\<close>. The variables live as long as the connection.\<close>

definition answer_15 :: "'d fp \<Rightarrow> string \<Rightarrow> 'd locals \<Rightarrow> (string \<times> 'd locals) res" where
  "answer_15 fp s v =
     bindE (sscanf_abc fp s v) (\<lambda>(k, v).
     if k < 3 then Inr (INCORRECT, v)
     else bindE (cstr (loc_temp v)) (\<lambda>t.
       let (i, result) = op_loop (\<lambda>name. t = name) (operations fp) 0 (loc_a v) (loc_b v) (loc_result v);
           v = v\<lparr>loc_result := result\<rparr>
       in bindE (div_by_zero fp i result) (\<lambda>z.
         if z then Inr (''You can'' @ [CHR 0x27] @ ''t divide by zero.'' @ [NL], v)
         else Inr (take 1023 (show_lf fp result), v))))"

text \<open>
  Task 18: operators are compared by their first character, and \<open>sizeof(buff)\<close> is the size of a
  pointer.
\<close>

definition SIZEOF_PTR :: nat where
  "SIZEOF_PTR = 8"

definition answer_18 :: "'d fp \<Rightarrow> string \<Rightarrow> 'd locals \<Rightarrow> string res" where
  "answer_18 fp s v =
     bindE (sscanf_abc fp s v) (\<lambda>(k, v).
     if k < 3 then Inr INCORRECT
     else bindE (aget (loc_temp v) 0) (\<lambda>c.
       let (i, result) = op_loop (\<lambda>name. c = hd name) (operations fp) 0 (loc_a v) (loc_b v) (loc_result v)
       in bindE (div_by_zero fp i result) (\<lambda>z.
         if z then Inr (''You can'' @ [CHR 0x27] @ ''t divide by zero'' @ [NL])
         else Inr (take (SIZEOF_PTR - 1) (show_lf fp result)))))"

section \<open>The server of Task 15\<close>

text \<open>
  One round of \<open>calculate\<close>: whether the prompt could be written, what \<open>read\<close> returned
  (\<open>None\<close> for an error), whether the answer could be written.
\<close>

record calc_event =
  prompt_ok :: bool
  got :: "string option"
  answer_ok :: bool

datatype calc_end = Returned | Exited | Waiting

text \<open>Data that is read lands at the start of the buffer; the rest of it stays.\<close>

definition read_into :: "string \<Rightarrow> cbuf \<Rightarrow> cbuf res" where
  "read_into s buff = (if length s \<le> length buff then Inr (s @ drop (length s) buff) else Inl OutOfBounds)"

text \<open>The texts written, every one with its NUL, and how the function ended.\<close>

fun calculate_15 :: "'d fp \<Rightarrow> calc_event list \<Rightarrow> cbuf \<Rightarrow> 'd locals \<Rightarrow> (string list \<times> calc_end) res" where
  "calculate_15 fp [] buff v = Inr ([], Waiting)"
| "calculate_15 fp (e # es) buff v =
     bindE (put_str buff PROMPT) (\<lambda>buff.
     if \<not> prompt_ok e then Inr ([], Exited)
     else (case got e of None \<Rightarrow> Inr ([PROMPT @ [NUL]], Exited)
       | Some s \<Rightarrow> if s = [] then Inr ([PROMPT @ [NUL]], Returned)
           else bindE (read_into s buff) (\<lambda>buff. bindE (cstr buff) (\<lambda>line.
             bindE (answer_15 fp line v) (\<lambda>(t, v).
             bindE (put_str buff t) (\<lambda>buff.
             if \<not> answer_ok e then Inr ([PROMPT @ [NUL]], Exited)
             else bindE (calculate_15 fp es buff v) (\<lambda>(out, r). Inr ((PROMPT @ [NUL]) # (t @ [NUL]) # out, r))))))))"

text \<open>
  \<open>main\<close> up to its end in one of the two processes: the results of the system calls, and what
  the process does with its descriptors. \<open>atoi\<close> reads the second argument of the program.
\<close>

record sys_15 =
  ret_socket :: int
  argv2 :: "string option"
  ret_bind :: int
  ret_listen :: int
  ret_select :: int
  ret_accept :: int
  ret_fork :: int

datatype act = Accept int | Close int | Serve int | Exit int

definition serve_15 :: "sys_15 \<Rightarrow> int \<Rightarrow> act list" where
  "serve_15 y sockfd =
     (if ret_select y < 0 then [Close sockfd, Exit 1]
      else if ret_select y = 0 then [Exit 0]
      else if ret_accept y < 0 then [Close sockfd, Exit 1]
      else let newsockfd = ret_accept y
           in Accept newsockfd #
             (if ret_fork y < 0 then [Close sockfd, Close newsockfd, Exit 1]
              else if ret_fork y = 0 then [Close sockfd, Serve newsockfd, Close newsockfd, Exit 1]
              else [Close newsockfd, Close sockfd, Exit 1]))"

definition main_15 :: "sys_15 \<Rightarrow> act list res" where
  "main_15 y =
     (let sockfd = ret_socket y
      in if sockfd < 0 then Inr [Exit 1]
         else (case argv2 y of None \<Rightarrow> Inl NullDeref
           | Some port \<Rightarrow> bindE (atoi port) (\<lambda>p.
               if ret_bind y \<noteq> 0 then Inr [Close sockfd, Exit 1]
               else if ret_listen y \<noteq> 0 then Inr [Close sockfd, Exit 1]
               else Inr (serve_15 y sockfd))))"

section \<open>The client of Tasks 15 and 18\<close>

text \<open>
  One round of the loop: whether the client leaves, the text it sends, the buffer and the
  console. The comparison meant to cut the newline changes nothing.
\<close>

definition client_round_15 :: "cbuf \<Rightarrow> io \<Rightarrow> (bool \<times> string \<times> cbuf \<times> io) res" where
  "client_round_15 message w =
     bindE (fgets message 1024 w) (\<lambda>(read, message, w).
     bindE (cstr message) (\<lambda>s.
     bindE (if read then bindE (aget message (int (length s) - 1)) (\<lambda>c. Inr ()) else Inr ()) (\<lambda>_.
     Inr (s = ''q'', s, message, if s = ''q'' then printf ''Exit...'' w else w))))"

text \<open>The texts sent in at most \<open>n\<close> rounds, and whether the client left.\<close>

fun client_loop :: "nat \<Rightarrow> cbuf \<Rightarrow> io \<Rightarrow> (string list \<times> bool \<times> cbuf \<times> io) res" where
  "client_loop 0 message w = Inr ([], False, message, w)"
| "client_loop (Suc n) message w =
     bindE (client_round_15 message w) (\<lambda>(quit, s, message, w).
     if quit then Inr ([], True, message, w)
     else bindE (client_loop n message w) (\<lambda>(out, r). Inr (s # out, r)))"

section \<open>The server of Task 18\<close>

record srv =
  fds :: "nat set"
  max_fd :: nat
  sbuff :: cbuf
  sent :: "(nat \<times> string) list"
  closed :: "nat list"

text \<open>
  What the system does in one round: the descriptors \<open>select\<close> reports, the descriptor \<open>accept\<close>
  returns, what \<open>read\<close> returns for a descriptor, whether the answer and the prompt can be
  written to it.
\<close>

record sel =
  ready :: "nat set"
  acc :: "nat option"
  got_from :: "nat \<Rightarrow> string option"
  wr_answer :: "nat \<Rightarrow> bool"
  wr_prompt :: "nat \<Rightarrow> bool"

definition write_fd :: "nat \<Rightarrow> string \<Rightarrow> srv \<Rightarrow> srv" where
  "write_fd i t s = s\<lparr>sent := sent s @ [(i, t @ [NUL])]\<rparr>"

text \<open>\<open>close_sock\<close>: every descriptor of the set from 3 to \<open>max_fd + 1\<close>.\<close>

definition close_sock :: "srv \<Rightarrow> srv" where
  "close_sock s = s\<lparr>closed := closed s @ filter (\<lambda>i. i \<in> fds s) [3..<max_fd s + 2]\<rparr>"

text \<open>
  \<open>calculate\<close> of Task 18 in the buffer \<open>buff\<close>: the answer is put at its start (what is behind
  the answer is cleared by the prompt that follows). \<open>False\<close> stands for \<open>EXIT_FAILURE\<close>. \<open>set_text\<close>
  is a copy with \<open>strncpy\<close>, which clears the rest of the buffer.
\<close>

definition set_text :: "string \<Rightarrow> srv \<Rightarrow> srv res" where
  "set_text t s = bindE (strncpy (sbuff s) (t @ [NUL]) 1024) (\<lambda>b. Inr (s\<lparr>sbuff := b\<rparr>))"

definition calculate_18 :: "'d fp \<Rightarrow> 'd locals \<Rightarrow> bool \<Rightarrow> nat \<Rightarrow> srv \<Rightarrow> (srv \<times> bool) res" where
  "calculate_18 fp v ok i s =
     bindE (cstr (sbuff s)) (\<lambda>line. bindE (answer_18 fp line v) (\<lambda>t.
     bindE (put_str (sbuff s) t) (\<lambda>b.
     let s = s\<lparr>sbuff := b\<rparr>
     in if ok then Inr (write_fd i t s, True) else Inr (s\<lparr>closed := closed s @ [i]\<rparr>, False))))"

text \<open>A new client.\<close>

definition new_client :: "sel \<Rightarrow> nat \<Rightarrow> srv \<Rightarrow> (srv \<times> bool) res" where
  "new_client e sockfd s =
     (case acc e of None \<Rightarrow> Inr (s\<lparr>closed := closed s @ [sockfd]\<rparr>, False)
      | Some n \<Rightarrow> bindE (set_text PROMPT (s\<lparr>fds := insert n (fds s), max_fd := max n (max_fd s)\<rparr>)) (\<lambda>s.
          if wr_prompt e n then Inr (write_fd n PROMPT s, True)
          else Inr (s\<lparr>closed := closed s @ [n]\<rparr>, False)))"

text \<open>A client with something to read.\<close>

definition old_client :: "'d fp \<Rightarrow> 'd locals \<Rightarrow> sel \<Rightarrow> nat \<Rightarrow> srv \<Rightarrow> (srv \<times> bool) res" where
  "old_client fp v e i s =
     (case got_from e i of None \<Rightarrow> Inr (close_sock s, False)
      | Some d \<Rightarrow> if d = [] then Inr (s\<lparr>fds := fds s - {i}, closed := closed s @ [i]\<rparr>, True)
          else bindE (read_into d (sbuff s)) (\<lambda>b.
            bindE (calculate_18 fp v (wr_answer e i) i (s\<lparr>sbuff := b\<rparr>)) (\<lambda>(s, ok).
            if \<not> ok then Inr (close_sock s, False)
            else bindE (set_text PROMPT s) (\<lambda>s.
              if wr_prompt e i then Inr (write_fd i PROMPT s, True) else Inr (close_sock s, False)))))"

text \<open>
  The loop over the descriptors; \<open>v i\<close> is what the locals of \<open>calculate\<close> hold when it is called
  for \<open>i\<close>. A descriptor that is accepted on the way is not among those
  \<open>select\<close> reported, so the loop need not look at it.
\<close>

fun serve_fds :: "'d fp \<Rightarrow> (nat \<Rightarrow> 'd locals) \<Rightarrow> sel \<Rightarrow> nat \<Rightarrow> nat list \<Rightarrow> srv \<Rightarrow> (srv \<times> bool) res" where
  "serve_fds fp v e sockfd [] s = Inr (s, True)"
| "serve_fds fp v e sockfd (i # is) s =
     (if i \<notin> ready e then serve_fds fp v e sockfd is s
      else bindE (if i = sockfd then new_client e sockfd s else old_client fp (v i) e i s) (\<lambda>(s, go).
        if go then serve_fds fp v e sockfd is s else Inr (s, False)))"

text \<open>One round; \<open>None\<close> for the descriptors when \<open>select\<close> fails. \<open>False\<close> ends the server.\<close>

definition round_18 :: "'d fp \<Rightarrow> (nat \<Rightarrow> 'd locals) \<Rightarrow> nat \<Rightarrow> sel option \<Rightarrow> srv \<Rightarrow> (srv \<times> bool) res" where
  "round_18 fp v sockfd sel s =
     (case sel of None \<Rightarrow> Inr (s\<lparr>closed := closed s @ [sockfd]\<rparr>, False)
      | Some e \<Rightarrow> if ready e = {} then Inr (close_sock s, False)
          else serve_fds fp v e sockfd [3..<Suc (max_fd s)] s)"

definition start_18 :: "nat \<Rightarrow> cbuf \<Rightarrow> srv" where
  "start_18 sockfd buff = \<lparr>fds = {sockfd}, max_fd = sockfd, sbuff = buff, sent = [], closed = []\<rparr>"

fun main_18 :: "'d fp \<Rightarrow> nat \<Rightarrow> (sel option \<times> (nat \<Rightarrow> 'd locals)) list \<Rightarrow> srv \<Rightarrow> (srv \<times> bool) res" where
  "main_18 fp sockfd [] s = Inr (s, True)"
| "main_18 fp sockfd ((e, v) # es) s =
     bindE (round_18 fp v sockfd e s) (\<lambda>(s, go). if go then main_18 fp sockfd es s else Inr (s, False))"

section \<open>What should be answered\<close>

text \<open>A line as two numbers with a word between them.\<close>

definition parse_line :: "'d fp \<Rightarrow> string \<Rightarrow> ('d \<times> string \<times> 'd) option" where
  "parse_line fp s =
     (case scan_lf fp s of (None, _) \<Rightarrow> None | (Some a, r) \<Rightarrow>
        let word = takeWhile (\<lambda>c. \<not> isspace c) (dropWhile isspace r)
        in if word = [] then None
           else case scan_lf fp (dropWhile (\<lambda>c. \<not> isspace c) (dropWhile isspace r)) of (None, _) \<Rightarrow> None
             | (Some b, _) \<Rightarrow> Some (a, word, b))"

definition op_value :: "'d fp \<Rightarrow> char \<Rightarrow> 'd \<Rightarrow> 'd \<Rightarrow> 'd option" where
  "op_value fp c a b =
     (if c = CHR ''+'' then Some (fadd fp a b) else if c = CHR ''-'' then Some (fsub fp a b)
      else if c = CHR ''*'' then Some (fmul fp a b)
      else if c = CHR ''/'' then Some (if is_zero fp b then fzero fp else fdiv fp a b) else None)"

text \<open>The place of an operator in the table.\<close>

definition op_index :: "char \<Rightarrow> nat" where
  "op_index c = (if c = CHR ''+'' then 0 else if c = CHR ''/'' then 1 else if c = CHR ''*'' then 2 else 3)"

text \<open>Examples.\<close>

definition sample_locals :: "int locals" where
  "sample_locals = \<lparr>loc_a = 0, loc_b = 0, loc_result = 0, loc_temp = [NUL, NUL]\<rparr>"

definition sample_srv :: srv where
  "sample_srv = \<lparr>fds = {3, 4}, max_fd = 4, sbuff = replicate 1024 NUL, sent = [], closed = []\<rparr>"

definition sample_sel :: sel where
  "sample_sel = \<lparr>ready = {4}, acc = None, got_from = (\<lambda>i. Some (''2 + 3'' @ [NUL])), wr_answer = (\<lambda>_. True),
     wr_prompt = (\<lambda>_. True)\<rparr>"

text \<open>The descriptors of the server of Task 18.\<close>

definition srv_inv :: "nat \<Rightarrow> srv \<Rightarrow> bool" where
  "srv_inv sockfd s = (3 \<le> sockfd \<and> sockfd \<in> fds s \<and> (\<forall>i \<in> fds s. 3 \<le> i \<and> i \<le> max_fd s)
     \<and> length (sbuff s) = 1024)"

text \<open>What the system promises: new descriptors are not those of standard files, and unused.\<close>

definition sel_ok :: "sel \<Rightarrow> srv \<Rightarrow> bool" where
  "sel_ok e s = (ready e \<subseteq> fds s \<and> (\<forall>n. acc e = Some n \<longrightarrow> 3 \<le> n \<and> n \<notin> fds s))"

text \<open>The same for all rounds of a run.\<close>

fun run_ok :: "'d fp \<Rightarrow> nat \<Rightarrow> (sel option \<times> (nat \<Rightarrow> 'd locals)) list \<Rightarrow> srv \<Rightarrow> bool" where
  "run_ok fp sockfd [] s = True"
| "run_ok fp sockfd ((e, v) # es) s =
     ((case e of None \<Rightarrow> True | Some x \<Rightarrow> sel_ok x s)
      \<and> (case round_18 fp v sockfd e s of Inr (s', True) \<Rightarrow> run_ok fp sockfd es s' | _ \<Rightarrow> True))"

text \<open>The answers to a sequence of lines on one connection of Task 15.\<close>

fun answers_15 :: "'d fp \<Rightarrow> string list \<Rightarrow> 'd locals \<Rightarrow> string list res" where
  "answers_15 fp [] v = Inr []"
| "answers_15 fp (l # ls) v =
     bindE (answer_15 fp l v) (\<lambda>(t, v). bindE (answers_15 fp ls v) (\<lambda>ts. Inr (t # ts)))"

text \<open>A line that fits into the client's buffer, and the message it becomes.\<close>

definition good_message :: "string \<Rightarrow> bool" where
  "good_message l = (NL \<notin> set l \<and> NUL \<notin> set l \<and> length l < 1022)"

definition arrives :: "string \<Rightarrow> calc_event" where
  "arrives m = \<lparr>prompt_ok = True, got = Some (m @ [NUL]), answer_ok = True\<rparr>"

section \<open>Lemmas\<close>

subsection \<open>One line\<close>

lemma sscanf_abc_line:
  assumes "parse_line fp s = Some (a, word, b)"
  shows "sscanf_abc fp s v =
    bindE (put_str (loc_temp v) word) (\<lambda>t. Inr (3, v\<lparr>loc_a := a, loc_temp := t, loc_b := b\<rparr>))"
  using assms by (auto simp: parse_line_def sscanf_abc_def Let_def split: option.splits prod.splits if_splits)

lemma sscanf_abc_op:
  assumes "parse_line fp s = Some (a, [c], b)" and "length (loc_temp v) = 2"
  shows "sscanf_abc fp s v = Inr (3, v\<lparr>loc_a := a, loc_temp := [c, NUL], loc_b := b\<rparr>)"
  using sscanf_abc_line [OF assms(1)] assms(2) by (simp add: put_str_def)

lemma sscanf_abc_long:
  assumes "parse_line fp s = Some (a, word, b)" and "length (loc_temp v) = 2" and "2 \<le> length word"
  shows "sscanf_abc fp s v = Inl OutOfBounds"
  using sscanf_abc_line [OF assms(1)] assms(2,3) by (simp add: put_str_def)

lemma op_value_loop:
  "op_loop (\<lambda>name. [c] = name) (operations fp) 0 a b r =
     (case op_value fp c a b of None \<Rightarrow> (4, r)
      | Some x \<Rightarrow> (op_index c, x))"
  "op_loop (\<lambda>name. c = hd name) (operations fp) 0 a b r = op_loop (\<lambda>name. [c] = name) (operations fp) 0 a b r"
  by (auto simp: operations_def op_value_def op_index_def sum_f_def division_def multiplication_def subtraction_def)

lemma div_by_zero_op: "div_by_zero fp (op_index c) x = Inr (c = CHR ''/'' \<and> is_zero fp x)"
  by (auto simp: div_by_zero_def operations_def op_index_def aget_def)

lemma div_by_zero_none: "div_by_zero fp 4 r = (if is_zero fp r then Inl OutOfBounds else Inr False)"
  by (simp add: div_by_zero_def operations_def aget_def)

lemma answer_15_op:
  assumes "parse_line fp s = Some (a, [c], b)" and "length (loc_temp v) = 2" and "c \<noteq> NUL"
  shows "answer_15 fp s v =
    (case op_value fp c a b of
       Some x \<Rightarrow> Inr (if c = CHR ''/'' \<and> is_zero fp x then ''You can'' @ [CHR 0x27] @ ''t divide by zero.'' @ [NL]
           else take 1023 (show_lf fp x),
         v\<lparr>loc_a := a, loc_temp := [c, NUL], loc_b := b, loc_result := x\<rparr>)
     | None \<Rightarrow> if is_zero fp (loc_result v) then Inl OutOfBounds
         else Inr (take 1023 (show_lf fp (loc_result v)), v\<lparr>loc_a := a, loc_temp := [c, NUL], loc_b := b\<rparr>))"
proof -
  let ?v = "v\<lparr>loc_a := a, loc_temp := [c, NUL], loc_b := b\<rparr>"
  have c: "cstr [c, NUL] = Inr [c]" using assms(3) by (simp add: cstr_def)
  show ?thesis
  proof (cases "op_value fp c a b")
    case None
    with c sscanf_abc_op [OF assms(1,2)] show ?thesis
      by (simp add: answer_15_def op_value_loop(1) div_by_zero_none)
  next
    case (Some x)
    with c sscanf_abc_op [OF assms(1,2)] show ?thesis
      by (simp add: answer_15_def op_value_loop(1) div_by_zero_op Let_def)
  qed
qed

lemma answer_18_op:
  assumes "parse_line fp s = Some (a, [c], b)" and "length (loc_temp v) = 2" and "c \<noteq> NUL"
  shows "answer_18 fp s v =
    (case op_value fp c a b of
       Some x \<Rightarrow> Inr (if c = CHR ''/'' \<and> is_zero fp x then ''You can'' @ [CHR 0x27] @ ''t divide by zero'' @ [NL]
           else take 7 (show_lf fp x))
     | None \<Rightarrow> if is_zero fp (loc_result v) then Inl OutOfBounds else Inr (take 7 (show_lf fp (loc_result v))))"
proof (cases "op_value fp c a b")
  case None
  with sscanf_abc_op [OF assms(1,2)] show ?thesis
    by (simp add: answer_18_def aget_def op_value_loop div_by_zero_none SIZEOF_PTR_def)
next
  case (Some x)
  with sscanf_abc_op [OF assms(1,2)] show ?thesis
    by (simp add: answer_18_def aget_def op_value_loop div_by_zero_op SIZEOF_PTR_def)
qed

subsection \<open>The server of Task 18\<close>

lemma cstr_read_into:
  assumes "read_into d buff = Inr b" and "NUL \<in> set d"
  shows "cstr b = cstr d"
  using assms by (auto simp: read_into_def cstr_def takeWhile_append1 split: if_splits)

lemma read_into_length: "read_into d buff = Inr b \<Longrightarrow> length b = length buff"
  by (auto simp: read_into_def split: if_splits)

lemma set_text_keeps:
  "set_text t s = Inr s' \<Longrightarrow> fds s' = fds s \<and> max_fd s' = max_fd s \<and> sent s' = sent s \<and> length (sbuff s') = length (sbuff s)"
  by (auto simp: set_text_def dest: strncpy_eq_Inr)

lemma calculate_18_keeps:
  assumes "calculate_18 fp v ok i s = Inr (s', go)"
  shows "fds s' = fds s \<and> max_fd s' = max_fd s \<and> length (sbuff s') = length (sbuff s) \<and> go = ok
    \<and> (\<exists>line t. cstr (sbuff s) = Inr line \<and> answer_18 fp line v = Inr t
        \<and> sent s' = sent s @ (if ok then [(i, t @ [NUL])] else []))"
  using assms by (auto simp: calculate_18_def Let_def write_fd_def split: if_splits dest!: put_str_length)

lemma close_sock_keeps [simp]:
  "fds (close_sock s) = fds s" "max_fd (close_sock s) = max_fd s" "sent (close_sock s) = sent s"
  "sbuff (close_sock s) = sbuff s"
  by (simp_all add: close_sock_def)

lemma new_client_spec:
  assumes "new_client e sockfd s = Inr (s', go)" and "srv_inv sockfd s" and "\<forall>n. acc e = Some n \<longrightarrow> 3 \<le> n"
  shows "srv_inv sockfd s' \<and> (\<exists>out. sent s' = sent s @ out \<and> (\<forall>x \<in> set out. acc e = Some (fst x)))"
proof (cases "acc e")
  case None
  with assms(1,2) show ?thesis by (auto simp: new_client_def srv_inv_def)
next
  case (Some n)
  let ?s = "s\<lparr>fds := insert n (fds s), max_fd := max n (max_fd s)\<rparr>"
  from Some assms(1) obtain s1 where s1: "set_text PROMPT ?s = Inr s1"
    and s': "s' = (if wr_prompt e n then write_fd n PROMPT s1 else s1\<lparr>closed := closed s1 @ [n]\<rparr>)"
    by (auto simp: new_client_def split: if_splits)
  from set_text_keeps [OF s1] s' assms(2,3) Some show ?thesis by (auto simp: srv_inv_def write_fd_def)
qed

lemma old_client_spec:
  assumes "old_client fp v e i s = Inr (s', go)" and "srv_inv sockfd s" and "i \<noteq> sockfd"
  shows "srv_inv sockfd s' \<and> (\<exists>out. sent s' = sent s @ out \<and> (\<forall>x \<in> set out. fst x = i)
    \<and> (\<forall>d. go \<longrightarrow> got_from e i = Some d \<longrightarrow> NUL \<in> set d \<longrightarrow>
        (\<exists>line t. cstr d = Inr line \<and> answer_18 fp line v = Inr t \<and> out = [(i, t @ [NUL]), (i, PROMPT @ [NUL])])))"
proof (cases "got_from e i")
  case None
  with assms(1,2) show ?thesis by (auto simp: old_client_def srv_inv_def)
next
  case (Some d)
  show ?thesis
  proof (cases "d = []")
    case True
    with Some assms show ?thesis by (auto simp: old_client_def srv_inv_def)
  next
    case False
    with Some assms(1) obtain b s1 ok where
      b: "read_into d (sbuff s) = Inr b" and c: "calculate_18 fp v (wr_answer e i) i (s\<lparr>sbuff := b\<rparr>) = Inr (s1, ok)"
      and r: "(if \<not> ok then Inr (close_sock s1, False) else bindE (set_text PROMPT s1) (\<lambda>s.
          if wr_prompt e i then Inr (write_fd i PROMPT s, True) else Inr (close_sock s, False))) = Inr (s', go)"
      by (auto simp: old_client_def)
    from calculate_18_keeps [OF c] read_into_length [OF b] obtain line t where
      k: "fds s1 = fds s" "max_fd s1 = max_fd s" "length (sbuff s1) = length (sbuff s)" "ok = wr_answer e i"
        "cstr b = Inr line" "answer_18 fp line v = Inr t" "sent s1 = sent s @ (if ok then [(i, t @ [NUL])] else [])"
      by auto
    have d: "cstr d = Inr line" if "NUL \<in> set d" using cstr_read_into [OF b that] k(5) by simp
    show ?thesis
    proof (cases ok)
      case False
      with r k assms(2) show ?thesis by (auto simp: srv_inv_def)
    next
      case True
      with r obtain s2 where s2: "set_text PROMPT s1 = Inr s2"
        and s': "(if wr_prompt e i then (write_fd i PROMPT s2, True) else (close_sock s2, False)) = (s', go)"
        by (auto split: if_splits)
      from set_text_keeps [OF s2] s' k True d Some assms(2) show ?thesis
        by (auto simp: srv_inv_def write_fd_def split: if_splits)
    qed
  qed
qed

lemma handle_spec:
  assumes "(if i = sockfd then new_client e sockfd s else old_client fp v e i s) = Inr (s', go)"
    and "srv_inv sockfd s" and "\<forall>n. acc e = Some n \<longrightarrow> 3 \<le> n"
  shows "srv_inv sockfd s' \<and> (\<exists>out. sent s' = sent s @ out \<and> (\<forall>x \<in> set out. fst x = i \<or> acc e = Some (fst x)))"
proof (cases "i = sockfd")
  case True
  with assms(1) have "new_client e sockfd s = Inr (s', go)" by simp
  from new_client_spec [OF this assms(2,3)] show ?thesis by blast
next
  case False
  with assms(1) have "old_client fp v e i s = Inr (s', go)" by simp
  from old_client_spec [OF this assms(2) False] show ?thesis by auto
qed

lemma serve_fds_spec:
  assumes "serve_fds fp v e sockfd is s = Inr (s', go)" and "srv_inv sockfd s" and "\<forall>n. acc e = Some n \<longrightarrow> 3 \<le> n"
  shows "srv_inv sockfd s' \<and> (\<exists>out. sent s' = sent s @ out \<and> (\<forall>x \<in> set out. fst x \<in> set is \<inter> ready e \<or> acc e = Some (fst x)))"
  using assms(1,2)
proof (induction "is" arbitrary: s)
  case Nil
  then show ?case by simp
next
  case (Cons i "is")
  show ?case
  proof (cases "i \<in> ready e")
    case False
    with Cons show ?thesis by fastforce
  next
    case True
    with Cons.prems(1) obtain s1 g1 where
      s1: "(if i = sockfd then new_client e sockfd s else old_client fp (v i) e i s) = Inr (s1, g1)"
      and r: "(if g1 then serve_fds fp v e sockfd is s1 else Inr (s1, False)) = Inr (s', go)"
      by auto
    from handle_spec [OF s1 Cons.prems(2) assms(3)] obtain out where
      o: "srv_inv sockfd s1" "sent s1 = sent s @ out" "\<forall>x \<in> set out. fst x = i \<or> acc e = Some (fst x)" by blast
    show ?thesis
    proof (cases g1)
      case False
      with r o True show ?thesis by auto
    next
      case g: True
      with r Cons.IH [OF _ o(1)] obtain out' where
        "srv_inv sockfd s'" "sent s' = sent s1 @ out'" "\<forall>x \<in> set out'. fst x \<in> set is \<inter> ready e \<or> acc e = Some (fst x)"
        by auto
      with o True show ?thesis by (auto intro!: exI [of _ "out @ out'"])
    qed
  qed
qed

text \<open>Every client with a line is answered, and only it.\<close>

lemma serve_fds_answers:
  assumes "serve_fds fp v e sockfd is s = Inr (s', True)" and "srv_inv sockfd s"
    and "\<forall>n. acc e = Some n \<longrightarrow> 3 \<le> n" and "distinct is" and "i \<in> set is" and "i \<in> ready e" and "i \<noteq> sockfd"
    and "acc e \<noteq> Some i" and "got_from e i = Some d" and "NUL \<in> set d"
  shows "\<exists>out line t. sent s' = sent s @ out \<and> cstr d = Inr line \<and> answer_18 fp line (v i) = Inr t
    \<and> filter (\<lambda>x. fst x = i) out = [(i, t @ [NUL]), (i, PROMPT @ [NUL])]"
  using assms(1,2,4,5)
proof (induction "is" arbitrary: s)
  case Nil
  then show ?case by simp
next
  case (Cons j "is")
  show ?case
  proof (cases "j \<in> ready e")
    case False
    with Cons assms(6) show ?thesis by auto
  next
    case True
    with Cons.prems(1) obtain s1 g1 where
      s1: "(if j = sockfd then new_client e sockfd s else old_client fp (v j) e j s) = Inr (s1, g1)"
      and r: "(if g1 then serve_fds fp v e sockfd is s1 else Inr (s1, False)) = Inr (s', True)"
      by auto
    from r have g: "g1" and rest: "serve_fds fp v e sockfd is s1 = Inr (s', True)" by (auto split: if_splits)
    show ?thesis
    proof (cases "j = i")
      case True
      with s1 assms(7) g have old: "old_client fp (v i) e i s = Inr (s1, True)" by simp
      from old_client_spec [OF old Cons.prems(2) assms(7)] assms(9,10) obtain line t where
        o: "srv_inv sockfd s1" "cstr d = Inr line" "answer_18 fp line (v i) = Inr t"
          "sent s1 = sent s @ [(i, t @ [NUL]), (i, PROMPT @ [NUL])]" by auto
      from serve_fds_spec [OF rest o(1) assms(3)] obtain out' where
        o': "sent s' = sent s1 @ out'" "\<forall>x \<in> set out'. fst x \<in> set is \<inter> ready e \<or> acc e = Some (fst x)" by blast
      have "filter (\<lambda>x. fst x = i) out' = []"
        using o'(2) Cons.prems(3) True assms(8) by (auto simp: filter_empty_conv)
      with o o'(1) show ?thesis by (auto intro!: exI [of _ "[(i, t @ [NUL]), (i, PROMPT @ [NUL])] @ out'"])
    next
      case False
      from handle_spec [OF s1 Cons.prems(2) assms(3)] obtain out where
        o: "srv_inv sockfd s1" "sent s1 = sent s @ out" "\<forall>x \<in> set out. fst x = j \<or> acc e = Some (fst x)" by blast
      from Cons.IH [OF rest o(1)] Cons.prems(3,4) False obtain out' line t where
        o': "sent s' = sent s1 @ out'" "cstr d = Inr line" "answer_18 fp line (v i) = Inr t"
          "filter (\<lambda>x. fst x = i) out' = [(i, t @ [NUL]), (i, PROMPT @ [NUL])]" by auto
      have "filter (\<lambda>x. fst x = i) out = []"
        using o(3) False assms(8) by (auto simp: filter_empty_conv)
      with o o' show ?thesis by (auto intro!: exI [of _ "out @ out'"])
    qed
  qed
qed

lemma round_18_inv:
  assumes "round_18 fp v sockfd e s = Inr (s', go)" and "srv_inv sockfd s" and "\<forall>x. e = Some x \<longrightarrow> sel_ok x s"
  shows "srv_inv sockfd s'"
proof (cases e)
  case None
  with assms(1,2) show ?thesis by (auto simp: round_18_def srv_inv_def)
next
  case (Some x)
  show ?thesis
  proof (cases "ready x = {}")
    case True
    with Some assms(1,2) show ?thesis by (auto simp: round_18_def srv_inv_def)
  next
    case False
    with Some assms(1) have "serve_fds fp v x sockfd [3..<Suc (max_fd s)] s = Inr (s', go)"
      by (simp add: round_18_def del: upt_Suc)
    from serve_fds_spec [OF this assms(2)] assms(3) Some show ?thesis by (simp add: sel_ok_def)
  qed
qed

subsection \<open>Client and server of Task 15\<close>

lemma client_round_line:
  assumes "stdin w = l @ NL # r" and "good_message l" and "length message = 1024"
  shows "\<exists>m. client_round_15 message w = Inr (False, l @ [NL], m, w\<lparr>stdin := r\<rparr>) \<and> length m = 1024"
proof -
  let ?m = "l @ NL # NUL # drop (Suc (Suc (length l))) message"
  have l: "NL \<notin> set l" "NUL \<notin> set l" "length l < 1022" using assms(2) by (auto simp: good_message_def)
  have f: "fgets message 1024 w = Inr (True, ?m, w\<lparr>stdin := r\<rparr>)"
    using assms(1,3) l by (intro fgets_newline) auto
  have c: "cstr ?m = Inr (l @ [NL])" using l takeWhile_until [of NUL "l @ [NL]"] by (simp add: cstr_def)
  have "NL \<noteq> CHR ''q''" by (simp add: NL_def)
  moreover have "length ?m = 1024" using l(3) assms(3) by simp
  moreover have "aget ?m (int (length (l @ [NL])) - 1) = Inr NL" by (simp add: aget_def)
  ultimately show ?thesis
    using c by (intro exI [of _ ?m]) (simp add: client_round_15_def f)
qed

lemma client_loop_lines:
  "stdin w = concat (map (\<lambda>l. l @ [NL]) ls) @ r \<Longrightarrow> \<forall>l \<in> set ls. good_message l \<Longrightarrow> length message = 1024 \<Longrightarrow>
    \<exists>m. client_loop (length ls) message w = Inr (map (\<lambda>l. l @ [NL]) ls, False, m, w\<lparr>stdin := r\<rparr>)"
proof (induction ls arbitrary: w message)
  case Nil
  then have "w\<lparr>stdin := r\<rparr> = w" by simp
  then show ?case by simp
next
  case (Cons l ls)
  let ?r = "concat (map (\<lambda>l. l @ [NL]) ls) @ r"
  have "stdin w = l @ NL # ?r" "good_message l" using Cons.prems by simp_all
  from client_round_line [OF this Cons.prems(3)] obtain m where
    m: "client_round_15 message w = Inr (False, l @ [NL], m, w\<lparr>stdin := ?r\<rparr>)" "length m = 1024" by blast
  with Cons.IH [of "w\<lparr>stdin := ?r\<rparr>" m] Cons.prems show ?case by auto
qed

lemma client_loop_eof:
  assumes "stdin w = []" and "cstr message = Inr s" and "s \<noteq> ''q''"
  shows "client_loop n message w = Inr (replicate n s, False, message, w)"
proof (induction n)
  case (Suc n)
  with assms show ?case by (simp add: client_round_15_def fgets_def)
qed simp

lemma answer_15_length: "answer_15 fp s v = Inr (t, v') \<Longrightarrow> length t < 1024"
  by (auto simp: answer_15_def INCORRECT_def Let_def split_beta split: if_splits)

lemma calculate_15_lines:
  assumes "answers_15 fp ms v = Inr ts" and "\<forall>m \<in> set ms. NUL \<notin> set m \<and> m \<noteq> [] \<and> length m < 1024" and "length buff = 1024"
  shows "calculate_15 fp (map arrives ms) buff v =
    Inr (concat (map (\<lambda>t. [PROMPT @ [NUL], t @ [NUL]]) ts), Waiting)"
  using assms
proof (induction ms arbitrary: v ts buff)
  case Nil
  then show ?case by auto
next
  case (Cons m ms)
  from Cons.prems(1) obtain t v' ts' where
    t: "answer_15 fp m v = Inr (t, v')" "answers_15 fp ms v' = Inr ts'" "ts = t # ts'" by auto
  obtain b where b: "put_str buff PROMPT = Inr b" using Cons.prems(3) by (simp add: put_str_def PROMPT_def)
  with put_str_length Cons.prems(3) have bl: "length b = 1024" by metis
  let ?b = "(m @ [NUL]) @ drop (length (m @ [NUL])) b"
  have r: "read_into (m @ [NUL]) b = Inr ?b" and rl: "length ?b = 1024"
    using Cons.prems(2) bl by (simp_all add: read_into_def)
  have c: "cstr ?b = Inr m" using Cons.prems(2) takeWhile_until [of NUL m] by (simp add: cstr_def)
  have "length t < length ?b" using answer_15_length [OF t(1)] rl by simp
  then obtain b' where b': "put_str ?b t = Inr b'" by (simp add: put_str_def)
  with put_str_length rl have "length b' = 1024" by metis
  with Cons.IH [OF t(2)] Cons.prems(2) have
    "calculate_15 fp (map arrives ms) b' v' = Inr (concat (map (\<lambda>t. [PROMPT @ [NUL], t @ [NUL]]) ts'), Waiting)" by simp
  with b r c t b' show ?case by (simp add: arrives_def [of m])
qed

section \<open>Properties\<close>

text \<open>
  The client and the server of Task 15 together: the lines typed at the client arrive at
  the server one by one, and the server answers each of them, in order, after its prompt.
\<close>

theorem tcp_session:
  assumes "stdin w = concat (map (\<lambda>l. l @ [NL]) ls)" and "\<forall>l \<in> set ls. good_message l"
    and "length message = 1024" and "length buff = 1024" and "answers_15 fp (map (\<lambda>l. l @ [NL]) ls) v = Inr ts"
  shows "\<exists>ms m w'. client_loop (length ls) message w = Inr (ms, False, m, w')
    \<and> calculate_15 fp (map arrives ms) buff v =
        Inr (concat (map (\<lambda>t. [PROMPT @ [NUL], t @ [NUL]]) ts), Waiting)"
proof -
  have "\<forall>m \<in> set (map (\<lambda>l. l @ [NL]) ls). NUL \<notin> set m \<and> m \<noteq> [] \<and> length m < 1024"
    using assms(2) by (auto simp: good_message_def)
  from calculate_15_lines [OF assms(5) this assms(4)] client_loop_lines [of w ls "[]" message] assms(1-3)
  show ?thesis by auto
qed

theorem tcp_session_witness:
  "\<exists>ms m w'. client_loop (length [''2 + 3'', ''8 / 0'']) (replicate 1024 NUL)
        (console (concat (map (\<lambda>l. l @ [NL]) [''2 + 3'', ''8 / 0'']))) = Inr (ms, False, m, w')
    \<and> calculate_15 int_fp (map arrives ms) (replicate 1024 NUL) sample_locals =
        Inr (concat (map (\<lambda>t. [PROMPT @ [NUL], t @ [NUL]])
          [''5.00'', ''You can'' @ [CHR 0x27] @ ''t divide by zero.'' @ [NL]]), Waiting)"
proof (rule tcp_session)
  show "answers_15 int_fp (map (\<lambda>l. l @ [NL]) [''2 + 3'', ''8 / 0'']) sample_locals =
      Inr [''5.00'', ''You can'' @ [CHR 0x27] @ ''t divide by zero.'' @ [NL]]"
    by code_simp
qed (simp_all add: console_def good_message_def NL_def NUL_def)

text \<open>
  What the server of Task 15 answers to two numbers with a one-character operator: the
  result of the operation; a complaint about a division whose result is zero; and for an
  unknown operator the result of the line before, or a read behind the table when that
  is zero.
\<close>

theorem tcp_calc_answers:
  assumes "parse_line fp s = Some (a, [c], b)" and "length (loc_temp v) = 2" and "c \<noteq> NUL"
  shows "bindE (answer_15 fp s v) (\<lambda>(t, v'). Inr (t, loc_result v')) =
    (case op_value fp c a b of
       Some x \<Rightarrow> Inr (if c = CHR ''/'' \<and> is_zero fp x then ''You can'' @ [CHR 0x27] @ ''t divide by zero.'' @ [NL]
           else take 1023 (show_lf fp x), x)
     | None \<Rightarrow> if is_zero fp (loc_result v) then Inl OutOfBounds
         else Inr (take 1023 (show_lf fp (loc_result v)), loc_result v))"
  using answer_15_op [OF assms] by (simp split: option.split)

theorem tcp_calc_answers_witness:
  "bindE (answer_15 int_fp ''7 * 6'' sample_locals) (\<lambda>(t, v'). Inr (t, loc_result v')) =
    (case op_value int_fp (CHR ''*'') 7 6 of
       Some x \<Rightarrow> Inr (if CHR ''*'' = CHR ''/'' \<and> is_zero int_fp x then ''You can'' @ [CHR 0x27] @ ''t divide by zero.'' @ [NL]
           else take 1023 (show_lf int_fp x), x)
     | None \<Rightarrow> if is_zero int_fp (loc_result sample_locals) then Inl OutOfBounds
         else Inr (take 1023 (show_lf int_fp (loc_result sample_locals)), loc_result sample_locals))"
proof (rule tcp_calc_answers)
  show "parse_line int_fp ''7 * 6'' = Some (7, [CHR ''*''], 6)" by code_simp
qed (simp_all add: sample_locals_def NUL_def)

text \<open>
  C31: The servers of Tasks 15 and 18 compute the same result, but that of Task 18 sends only
  its first seven characters.
\<close>

theorem tcp_servers_agree:
  assumes "parse_line fp s = Some (a, [c], b)" and "length (loc_temp v) = 2" and "length (loc_temp u) = 2" and "c \<noteq> NUL"
    and "op_value fp c a b = Some x" and "c = CHR ''/'' \<longrightarrow> \<not> is_zero fp x"
  shows "\<exists>t v'. answer_15 fp s v = Inr (t, v') \<and> t = take 1023 (show_lf fp x) \<and> answer_18 fp s u = Inr (take 7 t)"
  using answer_15_op [OF assms(1,2,4)] answer_18_op [OF assms(1,3,4)] assms(5,6) by auto

theorem tcp_servers_agree_witness:
  "\<exists>t v'. answer_15 int_fp ''-99 * 99'' sample_locals = Inr (t, v') \<and> t = take 1023 (show_lf int_fp (-9801))
    \<and> answer_18 int_fp ''-99 * 99'' sample_locals = Inr (take 7 t)"
proof (rule tcp_servers_agree)
  show "parse_line int_fp ''-99 * 99'' = Some (-99, [CHR ''*''], 99)" by code_simp
  show "op_value int_fp (CHR ''*'') (-99) 99 = Some (-9801)" by (simp add: op_value_def int_fp_def)
qed (simp_all add: sample_locals_def NUL_def)

text \<open>
  An operator of two or more characters overruns the buffer of the operator in both servers.
\<close>

theorem tcp_operator_overruns:
  assumes "parse_line fp s = Some (a, word, b)" and "2 \<le> length word"
    and "length (loc_temp v) = 2" and "length (loc_temp u) = 2"
  shows "answer_15 fp s v = Inl OutOfBounds \<and> answer_18 fp s u = Inl OutOfBounds"
  using sscanf_abc_long [OF assms(1,3,2)] sscanf_abc_long [OF assms(1,4,2)] by (simp add: answer_15_def answer_18_def)

theorem tcp_operator_overruns_witness:
  "answer_15 int_fp ''2 ** 3'' sample_locals = Inl OutOfBounds \<and> answer_18 int_fp ''2 ** 3'' sample_locals = Inl OutOfBounds"
proof (rule tcp_operator_overruns)
  show "parse_line int_fp ''2 ** 3'' = Some (2, ''**'', 3)" by code_simp
qed (simp_all add: sample_locals_def)

text \<open>
  C9: A round of the server of Task 18 writes to every client with a line exactly the answer to
  this line and a prompt, and nothing to the clients that sent nothing.
\<close>

theorem tcp_round_answers:
  assumes "round_18 fp v sockfd (Some e) s = Inr (s', True)" and "srv_inv sockfd s" and "sel_ok e s" and "i \<noteq> sockfd"
    and "i \<in> fds s" and "i \<in> ready e \<longrightarrow> got_from e i = Some d \<and> NUL \<in> set d"
  shows "\<exists>out. sent s' = sent s @ out \<and> (if i \<in> ready e
    then \<exists>line t. cstr d = Inr line \<and> answer_18 fp line (v i) = Inr t
      \<and> filter (\<lambda>x. fst x = i) out = [(i, t @ [NUL]), (i, PROMPT @ [NUL])]
    else filter (\<lambda>x. fst x = i) out = [])"
proof -
  from assms(1) have sv: "serve_fds fp v e sockfd [3..<Suc (max_fd s)] s = Inr (s', True)"
    by (auto simp: round_18_def simp del: upt_Suc split: if_splits)
  have acc: "\<forall>n. acc e = Some n \<longrightarrow> 3 \<le> n" "acc e \<noteq> Some i" using assms(3,5) by (auto simp: sel_ok_def)
  show ?thesis
  proof (cases "i \<in> ready e")
    case True
    have i: "i \<in> set [3..<Suc (max_fd s)]" using assms(2,5) by (auto simp: srv_inv_def)
    from serve_fds_answers [OF sv assms(2) acc(1) distinct_upt i True assms(4) acc(2)] assms(6) True show ?thesis by auto
  next
    case False
    from serve_fds_spec [OF sv assms(2) acc(1)] obtain out where
      "sent s' = sent s @ out" "\<forall>x \<in> set out. fst x \<in> ready e \<or> acc e = Some (fst x)" by blast
    with False acc(2) show ?thesis by (intro exI [of _ out]) (auto simp: filter_empty_conv)
  qed
qed

theorem tcp_round_answers_witness:
  "\<exists>s' out. round_18 int_fp (\<lambda>_. sample_locals) 3 (Some sample_sel) sample_srv = Inr (s', True)
    \<and> sent s' = sent sample_srv @ out \<and> (if 4 \<in> ready sample_sel
    then \<exists>line t. cstr (''2 + 3'' @ [NUL]) = Inr line \<and> answer_18 int_fp line sample_locals = Inr t
      \<and> filter (\<lambda>x. fst x = 4) out = [(4, t @ [NUL]), (4, PROMPT @ [NUL])]
    else filter (\<lambda>x. fst x = 4) out = [])"
proof -
  let ?b = "''2 + 3'' @ NUL # replicate 1018 NUL"
  have a: "answer_18 int_fp ''2 + 3'' sample_locals = Inr ''5.00''" by code_simp
  have c: "cstr ?b = Inr ''2 + 3''" by (simp add: cstr_def NUL_def)
  have "case round_18 int_fp (\<lambda>_. sample_locals) 3 (Some sample_sel) sample_srv of Inl _ \<Rightarrow> False | Inr (_, go) \<Rightarrow> go"
    using a c by (simp add: round_18_def sample_sel_def sample_srv_def upt_rec old_client_def read_into_def
        calculate_18_def put_str_def set_text_def strncpy_def PROMPT_def write_fd_def del: upt_Suc)
  then obtain s' where r: "round_18 int_fp (\<lambda>_. sample_locals) 3 (Some sample_sel) sample_srv = Inr (s', True)"
    by (auto split: sum.splits)
  show ?thesis
    using tcp_round_answers [OF r, of 4 "''2 + 3'' @ [NUL]"] r
    by (auto simp: srv_inv_def sel_ok_def sample_srv_def sample_sel_def)
qed

text \<open>
  C15: In every run of the server of Task 18 the listening socket stays in the set, and every
  descriptor of the set is between 3 and \<open>max_fd\<close>; so a round looks at all clients.
\<close>

theorem tcp_main_inv:
  assumes "main_18 fp sockfd es (start_18 sockfd buff) = Inr (s, go)" and "3 \<le> sockfd" and "length buff = 1024"
    and "run_ok fp sockfd es (start_18 sockfd buff)"
  shows "srv_inv sockfd s"
proof -
  have "srv_inv sockfd s" if "main_18 fp sockfd es t = Inr (s, go)" "run_ok fp sockfd es t" "srv_inv sockfd t" for t es
    using that
  proof (induction es arbitrary: t)
    case (Cons x es)
    obtain e v where x: "x = (e, v)" by (cases x)
    with Cons.prems(1) obtain t' g where
      r: "round_18 fp v sockfd e t = Inr (t', g)" "(if g then main_18 fp sockfd es t' else Inr (t', False)) = Inr (s, go)" by auto
    from x Cons.prems(2) have "\<forall>y. e = Some y \<longrightarrow> sel_ok y t" by auto
    from round_18_inv [OF r(1) Cons.prems(3) this] have "srv_inv sockfd t'" .
    with r x Cons show ?case by (auto split: if_splits)
  qed simp
  moreover have "srv_inv sockfd (start_18 sockfd buff)" using assms(2,3) by (simp add: srv_inv_def start_18_def)
  ultimately show ?thesis using assms(1,4) by blast
qed

theorem tcp_main_inv_witness:
  "srv_inv 3 \<lparr>fds = {4, 3}, max_fd = 4, sbuff = PROMPT @ replicate 1009 NUL, sent = [(4, PROMPT @ [NUL])], closed = []\<rparr>"
proof (rule tcp_main_inv)
  let ?e = "(Some \<lparr>ready = {3}, acc = Some 4, got_from = (\<lambda>i. None), wr_answer = (\<lambda>_. True), wr_prompt = (\<lambda>_. True)\<rparr>,
      \<lambda>_. sample_locals)"
  show "main_18 int_fp 3 [?e] (start_18 3 (replicate 1024 NUL)) =
      Inr (\<lparr>fds = {4, 3}, max_fd = 4, sbuff = PROMPT @ replicate 1009 NUL, sent = [(4, PROMPT @ [NUL])], closed = []\<rparr>, True)"
    by (simp add: round_18_def start_18_def upt_rec new_client_def set_text_def strncpy_def PROMPT_def write_fd_def NL_def NUL_def
        del: upt_Suc)
  show "run_ok int_fp 3 [?e] (start_18 3 (replicate 1024 NUL))"
    by (auto simp: sel_ok_def start_18_def split: sum.splits bool.splits)
qed simp_all

text \<open>
  The client never leaves on a line that was typed, not even on \<open>q\<close>: the line is sent with its
  newline; and at the end of the input it sends the last line again for ever.
\<close>

theorem tcp_client_never_quits:
  assumes "good_message l" and "length message = 1024" and "stdin w = l @ [NL]"
  shows "\<exists>m w'. client_loop (Suc n) message w = Inr (replicate (Suc n) (l @ [NL]), False, m, w')"
proof -
  let ?m = "l @ NL # NUL # drop (Suc (Suc (length l))) message"
  from assms(3) have in': "stdin w = l @ NL # []" by simp
  from client_round_line [OF in' assms(1,2)] obtain m where
    m: "client_round_15 message w = Inr (False, l @ [NL], m, w\<lparr>stdin := []\<rparr>)" by blast
  then have "cstr m = Inr (l @ [NL])" by (auto simp: client_round_15_def split: if_splits)
  moreover have "l @ [NL] \<noteq> ''q''" by (cases l) (auto simp: NL_def)
  ultimately show ?thesis using m client_loop_eof [of "w\<lparr>stdin := []\<rparr>" m "l @ [NL]" n] by simp
qed

theorem tcp_client_never_quits_witness:
  "\<exists>m w'. client_loop (Suc 2) (replicate 1024 NUL) (console (''q'' @ [NL])) =
    Inr (replicate (Suc 2) (''q'' @ [NL]), False, m, w')"
  by (rule tcp_client_never_quits) (simp_all add: good_message_def console_def NL_def NUL_def)

end
