(* ===== verification/Tcp_Client.thy ===== *)
theory Tcp_Client
  imports Tcp_Calc
begin

text \<open>
  The receiving thread of the clients of Module 3, Tasks 15, 16 and 18 (\<open>recvMessage\<close> in
  \<open>client.c\<close>): it prints what arrives from the server. The server ends every text with a NUL,
  but TCP delivers bytes, not texts: one \<open>read\<close> can return several texts at once. The list
  says what the calls of \<open>read\<close> return, \<open>None\<close> for an error.

  Proved here: of the texts that arrive with one \<open>read\<close> the client prints the first and
  drops the others, so that it shows everything exactly if they arrive one by one.
\<close>

section \<open>The thread\<close>

text \<open>\<open>True\<close> if it still reads, \<open>False\<close> if it has ended the program.\<close>

fun recvMessage :: "string option list \<Rightarrow> cbuf \<Rightarrow> io \<Rightarrow> (bool \<times> io) res" where
  "recvMessage [] mess w = Inr (True, w)"
| "recvMessage (None # ds) mess w = Inr (False, w)"
| "recvMessage (Some d # ds) mess w =
     (if d = [] then Inr (False, w)
      else bindE (read_into d mess) (\<lambda>mess. bindE (cstr mess) (\<lambda>t.
        recvMessage ds mess (printf ([NL] @ ''Server to Client: '' @ t @ [NL]) w))))"

section \<open>Texts and bytes\<close>

definition shown :: "string \<Rightarrow> string" where
  "shown t = [NL] @ ''Server to Client: '' @ t @ [NL]"

definition with_nuls :: "string list \<Rightarrow> string" where
  "with_nuls ts = concat (map (\<lambda>t. t @ [NUL]) ts)"

text \<open>Some texts that fit into the buffer together.\<close>

definition good_group :: "string list \<Rightarrow> bool" where
  "good_group ts = (ts \<noteq> [] \<and> (\<forall>t \<in> set ts. NUL \<notin> set t) \<and> length (with_nuls ts) \<le> 1024)"

section \<open>Lemmas\<close>

lemma read_group:
  assumes "good_group ts" and "length mess = 1024"
  shows "\<exists>b. read_into (with_nuls ts) mess = Inr b \<and> cstr b = Inr (hd ts) \<and> length b = 1024 \<and> with_nuls ts \<noteq> []"
proof -
  from assms(1) obtain t us where ts: "ts = t # us" "NUL \<notin> set t" by (cases ts) (auto simp: good_group_def)
  let ?b = "with_nuls ts @ drop (length (with_nuls ts)) mess"
  have "?b = t @ NUL # (with_nuls us @ drop (length (with_nuls ts)) mess)" by (simp add: ts(1) with_nuls_def)
  with ts(2) have "cstr ?b = Inr t" using takeWhile_until [of NUL t] by (simp add: cstr_def)
  moreover have "read_into (with_nuls ts) mess = Inr ?b" "length ?b = 1024"
    using assms by (simp_all add: read_into_def good_group_def)
  ultimately show ?thesis using ts(1) by (simp add: with_nuls_def)
qed

section \<open>Properties\<close>

text \<open>
  Whatever the server's texts, and however they are grouped into the bytes of single reads,
  the client prints the first text of every group and nothing of the others.
\<close>

theorem tcp_client_shows_first:
  assumes "\<forall>g \<in> set gs. good_group g" and "length mess = 1024"
  shows "recvMessage (map (\<lambda>g. Some (with_nuls g)) gs) mess w = Inr (True, printf (concat (map (\<lambda>g. shown (hd g)) gs)) w)"
  using assms
proof (induction gs arbitrary: mess w)
  case Nil
  then show ?case by (simp add: printf_def)
next
  case (Cons g gs)
  then have "good_group g" by simp
  from read_group [OF this Cons.prems(2)] obtain b where
    "read_into (with_nuls g) mess = Inr b" "cstr b = Inr (hd g)" "length b = 1024" "with_nuls g \<noteq> []" by blast
  with Cons.IH [of b "printf (shown (hd g)) w"] Cons.prems(1) show ?case by (simp add: shown_def printf_def)
qed

theorem tcp_client_shows_first_witness:
  "recvMessage (map (\<lambda>g. Some (with_nuls g)) [[PROMPT], [''5.00'', PROMPT]]) (replicate 1024 NUL) (console [])
    = Inr (True, printf (concat (map (\<lambda>g. shown (hd g)) [[PROMPT], [''5.00'', PROMPT]])) (console []))"
  by (rule tcp_client_shows_first) (simp_all add: good_group_def with_nuls_def PROMPT_def NL_def NUL_def)

end
