(* ===== verification/Byte_Source.thy ===== *)
theory Byte_Source
  imports C_Stdio
begin

text \<open>
  Reading until nothing comes any more: the loop every consumer of a file, a device or a
  socket in the programs runs. The locale \<open>byte_source\<close> states what the provider promises
  about one call, and the consumer's lemma is proved once. The character device of
  Module 5, Lab 4, and the file that is sent in Module 3, Task 16, are its interpretations.
\<close>

text \<open>
  \<open>read_all\<close> calls \<open>rd\<close> with the buffer sizes of the list, one after the other, until a call
  returns no byte; it is out of fuel when the list ends first.
\<close>

fun read_all :: "('s \<Rightarrow> nat \<Rightarrow> (string \<times> 's) res) \<Rightarrow> nat list \<Rightarrow> 's \<Rightarrow> (string \<times> 's) res" where
  "read_all rd [] s = Inl OutOfFuel"
| "read_all rd (n # ns) s =
     bindE (rd s n) (\<lambda>(l, s). if l = [] then Inr ([], s)
       else bindE (read_all rd ns s) (\<lambda>(r, s). Inr (l @ r, s)))"

locale byte_source =
  fixes rd :: "'s \<Rightarrow> nat \<Rightarrow> (string \<times> 's) res"
    and rest :: "'s \<Rightarrow> string"   \<comment> \<open>what is still to be read\<close>
    and invar :: "'s \<Rightarrow> bool"
    and final :: "'s \<Rightarrow> 's"      \<comment> \<open>the state after the call that returns nothing\<close>
  assumes rd_some: "invar s \<Longrightarrow> rest s \<noteq> [] \<Longrightarrow> 0 < n \<Longrightarrow>
      \<exists>l s'. rd s n = Inr (l, s') \<and> l \<noteq> [] \<and> rest s = l @ rest s' \<and> invar s' \<and> final s' = final s"
    and rd_none: "invar s \<Longrightarrow> rest s = [] \<Longrightarrow> 0 < n \<Longrightarrow> rd s n = Inr ([], final s)"
begin

text \<open>Enough calls deliver everything, whatever the sizes of the buffers.\<close>

lemma drain_all:
  assumes "invar s" and "\<forall>n \<in> set ns. 0 < n" and "length (rest s) < length ns"
  shows "read_all rd ns s = Inr (rest s, final s)"
  using assms
proof (induction ns arbitrary: s)
  case Nil
  then show ?case by simp
next
  case (Cons n ns)
  then have n: "0 < n" by simp
  show ?case
  proof (cases "rest s = []")
    case True
    with rd_none [OF Cons.prems(1) _ n] show ?thesis by simp
  next
    case False
    from rd_some [OF Cons.prems(1) False n] obtain l s' where
      l: "rd s n = Inr (l, s')" "l \<noteq> []" "rest s = l @ rest s'" "invar s'" "final s' = final s" by blast
    then have "length (rest s') < length (rest s)" by (cases l) auto
    with Cons.prems(3) have "length (rest s') < length ns" by simp
    with Cons.IH [OF l(4)] Cons.prems(2) have "read_all rd ns s' = Inr (rest s', final s')" by simp
    with l show ?thesis by simp
  qed
qed

end

end
