(* ===== verification/Tcp_Programs.thy ===== *)
theory Tcp_Programs
  imports Tcp_Client Tcp_File Descriptors
begin

text \<open>
  The programs of Module 3, Tasks 15, 16 and 18 from their start to their end: the calls that
  set up the sockets, the client with its two threads, the server of Task 18 around its
  loop, and the two programs of Task 16, whose sockets never reach the functions that use
  them. The results of the system calls and the order in which the threads of the client
  run are arguments. The server of Task 15 is \<open>main_15\<close> in \<open>Tcp_Calc\<close>.

  Proved here: the starts are careful, the threads of the client do not disturb each other,
  what of a session over both programs is answered and shown, the server of Task 18 closes what it
  opened, and the client of Task 16 never gets anything sent.
\<close>

section \<open>The start\<close>

text \<open>
  The client's: \<open>conn a p\<close> is whether the address \<open>a\<close> can be read and port \<open>p\<close> there be reached.
\<close>

definition tcp_connect :: "int \<Rightarrow> string list \<Rightarrow> (string \<Rightarrow> bool) \<Rightarrow> (string \<Rightarrow> 16 word \<Rightarrow> bool) \<Rightarrow> (net_act list \<times> int option) res" where
  "tcp_connect sock argv pton conn =
     (if sock < 0 then Inr ([Ended 1], None)
      else bindE (arg argv 2) (\<lambda>p. bindE (atoi p) (\<lambda>p. bindE (arg argv 1) (\<lambda>a.
        if \<not> pton a then Inr ([Opened sock, Closed sock, Ended 1], None)
        else if \<not> conn a (word_of_int p) then Inr ([Opened sock, Closed sock, Ended 1], None)
        else Inr ([Opened sock], Some sock)))))"

text \<open>The server's, in Task 18.\<close>

definition tcp_listen :: "int \<Rightarrow> string list \<Rightarrow> (16 word \<Rightarrow> bool) \<Rightarrow> bool \<Rightarrow> (net_act list \<times> int option) res" where
  "tcp_listen sock argv bind_ok listen_ok =
     (if sock < 0 then Inr ([Ended 1], None)
      else bindE (arg argv 2) (\<lambda>p. bindE (atoi p) (\<lambda>p.
        if \<not> bind_ok (word_of_int p) then Inr ([Opened sock, Closed sock, Ended 1], None)
        else if \<not> listen_ok then Inr ([Opened sock, Closed sock, Ended 1], None)
        else Inr ([Opened sock], Some sock))))"

section \<open>The client of Tasks 15 and 18\<close>

text \<open>
  The buffers of the two threads, the console they share, the texts sent (the NUL behind each is
  left out), what was done with the socket, and the exit status once there is one.
\<close>

record client_15 =
  message :: cbuf
  mess :: cbuf
  term_io :: io
  sends :: "string list"
  acts :: "net_act list"
  status :: "int option"

text \<open>
  A round of the main thread, with the results of \<open>send\<close>, \<open>pthread_cancel\<close> and \<open>pthread_join\<close>, or
  a round of the receiving thread, with that of \<open>read\<close>.
\<close>

datatype client_event = Types bool bool bool | Hears "string option"

definition leave_15 :: "net_act list \<Rightarrow> int \<Rightarrow> client_15 \<Rightarrow> client_15" where
  "leave_15 as n c = c\<lparr>acts := acts c @ as @ [Ended n], status := Some n\<rparr>"

definition type_15 :: "int \<Rightarrow> bool \<Rightarrow> bool \<Rightarrow> bool \<Rightarrow> client_15 \<Rightarrow> client_15 res" where
  "type_15 sockfd snd_ok cancel_ok join_ok c =
     bindE (client_round_15 (message c) (term_io c)) (\<lambda>(quit, s, b, w).
     let c = c\<lparr>message := b, term_io := w\<rparr>
     in Inr (if quit then
          (if \<not> cancel_ok then leave_15 [] 1 c
           else if \<not> join_ok then leave_15 [] 1 c
           else leave_15 [Closed sockfd] 0 c)
        else if \<not> snd_ok then leave_15 [] 1 c
        else c\<lparr>sends := sends c @ [s]\<rparr>))"

definition hear_15 :: "int \<Rightarrow> string option \<Rightarrow> client_15 \<Rightarrow> client_15 res" where
  "hear_15 sockfd d c =
     (case d of None \<Rightarrow> Inr (leave_15 [Closed sockfd] 1 c)
      | Some d \<Rightarrow> if d = [] then Inr (leave_15 [Closed sockfd] 1 c)
          else bindE (read_into d (mess c)) (\<lambda>b. bindE (cstr b) (\<lambda>t.
            Inr (c\<lparr>mess := b, term_io := printf ([NL] @ ''Server to Client: '' @ t @ [NL]) (term_io c)\<rparr>))))"

definition client_step :: "int \<Rightarrow> client_event \<Rightarrow> client_15 \<Rightarrow> client_15 res" where
  "client_step sockfd e c =
     (if status c \<noteq> None then Inr c
      else case e of Types snd_ok cancel_ok join_ok \<Rightarrow> type_15 sockfd snd_ok cancel_ok join_ok c
        | Hears d \<Rightarrow> hear_15 sockfd d c)"

fun client_run :: "int \<Rightarrow> client_event list \<Rightarrow> client_15 \<Rightarrow> client_15 res" where
  "client_run sockfd [] c = Inr c"
| "client_run sockfd (e # es) c = bindE (client_step sockfd e c) (client_run sockfd es)"

definition start_15 :: "net_act list \<Rightarrow> cbuf \<Rightarrow> cbuf \<Rightarrow> io \<Rightarrow> client_15" where
  "start_15 as b m w = \<lparr>message = b, mess = m, term_io = w, sends = [], acts = as, status = None\<rparr>"

fun is_typing :: "client_event \<Rightarrow> bool" where
  "is_typing (Types a b c) = True"
| "is_typing (Hears d) = False"

text \<open>\<open>main\<close>: without a second thread, the program goes on alone.\<close>

definition client_main_15 :: "int \<Rightarrow> string list \<Rightarrow> (string \<Rightarrow> bool) \<Rightarrow> (string \<Rightarrow> 16 word \<Rightarrow> bool) \<Rightarrow> int \<Rightarrow> client_event list
    \<Rightarrow> cbuf \<Rightarrow> cbuf \<Rightarrow> io \<Rightarrow> client_15 res" where
  "client_main_15 sock argv pton conn ret_create es b m w =
     bindE (tcp_connect sock argv pton conn) (\<lambda>(as, r).
     case r of None \<Rightarrow> Inr ((start_15 as b m w)\<lparr>status := Some 1\<rparr>)
     | Some sockfd \<Rightarrow>
         let as = (if ret_create < 0 then as @ [Closed sockfd] else as);
             es = (if ret_create = 0 then es else filter is_typing es)
         in client_run sockfd es (start_15 as b m w))"

text \<open>The client of Task 18 is the same file.\<close>

definition client_main_18 :: "int \<Rightarrow> string list \<Rightarrow> (string \<Rightarrow> bool) \<Rightarrow> (string \<Rightarrow> 16 word \<Rightarrow> bool) \<Rightarrow> int \<Rightarrow> client_event list
    \<Rightarrow> cbuf \<Rightarrow> cbuf \<Rightarrow> io \<Rightarrow> client_15 res" where
  "client_main_18 = client_main_15"

section \<open>The server of Task 18\<close>

definition timed_out :: "sel option \<Rightarrow> bool" where
  "timed_out e = (case e of None \<Rightarrow> False | Some x \<Rightarrow> ready x = {})"

text \<open>The loop, with the exit status when it ends.\<close>

fun run_18 :: "'d fp \<Rightarrow> nat \<Rightarrow> (sel option \<times> (nat \<Rightarrow> 'd locals)) list \<Rightarrow> srv \<Rightarrow> (srv \<times> int option) res" where
  "run_18 fp sockfd [] s = Inr (s, None)"
| "run_18 fp sockfd ((e, v) # es) s =
     bindE (round_18 fp v sockfd e s) (\<lambda>(s, go).
     if go then run_18 fp sockfd es s else Inr (s, Some (if timed_out e then 0 else 1)))"

text \<open>The actions of the start, and how the loop left the server if it got so far.\<close>

definition server_main_18 :: "'d fp \<Rightarrow> int \<Rightarrow> string list \<Rightarrow> (16 word \<Rightarrow> bool) \<Rightarrow> bool
    \<Rightarrow> (sel option \<times> (nat \<Rightarrow> 'd locals)) list \<Rightarrow> cbuf \<Rightarrow> (net_act list \<times> (srv \<times> int option) option) res" where
  "server_main_18 fp sock argv bind_ok listen_ok es buff =
     bindE (tcp_listen sock argv bind_ok listen_ok) (\<lambda>(as, r).
     case r of None \<Rightarrow> Inr (as, None)
     | Some sockfd \<Rightarrow> bindE (run_18 fp (nat sockfd) es (start_18 (nat sockfd) buff)) (\<lambda>x. Inr (as, Some x)))"

section \<open>Lemmas\<close>

subsection \<open>The start\<close>

interpretation connecting: careful_setup "\<lambda>(sock, argv, pton, conn). tcp_connect sock argv pton conn"
  by unfold_locales (auto simp: tcp_connect_def split: if_splits)

interpretation listening: careful_setup "\<lambda>(sock, argv, bind_ok, listen_ok). tcp_listen sock argv bind_ok listen_ok"
  by unfold_locales (auto simp: tcp_listen_def split: if_splits)

subsection \<open>The client\<close>

lemma hear_group:
  assumes "good_group g" and "length (mess c) = 1024" and "status c = None"
  shows "\<exists>b. client_step fd (Hears (Some (with_nuls g))) c = Inr (c\<lparr>mess := b, term_io := printf (shown (hd g)) (term_io c)\<rparr>)
    \<and> length b = 1024"
proof -
  from read_group [OF assms(1,2)] obtain b where
    "read_into (with_nuls g) (mess c) = Inr b" "cstr b = Inr (hd g)" "length b = 1024" "with_nuls g \<noteq> []" by blast
  then show ?thesis using assms(3) by (intro exI [of _ b]) (simp add: client_step_def hear_15_def shown_def)
qed

lemma type_line:
  assumes "stdin (term_io c) = l @ NL # r" and "good_message l" and "length (message c) = 1024" and "status c = None"
  shows "\<exists>b. client_step fd (Types True k j) c = Inr (c\<lparr>message := b, term_io := (term_io c)\<lparr>stdin := r\<rparr>, sends := sends c @ [l @ [NL]]\<rparr>)
    \<and> length b = 1024"
proof -
  from client_round_line [OF assms(1-3)] obtain b where
    "client_round_15 (message c) (term_io c) = Inr (False, l @ [NL], b, (term_io c)\<lparr>stdin := r\<rparr>)" "length b = 1024" by blast
  then show ?thesis using assms(4) by (intro exI [of _ b]) (simp add: client_step_def type_15_def)
qed

text \<open>Every interleaving of the two threads sends the same texts and shows the same texts.\<close>

lemma client_interleaved:
  assumes "es \<in> shuffles (map (\<lambda>_. Types True k j) ls) (map (\<lambda>g. Hears (Some (with_nuls g))) gs)"
    and "\<forall>l \<in> set ls. good_message l" and "\<forall>g \<in> set gs. good_group g"
    and "length (message c) = 1024" and "length (mess c) = 1024" and "status c = None"
    and "stdin (term_io c) = concat (map (\<lambda>l. l @ [NL]) ls) @ r"
  shows "\<exists>c'. client_run fd es c = Inr c' \<and> sends c' = sends c @ map (\<lambda>l. l @ [NL]) ls
    \<and> stdout (term_io c') = stdout (term_io c) @ concat (map (\<lambda>g. shown (hd g)) gs)
    \<and> stdin (term_io c') = r \<and> acts c' = acts c \<and> status c' = None"
  using assms
proof (induction es arbitrary: ls gs c)
  case Nil
  then show ?case by simp
next
  case (Cons e es)
  consider (types) l ls' where "ls = l # ls'" "e = Types True k j"
      "es \<in> shuffles (map (\<lambda>_. Types True k j) ls') (map (\<lambda>g. Hears (Some (with_nuls g))) gs)"
    | (hears) g gs' where "gs = g # gs'" "e = Hears (Some (with_nuls g))"
      "es \<in> shuffles (map (\<lambda>_. Types True k j) ls) (map (\<lambda>g. Hears (Some (with_nuls g))) gs')"
    using Cons.prems(1) by (cases ls; cases gs) (auto simp: Cons_in_shuffles_iff)
  then show ?case
  proof cases
    case types
    let ?r = "concat (map (\<lambda>l. l @ [NL]) ls') @ r"
    have "stdin (term_io c) = l @ NL # ?r" "good_message l" using Cons.prems types by simp_all
    from type_line [OF this Cons.prems(4,6), of fd k j] obtain b where
      b: "client_step fd e c = Inr (c\<lparr>message := b, term_io := (term_io c)\<lparr>stdin := ?r\<rparr>, sends := sends c @ [l @ [NL]]\<rparr>)"
        "length b = 1024" using types(2) by blast
    from Cons.IH [of ls' gs "c\<lparr>message := b, term_io := (term_io c)\<lparr>stdin := ?r\<rparr>, sends := sends c @ [l @ [NL]]\<rparr>"]
    show ?thesis using b Cons.prems types by simp
  next
    case hears
    have "good_group g" using Cons.prems hears by simp
    from hear_group [OF this Cons.prems(5,6), of fd] obtain b where
      b: "client_step fd e c = Inr (c\<lparr>mess := b, term_io := printf (shown (hd g)) (term_io c)\<rparr>)" "length b = 1024"
      using hears(2) by blast
    from Cons.IH [of ls gs' "c\<lparr>mess := b, term_io := printf (shown (hd g)) (term_io c)\<rparr>"]
    show ?thesis using b Cons.prems hears by (simp add: printf_def)
  qed
qed

text \<open>A read that returns several texts, and what \<open>calculate\<close> makes of it.\<close>

definition reads_group :: "string list \<Rightarrow> calc_event" where
  "reads_group g = \<lparr>prompt_ok = True, got = Some (with_nuls g), answer_ok = True\<rparr>"

lemma calculate_15_groups:
  assumes "answers_15 fp (map hd gs) v = Inr ts" and "\<forall>g \<in> set gs. good_group g" and "length buff = 1024"
  shows "calculate_15 fp (map reads_group gs) buff v = Inr (concat (map (\<lambda>t. [PROMPT @ [NUL], t @ [NUL]]) ts), Waiting)"
  using assms
proof (induction gs arbitrary: v ts buff)
  case (Cons g gs)
  from Cons.prems(1) obtain t v' ts' where
    t: "answer_15 fp (hd g) v = Inr (t, v')" "answers_15 fp (map hd gs) v' = Inr ts'" "ts = t # ts'" by auto
  obtain b where b: "put_str buff PROMPT = Inr b" using Cons.prems(3) by (simp add: put_str_def PROMPT_def)
  with put_str_length Cons.prems(3) have "length b = 1024" by metis
  with read_group [of g b] Cons.prems(2) obtain c where
    c: "read_into (with_nuls g) b = Inr c" "cstr c = Inr (hd g)" "length c = 1024" "with_nuls g \<noteq> []" by auto
  obtain b' where b': "put_str c t = Inr b'" using answer_15_length [OF t(1)] c(3) by (simp add: put_str_def)
  with put_str_length c(3) have "length b' = 1024" by metis
  with Cons.IH [OF t(2)] Cons.prems(2) have
    "calculate_15 fp (map reads_group gs) b' v' = Inr (concat (map (\<lambda>t. [PROMPT @ [NUL], t @ [NUL]]) ts'), Waiting)" by simp
  with b c t b' show ?case by (simp add: reads_group_def [of g])
qed simp

lemma firsts_all: "\<forall>g \<in> set gs. g \<noteq> [] \<Longrightarrow> map hd gs = concat gs \<longleftrightarrow> (\<forall>g \<in> set gs. length g = 1)"
proof (induction gs)
  case (Cons g gs)
  obtain x xs where g: "g = x # xs" using Cons.prems by (cases g) auto
  have long: "length hs \<le> length (concat hs)" if "\<forall>g \<in> set hs. g \<noteq> []" for hs :: "'a list list"
    using that by (induction hs) (auto simp: Suc_le_eq neq_Nil_conv)
  have "map hd gs \<noteq> xs @ concat gs" if "xs \<noteq> []"
  proof
    assume "map hd gs = xs @ concat gs"
    then have "length gs = length xs + length (concat gs)" by (metis length_append length_map)
    with long [of gs] Cons.prems that show False by simp
  qed
  with Cons g show ?case by (cases "xs = []") auto
qed simp

subsection \<open>The server\<close>

lemma close_sock_all:
  assumes "srv_inv sockfd s"
  shows "closed (close_sock s) = closed s @ sorted_list_of_set (fds (close_sock s))"
proof -
  let ?xs = "filter (\<lambda>i. i \<in> fds s) [3..<max_fd s + 2]"
  have "set ?xs = fds s" using assms by (force simp: srv_inv_def)
  moreover have "sorted_list_of_set (set ?xs) = ?xs"
    by (rule sorted_list_of_set.idem_if_sorted_distinct) (simp_all add: sorted_wrt_filter del: upt_Suc)
  ultimately show ?thesis by (simp add: close_sock_def)
qed

text \<open>The loop is that of \<open>main_18\<close>.\<close>

lemma run_18_main:
  "main_18 fp sockfd es s = bindE (run_18 fp sockfd es s) (\<lambda>(s, st). Inr (s, st = None))"
proof (induction es arbitrary: s)
  case (Cons x es)
  obtain e v where x: "x = (e, v)" by (cases x)
  show ?case
  proof (cases "round_18 fp v sockfd e s")
    case (Inr y)
    with x Cons show ?thesis by (cases y) auto
  qed (simp add: x)
qed simp

section \<open>Properties\<close>

text \<open>
  C14: A session of the calculator over both programs of Task 15, for every grouping of the texts into reads, as TCP
  may deliver them: the client that reaches the server sends every line that is typed; the server answers
  the first line of every group that one of its reads returns, with a prompt before each
  answer; the client shows the first text of every group that one of its reads returns; and this is so in whatever
  way the two threads of the client take turns. So every line is answered exactly if no read of the
  server returns two lines, and every prompt and answer is shown exactly if no read of
  the client returns two texts. Each group consists of whole texts and fits into the
  buffer, and no call fails.
\<close>

theorem tcp_program_session:
  assumes "0 \<le> sock" and "argv = [prog, addr, port]" and "atoi port = Inr p" and "pton addr" and "conn addr (word_of_int p)"
    and "stdin w = concat (map (\<lambda>l. l @ [NL]) ls)" and "\<forall>l \<in> set ls. good_message l"
    and "length b = 1024" and "length m = 1024" and "length buff = 1024"
    and "concat heard = map (\<lambda>l. l @ [NL]) ls" and "\<forall>g \<in> set heard. good_group g"
    and "answers_15 fp (map hd heard) v = Inr ts" and "\<forall>t \<in> set ts. NUL \<notin> set t"
    and "concat gs = concat (map (\<lambda>t. [PROMPT, t]) ts)" and "\<forall>g \<in> set gs. good_group g"
    and "es \<in> shuffles (map (\<lambda>_. Types True True True) ls) (map (\<lambda>g. Hears (Some (with_nuls g))) gs)"
  shows "\<exists>c. client_main_15 sock argv pton conn 0 es b m w = Inr c
    \<and> sends c = concat heard
    \<and> calculate_15 fp (map reads_group heard) buff v = Inr (map (\<lambda>t. t @ [NUL]) (concat gs), Waiting)
    \<and> stdout (term_io c) = stdout w @ concat (map shown (map hd gs))
    \<and> (map hd heard = sends c \<longleftrightarrow> (\<forall>g \<in> set heard. length g = 1))
    \<and> (map hd gs = concat (map (\<lambda>t. [PROMPT, t]) ts) \<longleftrightarrow> (\<forall>g \<in> set gs. length g = 1))"
proof -
  let ?c = "start_15 [Opened sock] b m w"
  have c: "length (message ?c) = 1024" "length (mess ?c) = 1024" "status ?c = None"
    "stdin (term_io ?c) = concat (map (\<lambda>l. l @ [NL]) ls) @ []"
    using assms by (simp_all add: start_15_def)
  from client_interleaved [OF assms(17,7,16) c, of sock] obtain c' where
    c': "client_run sock es ?c = Inr c'" "sends c' = map (\<lambda>l. l @ [NL]) ls"
      "stdout (term_io c') = stdout w @ concat (map (\<lambda>g. shown (hd g)) gs)"
    by (auto simp: start_15_def)
  have "client_main_15 sock argv pton conn 0 es b m w = Inr c'"
    using assms(1-5) c'(1) by (simp add: client_main_15_def tcp_connect_def)
  moreover have "calculate_15 fp (map reads_group heard) buff v = Inr (map (\<lambda>t. t @ [NUL]) (concat gs), Waiting)"
    using calculate_15_groups [OF assms(13,12,10)] assms(15) by (simp add: map_concat o_def)
  moreover have "stdout (term_io c') = stdout w @ concat (map shown (map hd gs))" using c'(3) by (simp add: o_def)
  moreover have "\<forall>g \<in> set heard. g \<noteq> []" "\<forall>g \<in> set gs. g \<noteq> []" using assms(12,16) by (auto simp: good_group_def)
  note firsts_all [OF this(1)] firsts_all [OF this(2)]
  ultimately show ?thesis using c'(2) assms(11,15) by (intro exI [of _ c']) simp
qed

text \<open>The server answers two lines one by one, the client reads the first answer together with the second prompt.\<close>

theorem tcp_program_session_witness:
  "\<exists>c. client_main_15 3 [''client'', ''127.0.0.1'', ''5000''] (\<lambda>_. True) (\<lambda>_ p. p = 5000) 0
        [Hears (Some (with_nuls [PROMPT])), Types True True True, Types True True True,
         Hears (Some (with_nuls [''5.00'', PROMPT])), Hears (Some (with_nuls [''42.00'']))]
        (replicate 1024 NUL) (replicate 1024 NUL) (console (''2 + 3'' @ [NL] @ ''7 * 6'' @ [NL])) = Inr c
    \<and> sends c = [''2 + 3'' @ [NL], ''7 * 6'' @ [NL]]
    \<and> calculate_15 int_fp (map reads_group [[''2 + 3'' @ [NL]], [''7 * 6'' @ [NL]]]) (replicate 1024 NUL) sample_locals
        = Inr (map (\<lambda>t. t @ [NUL]) [PROMPT, ''5.00'', PROMPT, ''42.00''], Waiting)
    \<and> stdout (term_io c) = shown PROMPT @ shown ''5.00'' @ shown ''42.00''"
proof -
  let ?heard = "[[''2 + 3'' @ [NL]], [''7 * 6'' @ [NL]]]" and ?gs = "[[PROMPT], [''5.00'', PROMPT], [''42.00'']]"
  have a: "answers_15 int_fp (map hd ?heard) sample_locals = Inr [''5.00'', ''42.00'']" by code_simp
  have p: "atoi ''5000'' = Inr 5000" by code_simp
  have "[Hears (Some (with_nuls [PROMPT])), Types True True True, Types True True True,
         Hears (Some (with_nuls [''5.00'', PROMPT])), Hears (Some (with_nuls [''42.00'']))]
      \<in> shuffles (map (\<lambda>_. Types True True True) [''2 + 3'', ''7 * 6'']) (map (\<lambda>g. Hears (Some (with_nuls g))) ?gs)"
    by (simp add: Cons_in_shuffles_iff)
  note es = this
  have "\<exists>c. client_main_15 3 [''client'', ''127.0.0.1'', ''5000''] (\<lambda>_. True) (\<lambda>_ p. p = 5000) 0
        [Hears (Some (with_nuls [PROMPT])), Types True True True, Types True True True,
         Hears (Some (with_nuls [''5.00'', PROMPT])), Hears (Some (with_nuls [''42.00'']))]
        (replicate 1024 NUL) (replicate 1024 NUL) (console (''2 + 3'' @ [NL] @ ''7 * 6'' @ [NL])) = Inr c
    \<and> sends c = concat ?heard
    \<and> calculate_15 int_fp (map reads_group ?heard) (replicate 1024 NUL) sample_locals = Inr (map (\<lambda>t. t @ [NUL]) (concat ?gs), Waiting)
    \<and> stdout (term_io c) = stdout (console (''2 + 3'' @ [NL] @ ''7 * 6'' @ [NL])) @ concat (map shown (map hd ?gs))
    \<and> (map hd ?heard = sends c \<longleftrightarrow> (\<forall>g \<in> set ?heard. length g = 1))
    \<and> (map hd ?gs = concat (map (\<lambda>t. [PROMPT, t]) [''5.00'', ''42.00'']) \<longleftrightarrow> (\<forall>g \<in> set ?gs. length g = 1))"
    by (rule tcp_program_session [OF _ refl p _ _ _ _ _ _ _ _ _ a _ _ _ es])
      (simp_all add: console_def good_message_def good_group_def with_nuls_def PROMPT_def NL_def NUL_def)
  then obtain c where "client_main_15 3 [''client'', ''127.0.0.1'', ''5000''] (\<lambda>_. True) (\<lambda>_ p. p = 5000) 0
        [Hears (Some (with_nuls [PROMPT])), Types True True True, Types True True True,
         Hears (Some (with_nuls [''5.00'', PROMPT])), Hears (Some (with_nuls [''42.00'']))]
        (replicate 1024 NUL) (replicate 1024 NUL) (console (''2 + 3'' @ [NL] @ ''7 * 6'' @ [NL])) = Inr c"
    "sends c = concat ?heard"
    "calculate_15 int_fp (map reads_group ?heard) (replicate 1024 NUL) sample_locals = Inr (map (\<lambda>t. t @ [NUL]) (concat ?gs), Waiting)"
    "stdout (term_io c) = stdout (console (''2 + 3'' @ [NL] @ ''7 * 6'' @ [NL])) @ concat (map shown (map hd ?gs))" by blast
  then show ?thesis by (intro exI [of _ c]) (simp add: console_def)
qed

text \<open>
  The server of Task 18 that hears nothing for a minute leaves with status 0, and the last thing
  it does is to close its own socket and that of every client it still has, each of them once.
\<close>

theorem tcp_timeout_closes:
  assumes "run_18 fp sockfd es (start_18 sockfd buff) = Inr (s, Some 0)" and "3 \<le> sockfd" and "length buff = 1024"
    and "run_ok fp sockfd es (start_18 sockfd buff)"
  shows "\<exists>xs. closed s = xs @ sorted_list_of_set (fds s) \<and> sockfd \<in> fds s"
proof -
  have "\<exists>xs. closed s = xs @ sorted_list_of_set (fds s) \<and> sockfd \<in> fds s"
    if "run_18 fp sockfd es t = Inr (s, Some 0)" "run_ok fp sockfd es t" "srv_inv sockfd t" for t es
    using that
  proof (induction es arbitrary: t)
    case (Cons x es)
    obtain e v where x: "x = (e, v)" by (cases x)
    with Cons.prems(1) obtain t' g where
      r: "round_18 fp v sockfd e t = Inr (t', g)"
        "(if g then run_18 fp sockfd es t' else Inr (t', Some (if timed_out e then 0 else 1))) = Inr (s, Some 0)" by auto
    from x Cons.prems(2) have ok: "\<forall>y. e = Some y \<longrightarrow> sel_ok y t" by auto
    from round_18_inv [OF r(1) Cons.prems(3) ok] have inv: "srv_inv sockfd t'" .
    show ?case
    proof (cases g)
      case True
      with inv r x Cons show ?thesis by auto
    next
      case False
      with r(2) have t: "timed_out e" "s = t'" by (simp_all split: if_splits)
      then have "s = close_sock t" using r(1) by (simp add: timed_out_def round_18_def split: option.splits)
      with close_sock_all [OF Cons.prems(3)] inv t show ?thesis by (auto simp: srv_inv_def)
    qed
  qed simp
  moreover have "srv_inv sockfd (start_18 sockfd buff)" using assms(2,3) by (simp add: srv_inv_def start_18_def)
  ultimately show ?thesis using assms(1,4) by blast
qed

end
