(* ===== verification/Tcp_Task16.thy ===== *)
theory Tcp_Task16
  imports Tcp_Programs
begin

text \<open>
  The two programs of Module 3, Task 16 (\<open>server.c\<close>, \<open>client.c\<close>) as a whole. In both of them
  \<open>connection\<close> gets the variable for the socket by value, so that the descriptor of the socket it sets
  up is lost when it returns: the client goes on with its global variable, which is 0, the server
  with a local variable that was never set, the argument \<open>local_sockfd\<close>. The server's
  \<open>connection\<close> fills in a variable \<open>server_addr\<close> that is not declared; it is read as \<open>servaddr\<close>.

  Proved here: the client never sends anything, and the server leaves the socket it listens on
  open and never looks at it.
\<close>

section \<open>The client\<close>

definition connection_16c :: "int \<Rightarrow> (string \<Rightarrow> bool) \<Rightarrow> (string \<Rightarrow> 16 word \<Rightarrow> bool) \<Rightarrow> net_act list \<times> int option" where
  "connection_16c sock pton conn =
     (if sock < 0 then ([Ended 1], None)
      else if \<not> pton ''127.0.0.1'' then ([Opened sock, Closed sock, Ended 1], None)
      else if \<not> conn ''127.0.0.1'' 1510 then ([Opened sock, Closed sock, Ended 1], None)
      else ([Opened sock], Some sock))"

text \<open>
  \<open>calculate\<close> with the global variable: the loop is, line by line, that of the client of Task 15; a
  failing \<open>pthread_create\<close> ends the program.
\<close>

definition calculate_16c :: "int \<Rightarrow> int \<Rightarrow> client_event list \<Rightarrow> client_15 \<Rightarrow> client_15 res" where
  "calculate_16c sockfd ret_create es c =
     (if ret_create < 0 then Inr (leave_15 [Closed sockfd] 1 c)
      else client_run sockfd (if ret_create = 0 then es else filter is_typing es) c)"

text \<open>The four bytes of an \<open>int\<close>.\<close>

definition int_bytes :: "int \<Rightarrow> string" where
  "int_bytes x = map (\<lambda>k. char_of (nat (x div 256 ^ k mod 256))) [0, 1, 2, 3]"

text \<open>
  \<open>main\<close> from the menu on: \<open>snd_ok d\<close> is the number of bytes \<open>send\<close> takes of \<open>d\<close>, \<open>None\<close> for an error.
\<close>

definition choose_16c :: "int \<Rightarrow> (string \<Rightarrow> nat option) \<Rightarrow> (string \<Rightarrow> string option) \<Rightarrow> int \<Rightarrow> client_event list \<Rightarrow> int \<Rightarrow> cbuf
    \<Rightarrow> client_15 \<Rightarrow> client_15 res" where
  "choose_16c sockfd snd_ok fs ret_create es choice path c =
     bindE (scanf_d choice (printf (''Choose operation:'' @ [NL] @ '' 1 - Calculator'' @ [NL] @ '' 2 - Send File'' @ [NL]) (term_io c)))
       (\<lambda>(choice, w).
     let c = c\<lparr>term_io := w\<rparr>
     in case snd_ok (int_bytes choice) of None \<Rightarrow> Inr (leave_15 [Closed sockfd] 1 c)
        | Some k \<Rightarrow>
          let c = c\<lparr>sends := sends c @ [take k (int_bytes choice)]\<rparr>
          in case client_switch choice of
               Calculates \<Rightarrow> bindE (calculate_16c sockfd ret_create es c) (\<lambda>c. Inr c)
             | TransfersFile \<Rightarrow> bindE (sendFile fs snd_ok path w) (\<lambda>(d, returned, w).
                 let c = c\<lparr>term_io := w, sends := sends c @ [d]\<rparr>
                 in Inr (if returned then leave_15 [] 0 c else leave_15 [Closed sockfd] 1 c))
             | Leaves \<Rightarrow> Inr (leave_15 [Closed sockfd] 0 c))"

text \<open>The global variable \<open>sockfd\<close> is 0; \<open>snd fd d\<close> is the result of \<open>send\<close> on a descriptor.\<close>

definition client_main_16 :: "int \<Rightarrow> (string \<Rightarrow> bool) \<Rightarrow> (string \<Rightarrow> 16 word \<Rightarrow> bool) \<Rightarrow> (int \<Rightarrow> string \<Rightarrow> nat option)
    \<Rightarrow> (string \<Rightarrow> string option) \<Rightarrow> int \<Rightarrow> client_event list \<Rightarrow> int \<Rightarrow> cbuf \<Rightarrow> cbuf \<Rightarrow> cbuf \<Rightarrow> io \<Rightarrow> client_15 res" where
  "client_main_16 sock pton conn snd_ok fs ret_create es choice path b m w =
     (case connection_16c sock pton conn of
        (as, None) \<Rightarrow> Inr ((start_15 as b m w)\<lparr>status := Some 1\<rparr>)
      | (as, Some _) \<Rightarrow> let sockfd = 0 in choose_16c sockfd (snd_ok sockfd) fs ret_create es choice path (start_15 as b m w))"

section \<open>The server\<close>

definition connection_16s :: "sys_15 \<Rightarrow> net_act list \<times> int option" where
  "connection_16s y =
     (let sockfd = ret_socket y
      in if sockfd < 0 then ([Ended 1], None)
         else if ret_bind y < 0 then ([Opened sockfd, Closed sockfd, Ended 1], None)
         else if ret_listen y < 0 then ([Opened sockfd, Closed sockfd, Ended 1], None)
         else ([Opened sockfd], Some sockfd))"

text \<open>What the child process did for its client.\<close>

datatype service = Stored "string \<times> string" | Refused | Calculated "string list" | Nothing

text \<open>
  The child: \<open>choice\<close> is what \<open>recv\<close> delivers, \<open>None\<close> for an error or the end; \<open>recvs\<close> are the results of the
  calls of \<open>recv\<close> in \<open>recv_file\<close>. The actions end with the end of the process, unless it still waits for its client.
\<close>

definition child_16 :: "'d fp \<Rightarrow> (string \<Rightarrow> bool) \<Rightarrow> int option \<Rightarrow> cbuf \<Rightarrow> string list \<Rightarrow> calc_event list \<Rightarrow> cbuf \<Rightarrow> 'd locals
    \<Rightarrow> int \<Rightarrow> int \<Rightarrow> (net_act list \<times> service) res" where
  "child_16 fp fopen_ok choice path recvs es buff v sockfd newsockfd =
     (case choice of None \<Rightarrow> Inr ([Closed sockfd, Closed newsockfd, Ended 1], Nothing)
      | Some choice \<Rightarrow> (case server_switch choice of
          TransfersFile \<Rightarrow> bindE (recv_file fopen_ok path recvs) (\<lambda>r. Inr (case r of
              None \<Rightarrow> ([Closed sockfd, Closed newsockfd, Ended 1], Refused)
            | Some f \<Rightarrow> ([Closed sockfd, Closed newsockfd, Ended 0], Stored f)))
        | Calculates \<Rightarrow> bindE (calculate_16 fp es buff v) (\<lambda>(ts, e). Inr (case e of
              Returned \<Rightarrow> ([Closed sockfd, Closed newsockfd, Ended 0], Calculated ts)
            | Exited \<Rightarrow> ([Closed sockfd, Closed newsockfd, Ended 1], Calculated ts)
            | Waiting \<Rightarrow> ([Closed sockfd], Calculated ts)))
        | Leaves \<Rightarrow> Inr ([Closed sockfd, Closed newsockfd, Ended 0], Nothing)))"

text \<open>The loop of \<open>main\<close>, which every branch leaves in its first round.\<close>

definition serve_16 :: "sys_15 \<Rightarrow> int \<Rightarrow> (int \<Rightarrow> int \<Rightarrow> (net_act list \<times> service) res) \<Rightarrow> (net_act list \<times> service) res" where
  "serve_16 y sockfd child =
     (if ret_select y < 0 then Inr ([Closed sockfd, Ended 1], Nothing)
      else if ret_select y = 0 then Inr ([Ended 0], Nothing)
      else if ret_accept y < 0 then Inr ([Closed sockfd, Ended 1], Nothing)
      else let newsockfd = ret_accept y
           in if ret_fork y < 0 then Inr ([Opened newsockfd, Closed sockfd, Closed newsockfd, Ended 1], Nothing)
              else if ret_fork y = 0 then bindE (child sockfd newsockfd) (\<lambda>(as, r). Inr (Opened newsockfd # as, r))
              else Inr ([Opened newsockfd, Closed newsockfd, Closed sockfd, Ended 1], Nothing))"

text \<open>\<open>FD_SET\<close> writes outside the set for numbers that are no descriptors of a set.\<close>

definition FD_SETSIZE :: int where
  "FD_SETSIZE = 1024"

definition main_16 :: "sys_15 \<Rightarrow> int \<Rightarrow> (int \<Rightarrow> int \<Rightarrow> (net_act list \<times> service) res) \<Rightarrow> (net_act list \<times> service) res" where
  "main_16 y local_sockfd child =
     (case connection_16s y of (as, None) \<Rightarrow> Inr (as, Nothing)
      | (as, Some _) \<Rightarrow>
          if local_sockfd < 0 \<or> FD_SETSIZE \<le> local_sockfd then Inl OutOfBounds
          else bindE (serve_16 y local_sockfd child) (\<lambda>(bs, r). Inr (as @ bs, r)))"

section \<open>Lemmas\<close>

interpretation client_start_16: careful_setup "\<lambda>(sock, pton, conn). Inr (connection_16c sock pton conn)"
  by unfold_locales (auto simp: connection_16c_def split: if_splits)

interpretation server_start_16: careful_setup "\<lambda>y. Inr (connection_16s y)"
  by unfold_locales (auto simp: connection_16s_def Let_def split: if_splits)

lemma stays_open:
  assumes "fd \<in> set (open_fds as)" and "Closed fd \<notin> set bs"
  shows "fd \<in> set (open_fds (as @ bs))"
  using assms(2)
proof (induction bs rule: rev_induct)
  case (snoc b bs)
  then have "fd \<in> set (open_fds (as @ bs))" "b \<noteq> Closed fd" by auto
  then show ?case by (cases b) (auto simp: append_assoc [symmetric] simp del: append_assoc)
qed (simp add: assms(1))

lemma child_16_closes:
  "child_16 fp fopen_ok choice path recvs es buff v sockfd newsockfd = Inr (as, r) \<Longrightarrow> Closed fd \<in> set as \<Longrightarrow> fd = sockfd \<or> fd = newsockfd"
  by (auto simp: child_16_def split: option.splits activity.splits calc_end.splits) (metis calc_end.exhaust)

lemma serve_16_closes:
  assumes "serve_16 y sockfd (child_16 fp fopen_ok choice path recvs es buff v) = Inr (as, r)" and "Closed fd \<in> set as"
  shows "fd = sockfd \<or> fd = ret_accept y"
  using assms child_16_closes by (fastforce simp: serve_16_def Let_def split: if_splits)

section \<open>Properties\<close>

text \<open>
  C40: The client of Task 16 never sends anything: descriptor 0 is not a socket, so that \<open>send\<close> fails on it, and the
  client leaves with status 1 whatever was typed; the connection it has made stays open.
\<close>

theorem tcp_client_16_sends_nothing:
  assumes "\<forall>d. snd_ok 0 d = None" and "client_main_16 sock pton conn snd_ok fs ret_create es choice path b m w = Inr c"
    and "0 < sock"
  shows "sends c = [] \<and> status c = Some 1
    \<and> open_fds (acts c) = (if pton ''127.0.0.1'' \<and> conn ''127.0.0.1'' 1510 then [sock] else [])"
proof (cases "pton ''127.0.0.1'' \<and> conn ''127.0.0.1'' 1510")
  case True
  with assms show ?thesis
    by (auto simp: client_main_16_def connection_16c_def choose_16c_def leave_15_def start_15_def open_fds_def)
next
  case False
  with assms(2,3) show ?thesis by (cases "pton ''127.0.0.1''") (auto simp: client_main_16_def connection_16c_def start_15_def)
qed

theorem tcp_client_16_sends_nothing_witness:
  "\<exists>c. client_main_16 3 (\<lambda>_. True) (\<lambda>_ _. True) (\<lambda>_ _. None) (\<lambda>_. None) 0 [] 0 [] [] [] (console ''2'') = Inr c
    \<and> sends c = [] \<and> status c = Some 1 \<and> open_fds (acts c) = [3]"
proof -
  have "is_ok (client_main_16 3 (\<lambda>_. True) (\<lambda>_ _. True) (\<lambda>_ _. None) (\<lambda>_. None) 0 [] 0 [] [] [] (console ''2''))" by code_simp
  then obtain c where c: "client_main_16 3 (\<lambda>_. True) (\<lambda>_ _. True) (\<lambda>_ _. None) (\<lambda>_. None) 0 [] 0 [] [] [] (console ''2'') = Inr c"
    by (auto simp: is_ok_iff)
  from tcp_client_16_sends_nothing [OF _ c] c show ?thesis by simp
qed

text \<open>
  The socket the server of Task 16 listens on is lost: unless the variable that was never set happens to hold its
  number, no process of the server accepts anything from it or closes it.
\<close>

theorem tcp_server_16_socket_lost:
  assumes "main_16 y local_sockfd (child_16 fp fopen_ok choice path recvs es buff v) = Inr (as, r)"
    and "0 \<le> ret_socket y" and "0 \<le> ret_bind y" and "0 \<le> ret_listen y"
    and "local_sockfd \<noteq> ret_socket y" and "ret_accept y \<noteq> ret_socket y"
  shows "ret_socket y \<in> set (open_fds as)"
proof -
  from assms obtain bs where bs: "serve_16 y local_sockfd (child_16 fp fopen_ok choice path recvs es buff v) = Inr (bs, r)"
    "as = [Opened (ret_socket y)] @ bs"
    by (auto simp: main_16_def connection_16s_def Let_def split: if_splits)
  have "ret_socket y \<in> set (open_fds [Opened (ret_socket y)])" by (simp add: open_fds_def)
  moreover have "Closed (ret_socket y) \<notin> set bs" using serve_16_closes [OF bs(1)] assms(5,6) by metis
  ultimately show ?thesis unfolding bs(2) by (rule stays_open)
qed

end
