(* ===== verification/Udp_Chat.thy ===== *)
theory Udp_Chat
  imports Raw_Udp
begin

unbundle bit_operations_syntax

text \<open>
  The chat over UDP of Module 3, Task 14 (\<open>client.c\<close>, \<open>server.c\<close>; Task 17 has the same two
  files) and the sniffer of Task 17 (\<open>raw.c\<close>) that records what the server sends. The loops are
  modelled datagram by datagram; a datagram is its text with the address it goes to or
  comes from, \<open>None\<close> stands for a call of \<open>recvfrom\<close> that fails. Addresses are an IP address in
  network order and a port. The programs as a whole are in \<open>Udp_Programs\<close>.

  Proved here: a line typed at the client is shown by the server, a datagram that fills the
  buffer overruns it, the server never answers the client, and what the sniffer records of
  a text.
\<close>

section \<open>The chat\<close>

type_synonym addr = "32 word \<times> 16 word"

definition ZERO_ADDR :: addr where
  "ZERO_ADDR = (0, 0)"

definition UDP_PORT :: "16 word" where
  "UDP_PORT = 8080"

definition EXIT_LINE :: string where
  "EXIT_LINE = ''exit'' @ [NL]"

text \<open>\<open>recvfrom\<close> into the buffer, and the NUL that is put behind the text.\<close>

definition recv_text :: "string option \<Rightarrow> cbuf \<Rightarrow> cbuf res" where
  "recv_text datagram buf =
     (case datagram of None \<Rightarrow> aset buf (- 1) NUL
      | Some d \<Rightarrow> let d = take BUFFER_SIZE d in aset (d @ drop (length d) buf) (int (length d)) NUL)"

record udp_client =
  ubuf :: cbuf
  clientvaddr :: addr
  uio :: io

text \<open>The first half of the client's round: the datagram it sends, and whether it leaves.\<close>

definition udp_client_send :: "udp_client \<Rightarrow> ((addr \<times> string) \<times> bool \<times> udp_client) res" where
  "udp_client_send c =
     bindE (fgets (ubuf c) BUFFER_SIZE (printf ''Clien: '' (uio c))) (\<lambda>(_, b, w).
     bindE (cstr b) (\<lambda>s.
     Inr ((clientvaddr c, s), s = EXIT_LINE,
       c\<lparr>ubuf := b, uio := if s = EXIT_LINE then printf ''Client end chat.'' w else w\<rparr>)))"

text \<open>The second half: the sender's address replaces the server's.\<close>

definition udp_client_recv :: "(addr \<times> string) option \<Rightarrow> udp_client \<Rightarrow> udp_client res" where
  "udp_client_recv datagram c =
     bindE (recv_text (map_option snd datagram) (ubuf c)) (\<lambda>b.
     bindE (cstr b) (\<lambda>s.
     Inr (c\<lparr>ubuf := b, clientvaddr := (case datagram of None \<Rightarrow> clientvaddr c | Some (a, _) \<Rightarrow> a),
       uio := printf (''Server: '' @ s) (uio c)\<rparr>)))"

record udp_server =
  srv_buf :: cbuf
  servaddr :: addr
  clientaddr :: addr
  srv_io :: io

definition udp_server_start :: "cbuf \<Rightarrow> io \<Rightarrow> udp_server" where
  "udp_server_start buf w = \<lparr>srv_buf = buf, servaddr = (0, UDP_PORT), clientaddr = ZERO_ADDR,
     srv_io = printf (''Server started.'' @ [NL]) w\<rparr>"

text \<open>A round of the server: the datagram it sends, or \<open>None\<close> if it leaves.\<close>

definition udp_server_round :: "(addr \<times> string) option \<Rightarrow> udp_server \<Rightarrow> ((addr \<times> string) option \<times> udp_server) res" where
  "udp_server_round datagram s =
     bindE (recv_text (map_option snd datagram) (srv_buf s)) (\<lambda>b.
     bindE (cstr b) (\<lambda>t.
     let s = s\<lparr>srv_buf := b, servaddr := (case datagram of None \<Rightarrow> servaddr s | Some (a, _) \<Rightarrow> a),
               srv_io := printf (''Server: '' @ t) (srv_io s)\<rparr>
     in if t = EXIT_LINE then Inr (None, s\<lparr>srv_io := printf ''Server end chat.'' (srv_io s)\<rparr>)
        else bindE (fgets (srv_buf s) BUFFER_SIZE (printf ''Server: '' (srv_io s))) (\<lambda>(_, b, w).
          bindE (cstr b) (\<lambda>r. Inr (Some (clientaddr s, r), s\<lparr>srv_buf := b, srv_io := w\<rparr>)))))"

fun udp_server_rounds :: "(addr \<times> string) option list \<Rightarrow> udp_server \<Rightarrow> ((addr \<times> string) list \<times> udp_server) res" where
  "udp_server_rounds [] s = Inr ([], s)"
| "udp_server_rounds (d # ds) s =
     bindE (udp_server_round d s) (\<lambda>(r, s). case r of None \<Rightarrow> Inr ([], s)
       | Some x \<Rightarrow> bindE (udp_server_rounds ds s) (\<lambda>(xs, s). Inr (x # xs, s)))"

section \<open>The sniffer\<close>

text \<open>The bytes \<open>recvfrom\<close> asks for: two headers and 1000 bytes.\<close>

definition RAW_LEN :: nat where
  "RAW_LEN = 20 + 8 + 1000"

definition load8 :: "byte list \<Rightarrow> nat \<Rightarrow> byte res" where
  "load8 b i = (if i < length b then Inr (b ! i) else Inl OutOfBounds)"

text \<open>
  The text of a packet, without the four bytes behind the UDP header, goes to the end of
  \<open>file.bin\<close>; \<open>wr\<close> is the number of bytes \<open>write\<close> takes, \<open>None\<close> for an error.
\<close>

definition record_data :: "bool \<Rightarrow> (string \<Rightarrow> nat option) \<Rightarrow> string \<Rightarrow> string \<times> io \<Rightarrow> string \<times> io" where
  "record_data open_ok wr s = (\<lambda>(bin, w).
     if s = [] then (bin, printf (''No data in packet'' @ [NL]) w)
     else let w = printf (''Data: '' @ s @ [NL]) w
       in if \<not> open_ok then (bin, printf (''Error: File cannot be opened for writing'' @ [NL]) w)
          else (case wr s of None \<Rightarrow> (bin, w) | Some k \<Rightarrow> (bin @ take k s, w)))"

definition handlePacket :: "bool \<Rightarrow> (string \<Rightarrow> nat option) \<Rightarrow> byte list \<Rightarrow> nat \<Rightarrow> string \<times> io \<Rightarrow> (string \<times> io) res" where
  "handlePacket open_ok wr buffer n = (\<lambda>(bin, w).
     bindE (load8 buffer 0) (\<lambda>vhl.
     let ihl = 4 * unat (vhl AND 0x0F) in
     if n < 20 + 8 + 4 then Inr (bin, printf (''Packet too short'' @ [NL]) w)
     else bindE (load32 buffer 12) (\<lambda>saddr.
       if saddr \<noteq> LOOPBACK then Inr (bin, w)
       else bindE (load16 buffer ihl) (\<lambda>source.
         if source \<noteq> htons UDP_PORT then Inr (bin, w)
         else bindE (load32 buffer 16) (\<lambda>daddr. bindE (load16 buffer (ihl + 2)) (\<lambda>dest.
           let w = printf ([NL] @ ''Received packet: '' @ [NL] @ ''Source IP: '' @ inet_ntoa saddr @ [NL]
             @ ''Destination IP: '' @ inet_ntoa daddr @ [NL] @ ''Source Port: '' @ show_nat (unat (ntohs source)) @ [NL]
             @ ''Destination Port: '' @ show_nat (unat (ntohs dest)) @ [NL]
             @ ''Data Size: '' @ show_int (int n - int ihl - 12) @ '' bytes'' @ [NL]) w
           in bindE (cstr (chars_of (drop (ihl + 12) buffer))) (\<lambda>s. Inr (record_data open_ok wr s (bin, w)))))))))"

text \<open>One packet after the other; the buffer is cleared after each of them.\<close>

fun raw_loop :: "bool \<Rightarrow> (string \<Rightarrow> nat option) \<Rightarrow> byte list option list \<Rightarrow> byte list \<Rightarrow> string \<times> io \<Rightarrow> (string \<times> io) res" where
  "raw_loop open_ok wr [] buffer st = Inr st"
| "raw_loop open_ok wr (None # ps) buffer st = Inr st"
| "raw_loop open_ok wr (Some p # ps) buffer st =
     (let p = take RAW_LEN p
      in if p = [] then Inr st
         else bindE (poke buffer 0 p) (\<lambda>buffer.
           bindE (handlePacket open_ok wr buffer (length p) st) (\<lambda>st.
           bindE (poke buffer 0 (replicate RAW_LEN 0)) (\<lambda>buffer.
           raw_loop open_ok wr ps buffer st))))"

text \<open>
  \<open>main\<close>: the variable gets the result of the comparison, not the descriptor; \<open>recv fd\<close> are
  the packets that can be received from a descriptor. The result is \<open>None\<close> when the program leaves at once.
\<close>

definition raw_main :: "bool \<Rightarrow> (string \<Rightarrow> nat option) \<Rightarrow> int \<Rightarrow> (int \<Rightarrow> byte list option list) \<Rightarrow> byte list
    \<Rightarrow> string \<times> io \<Rightarrow> (string \<times> io) option res" where
  "raw_main open_ok wr ret_socket recv buffer st =
     (let sockfd = (if ret_socket < 0 then 1 else 0)
      in if sockfd \<noteq> 0 then Inr None
         else bindE (raw_loop open_ok wr (recv sockfd) buffer st) (\<lambda>st. Inr (Some st)))"

section \<open>Examples\<close>

definition sample_client :: "string \<Rightarrow> udp_client" where
  "sample_client s = \<lparr>ubuf = replicate BUFFER_SIZE NUL, clientvaddr = (0, UDP_PORT), uio = console s\<rparr>"

section \<open>Lemmas\<close>

lemma recv_text_ok:
  assumes "length buf = BUFFER_SIZE"
  shows "recv_text (Some d) buf =
    (if length d < BUFFER_SIZE then Inr (d @ NUL # drop (Suc (length d)) buf) else Inl OutOfBounds)"
proof (cases "length d < BUFFER_SIZE")
  case True
  with assms have "drop (length d) buf = buf ! length d # drop (Suc (length d)) buf"
    by (simp add: Cons_nth_drop_Suc)
  with True assms show ?thesis by (simp add: recv_text_def aset_def Let_def)
qed (simp add: recv_text_def assms aset_def Let_def)

lemma udp_server_round_dest:
  "udp_server_round d s = Inr (Some (a, t), s') \<Longrightarrow> a = clientaddr s \<and> clientaddr s' = clientaddr s"
  by (auto simp: udp_server_round_def Let_def split: if_splits)

lemma udp_server_rounds_dest:
  "udp_server_rounds ds s = Inr (xs, s') \<Longrightarrow> \<forall>(a, t) \<in> set xs. a = clientaddr s"
proof (induction ds arbitrary: s xs)
  case (Cons d ds)
  then obtain r s2 where r: "udp_server_round d s = Inr (r, s2)"
    "(case r of None \<Rightarrow> Inr ([], s2) | Some x \<Rightarrow> bindE (udp_server_rounds ds s2) (\<lambda>(xs, s). Inr (x # xs, s))) = Inr (xs, s')"
    by auto
  show ?case
  proof (cases r)
    case None
    with r(2) show ?thesis by simp
  next
    case (Some x)
    obtain a t where x: "x = (a, t)" by (cases x)
    with Some r(2) obtain ys where y: "udp_server_rounds ds s2 = Inr (ys, s')" "xs = x # ys" by auto
    from udp_server_round_dest r(1) Some x have "a = clientaddr s" "clientaddr s2 = clientaddr s" by blast+
    with Cons.IH [OF y(1)] y(2) x show ?thesis by auto
  qed
qed simp

text \<open>The server's round for a text that fits into its buffer.\<close>

lemma udp_server_round_text:
  assumes "NUL \<notin> set t" and "length t < BUFFER_SIZE" and "length (srv_buf s) = BUFFER_SIZE"
  shows "\<exists>s' reply rest. udp_server_round (Some (a, t)) s = Inr (reply, s') \<and> (reply = None \<longleftrightarrow> t = EXIT_LINE)
    \<and> stdout (srv_io s') = stdout (srv_io s) @ ''Server: '' @ t @ rest"
proof -
  let ?b = "t @ NUL # drop (Suc (length t)) (srv_buf s)"
  have b: "recv_text (Some t) (srv_buf s) = Inr ?b" "cstr ?b = Inr t" "length ?b = BUFFER_SIZE"
    using recv_text_ok [OF assms(3)] assms cstr_text [OF assms(1)] by simp_all
  let ?v = "printf ''Server: '' (printf (''Server: '' @ t) (srv_io s))"
  have "is_ok (fgets ?b BUFFER_SIZE ?v)" using b(3) by (intro fgets_ok) (simp_all add: BUFFER_SIZE_def)
  then obtain x b2 w2 where g: "fgets ?b BUFFER_SIZE ?v = Inr (x, b2, w2)" by (auto simp: is_ok_iff)
  have "NUL \<in> set b2" using g by (auto simp: fgets_def put_str_eq_Inr split: if_splits prod.splits)
  then obtain r where r: "cstr b2 = Inr r" by (auto simp: cstr_def)
  have "stdout w2 = stdout (srv_io s) @ ''Server: '' @ t @ ''Server: ''"
    using fgets_stdout [OF g] by (simp add: printf_def)
  with b(1,2) g r show ?thesis
    by (cases "t = EXIT_LINE") (simp_all add: udp_server_round_def Let_def printf_def)
qed

text \<open>The first line typed at the client.\<close>

lemma udp_client_send_line:
  assumes "stdin (uio c) = l @ NL # r" and "NL \<notin> set l" and "NUL \<notin> set l" and "length l < 1022" and "length (ubuf c) = BUFFER_SIZE"
  shows "\<exists>c'. udp_client_send c = Inr ((clientvaddr c, l @ [NL]), l = ''exit'', c')
    \<and> stdout (uio c') = stdout (uio c) @ ''Clien: '' @ (if l = ''exit'' then ''Client end chat.'' else [])"
proof -
  let ?w = "printf ''Clien: '' (uio c)" and ?b = "(l @ [NL]) @ NUL # drop (Suc (Suc (length l))) (ubuf c)"
  have f: "fgets (ubuf c) BUFFER_SIZE ?w = Inr (True, ?b, ?w\<lparr>stdin := r\<rparr>)"
    using assms fgets_newline [of ?w l r BUFFER_SIZE "ubuf c"] by (simp add: printf_def BUFFER_SIZE_def)
  have "NUL \<notin> set (l @ [NL])" using assms(3) by simp
  then have b: "cstr ?b = Inr (l @ [NL])" by (rule cstr_text)
  have "l @ [NL] = EXIT_LINE \<longleftrightarrow> l = ''exit''" by (simp add: EXIT_LINE_def)
  then show ?thesis unfolding udp_client_send_def f by (simp only: bindE_simps b split_conv) (simp add: printf_def)
qed

lemma loads_ok:
  "Suc i < length b \<Longrightarrow> \<exists>x. load16 b i = Inr x"
  "i + 3 < length b \<Longrightarrow> \<exists>x. load32 b i = Inr x"
  by (simp_all add: load16_def load32_def)

section \<open>Properties\<close>

text \<open>
  A line typed at the client is sent to the server's port and, when it arrives, shown by
  the server in full; the line \<open>exit\<close> ends both programs, every other line is answered.
\<close>

theorem udp_line_shown:
  assumes "stdin (uio c) = l @ NL # r" and "NL \<notin> set l" and "NUL \<notin> set l" and "length l < 1022"
    and "length (ubuf c) = BUFFER_SIZE" and "length (srv_buf s) = BUFFER_SIZE"
  shows "\<exists>c' s' reply. udp_client_send c = Inr ((clientvaddr c, l @ [NL]), l = ''exit'', c')
    \<and> udp_server_round (Some (me, l @ [NL])) s = Inr (reply, s') \<and> (reply = None \<longleftrightarrow> l = ''exit'')
    \<and> (\<exists>rest. stdout (srv_io s') = stdout (srv_io s) @ ''Server: '' @ l @ [NL] @ rest)"
proof -
  let ?t = "l @ [NL]"
  have t: "NUL \<notin> set ?t" "length ?t < BUFFER_SIZE" using assms by (auto simp: BUFFER_SIZE_def)
  have e: "?t = EXIT_LINE \<longleftrightarrow> l = ''exit''" by (simp add: EXIT_LINE_def)
  have c: "\<exists>c'. udp_client_send c = Inr ((clientvaddr c, ?t), l = ''exit'', c')"
    using udp_client_send_line [OF assms(1-5)] by blast
  from udp_server_round_text [OF t assms(6), of me] e obtain s' reply rest where
    "udp_server_round (Some (me, ?t)) s = Inr (reply, s')" "reply = None \<longleftrightarrow> l = ''exit''"
    "stdout (srv_io s') = stdout (srv_io s) @ ''Server: '' @ ?t @ rest" by auto
  with c show ?thesis by auto
qed

theorem udp_line_shown_witness:
  "\<exists>c' s' reply. udp_client_send (sample_client (''hi'' @ NL # [])) = Inr (((0, UDP_PORT), ''hi'' @ [NL]), ''hi'' = ''exit'', c')
    \<and> udp_server_round (Some ((1, 2), ''hi'' @ [NL])) (udp_server_start (replicate BUFFER_SIZE NUL) (console [])) = Inr (reply, s')
    \<and> (reply = None \<longleftrightarrow> ''hi'' = ''exit'')
    \<and> (\<exists>rest. stdout (srv_io s') = stdout (srv_io (udp_server_start (replicate BUFFER_SIZE NUL) (console []))) @ ''Server: '' @ ''hi'' @ [NL] @ rest)"
proof -
  have "NL \<notin> set ''hi''" "NUL \<notin> set ''hi''" by (simp_all add: NL_def NUL_def)
  with udp_line_shown [of "sample_client (''hi'' @ NL # [])" "''hi''" "[]" "udp_server_start (replicate BUFFER_SIZE NUL) (console [])" "(1, 2)"]
  show ?thesis by (simp add: sample_client_def console_def udp_server_start_def)
qed

text \<open>
  The server of Tasks 14 and 17 never answers anybody: whatever arrives from whatever
  addresses, everything it sends goes to the address 0 with port 0, because the sender's
  address is stored in another variable than the one the answer is sent to.
\<close>

theorem udp_reply_lost:
  assumes "udp_server_rounds ds (udp_server_start buf w) = Inr (sends, s)"
  shows "\<forall>(a, t) \<in> set sends. a = ZERO_ADDR"
  using udp_server_rounds_dest [OF assms] by (simp add: udp_server_start_def)

theorem udp_reply_lost_witness:
  "\<exists>sends s. udp_server_rounds [Some ((LOOPBACK, 40000), ''hi'')] (udp_server_start (replicate BUFFER_SIZE NUL) (console [])) = Inr (sends, s)
    \<and> length sends = 1 \<and> fst (hd sends) = ZERO_ADDR"
proof -
  let ?s = "udp_server_start (replicate BUFFER_SIZE NUL) (console [])"
  have "NUL \<notin> set ''hi''" "length ''hi'' < BUFFER_SIZE" "length (srv_buf ?s) = BUFFER_SIZE" "''hi'' \<noteq> EXIT_LINE"
    by (simp_all add: NUL_def BUFFER_SIZE_def udp_server_start_def EXIT_LINE_def)
  with udp_server_round_text [of "''hi''" ?s "(LOOPBACK, 40000)"] obtain s r where
    "udp_server_round (Some ((LOOPBACK, 40000), ''hi'')) ?s = Inr (Some r, s)" by auto
  then have e: "udp_server_rounds [Some ((LOOPBACK, 40000), ''hi'')] ?s = Inr ([r], s)" by simp
  from udp_reply_lost [OF e] e show ?thesis by (cases r) auto
qed

text \<open>
  Both programs of Task 14 write outside their buffer when \<open>recvfrom\<close> fails or a datagram
  fills the buffer, and only then.
\<close>

theorem udp_recv_overruns:
  assumes "length buf = BUFFER_SIZE"
  shows "is_ok (recv_text d buf) \<longleftrightarrow> (\<exists>t. d = Some t \<and> length t < BUFFER_SIZE)"
proof (cases d)
  case None
  then show ?thesis by (simp add: recv_text_def aset_def)
next
  case (Some t)
  then show ?thesis using recv_text_ok [OF assms, of t] by simp
qed

theorem udp_recv_overruns_witness:
  "is_ok (recv_text (Some ''hi'') (replicate BUFFER_SIZE NUL)) \<longleftrightarrow> (\<exists>t. Some ''hi'' = Some t \<and> length t < BUFFER_SIZE)"
  by (rule udp_recv_overruns) simp

text \<open>
  C35: What the sniffer of Task 17 records of a text the server sends: everything but its first
  four characters; of a shorter text nothing, whatever the other fields of the headers.
\<close>

theorem sniff_skips_four:
  assumes "length h = 28" and "h ! 0 AND 0x0F = 5" and "load32 (h @ d) 12 = Inr LOOPBACK" and "load16 (h @ d) 20 = Inr (htons UDP_PORT)"
    and "d = bytes_of t @ 0 # replicate k 0" and "NUL \<notin> set t"
  shows "\<exists>w'. handlePacket True (\<lambda>s. Some (length s)) (h @ d) (28 + length t) (bin, w) = Inr (bin @ drop 4 t, w')"
proof (cases "length t < 4")
  case True
  with assms(1) show ?thesis by (simp add: handlePacket_def load8_def Let_def)
next
  case False
  from loads_ok(1) [of 22 "h @ d"] loads_ok(2) [of 16 "h @ d"] assms(1) obtain x y where xy: "load32 (h @ d) 16 = Inr x" "load16 (h @ d) 22 = Inr y" by fastforce
  have "drop 4 (bytes_of t @ 0 # replicate k 0) = bytes_of (drop 4 t) @ 0 # replicate k 0"
    using False by (simp add: bytes_of_def drop_map)
  with assms(1,5) have "drop 32 (h @ d) = bytes_of (drop 4 t) @ 0 # replicate k 0" by simp
  moreover have "NUL \<notin> set (drop 4 t)" using assms(6) by (auto dest: in_set_dropD)
  ultimately have c: "cstr (chars_of (drop 32 (h @ d))) = Inr (drop 4 t)" using cstr_data [of "drop 4 t"] by simp
  have "load8 (h @ d) 0 = Inr (h ! 0)" using assms(1) by (simp add: load8_def nth_append)
  with assms(2-4) xy c False show ?thesis
    by (auto simp: handlePacket_def Let_def record_data_def simp del: drop_append)
qed

theorem sniff_skips_four_witness:
  "\<exists>w'. handlePacket True (\<lambda>s. Some (length s))
      ((ip_header 0 0 0 LOOPBACK LOOPBACK @ udp_header (htons UDP_PORT) 0 0 0) @ bytes_of ''Hello'' @ 0 # replicate 994 0)
      (28 + length ''Hello'') ([], console []) = Inr ([] @ drop 4 ''Hello'', w')"
proof (rule sniff_skips_four)
  let ?h = "ip_header 0 0 0 LOOPBACK LOOPBACK @ udp_header (htons UDP_PORT) 0 0 0"
  have "(?h @ d) ! 0 = 0x45" "load32 (?h @ d) 12 = Inr LOOPBACK" "load16 (?h @ d) 20 = Inr (htons UDP_PORT)" for d
    using header_fields [of 0 0 0 LOOPBACK LOOPBACK "htons UDP_PORT" 0 0 0] by simp_all
  then show "?h ! 0 AND 0x0F = 5" "load32 (?h @ bytes_of ''Hello'' @ 0 # replicate 994 0) 12 = Inr LOOPBACK"
    "load16 (?h @ bytes_of ''Hello'' @ 0 # replicate 994 0) 20 = Inr (htons UDP_PORT)"
    by (simp_all add: ip_header_def)
  show "NUL \<notin> set ''Hello''" by (simp add: NUL_def)
qed simp_all

text \<open>
  The sniffer never uses the socket it has opened: with a socket it reads from descriptor 0,
  without one it leaves.
\<close>

theorem raw_reads_stdin:
  "raw_main open_ok wr fd recv buffer st =
    (if fd < 0 then Inr None else bindE (raw_loop open_ok wr (recv 0) buffer st) (\<lambda>st. Inr (Some st)))"
  by (simp add: raw_main_def)

end
