(* ===== verification/Udp_Programs.thy ===== *)
theory Udp_Programs
  imports Udp_Chat Descriptors
begin

text \<open>
  The client and the server of Module 3, Task 14 (\<open>client.c\<close>, \<open>server.c\<close>; Task 17 has the same
  files) from their sockets to their ends. The list says what arrives in each round of a
  program; a program that is not over at the end of the list waits for more. The source of the
  server has two slips that keep it from being compiled; it is read without them: \<open>bind\<close> gets the
  size of the address, and the comparison in its line only compares that size with 0.

  Proved here: the starts, and what a client and a server do with a first line that is typed.
\<close>

section \<open>The client\<close>

text \<open>The datagrams sent, and whether the client has left its loop.\<close>

fun udp_client_rounds :: "(addr \<times> string) option list \<Rightarrow> udp_client \<Rightarrow> ((addr \<times> string) list \<times> bool \<times> udp_client) res" where
  "udp_client_rounds [] c = bindE (udp_client_send c) (\<lambda>(x, quit, c). Inr ([x], quit, c))"
| "udp_client_rounds (d # ds) c =
     bindE (udp_client_send c) (\<lambda>(x, quit, c).
     if quit then Inr ([x], True, c)
     else bindE (udp_client_recv d c) (\<lambda>c. bindE (udp_client_rounds ds c) (\<lambda>(xs, quit, c). Inr (x # xs, quit, c))))"

definition udp_client_start :: "int \<Rightarrow> net_act list \<times> int option" where
  "udp_client_start sock = (if sock < 0 then ([Ended 1], None) else ([Opened sock], Some sock))"

definition udp_client_main :: "int \<Rightarrow> (addr \<times> string) option list \<Rightarrow> cbuf \<Rightarrow> io
    \<Rightarrow> (net_act list \<times> (addr \<times> string) list \<times> udp_client) res" where
  "udp_client_main sock ds buf w =
     (let c = \<lparr>ubuf = buf, clientvaddr = (0, UDP_PORT), uio = w\<rparr>
      in case udp_client_start sock of (as, None) \<Rightarrow> Inr (as, [], c)
         | (as, Some sockfd) \<Rightarrow> bindE (udp_client_rounds ds c) (\<lambda>(xs, quit, c).
             Inr (if quit then as @ [Closed sockfd, Ended 0] else as, xs, c)))"

section \<open>The server\<close>

text \<open>\<open>bind\<close> is called, but its result is dropped by the comma operator.\<close>

definition udp_server_bind :: "int \<Rightarrow> int \<Rightarrow> net_act list \<times> int option" where
  "udp_server_bind sock ret_bind =
     (if sock < 0 then ([Ended 1], None)
      else if (16 :: int) < 0 then ([Opened sock, Ended 1], None)
      else ([Opened sock], Some sock))"

text \<open>Every round but the one that leaves the loop sends a datagram.\<close>

definition udp_server_main :: "int \<Rightarrow> int \<Rightarrow> (addr \<times> string) option list \<Rightarrow> cbuf \<Rightarrow> io
    \<Rightarrow> (net_act list \<times> (addr \<times> string) list \<times> udp_server) res" where
  "udp_server_main sock ret_bind ds buf w =
     (case udp_server_bind sock ret_bind of
        (as, None) \<Rightarrow> Inr (as, [], (udp_server_start buf w)\<lparr>srv_io := w\<rparr>)
      | (as, Some sockfd) \<Rightarrow> bindE (udp_server_rounds ds (udp_server_start buf w)) (\<lambda>(xs, s).
          Inr (if length xs < length ds then as @ [Closed sockfd, Ended 0] else as, xs, s)))"

text \<open>Task 17 has the same two files.\<close>

definition udp_client_main_17 :: "int \<Rightarrow> (addr \<times> string) option list \<Rightarrow> cbuf \<Rightarrow> io
    \<Rightarrow> (net_act list \<times> (addr \<times> string) list \<times> udp_client) res" where
  "udp_client_main_17 = udp_client_main"

definition udp_server_main_17 :: "int \<Rightarrow> int \<Rightarrow> (addr \<times> string) option list \<Rightarrow> cbuf \<Rightarrow> io
    \<Rightarrow> (net_act list \<times> (addr \<times> string) list \<times> udp_server) res" where
  "udp_server_main_17 = udp_server_main"

section \<open>The network\<close>

text \<open>What arrives at the address \<open>me\<close> of the datagrams that are sent from \<open>src\<close>.\<close>

definition delivered :: "addr \<Rightarrow> addr \<Rightarrow> (addr \<times> string) list \<Rightarrow> (addr \<times> string) option list" where
  "delivered src me xs = map (\<lambda>(a, t). Some (src, t)) (filter (\<lambda>(a, t). a = me) xs)"

section \<open>Lemmas\<close>

interpretation udp_client_socket: careful_setup "\<lambda>sock. Inr (udp_client_start sock)"
  by unfold_locales (auto simp: udp_client_start_def split: if_splits)

interpretation udp_server_socket: careful_setup "\<lambda>(sock, ret_bind). Inr (udp_server_bind sock ret_bind)"
  by unfold_locales (auto simp: udp_server_bind_def split: if_splits)

lemma delivered_none: "\<forall>(a, t) \<in> set xs. a \<noteq> me \<Longrightarrow> delivered src me xs = []"
  by (auto simp: delivered_def filter_empty_conv)

section \<open>Properties\<close>

text \<open>
  C39: The chat of Task 14 on a first line: if it is \<open>exit\<close>, both programs end, with their sockets closed. With
  every other line the client waits for ever: the server shows the line and answers, but to an
  address that is never the client's.
\<close>

theorem udp_chat_first_line:
  assumes "stdin w = l @ NL # r" and "NL \<notin> set l" and "NUL \<notin> set l" and "length l < 1022" and "0 \<le> sock" and "0 \<le> sock'"
    and "length buf = BUFFER_SIZE" and "length buf' = BUFFER_SIZE" and "me \<noteq> ZERO_ADDR"
  shows "\<exists>as c as' xs s. udp_server_main sock' ret_bind [Some (me, l @ [NL])] buf' w' = Inr (as', xs, s)
    \<and> udp_client_main sock (delivered src me xs) buf w = Inr (as, [((0, UDP_PORT), l @ [NL])], c)
    \<and> (if l = ''exit'' then as = [Opened sock, Closed sock, Ended 0] \<and> as' = [Opened sock', Closed sock', Ended 0]
       else as = [Opened sock] \<and> as' = [Opened sock'] \<and> length xs = 1
         \<and> stdout (uio c) = stdout w @ ''Clien: '')"
proof -
  let ?s = "udp_server_start buf' w'" and ?c = "\<lparr>ubuf = buf, clientvaddr = (0, UDP_PORT), uio = w\<rparr>"
  have t: "NUL \<notin> set (l @ [NL])" "length (l @ [NL]) < BUFFER_SIZE" using assms by (auto simp: BUFFER_SIZE_def)
  have e: "l @ [NL] = EXIT_LINE \<longleftrightarrow> l = ''exit''" by (simp add: EXIT_LINE_def)
  have "length (srv_buf ?s) = BUFFER_SIZE" using assms(8) by (simp add: udp_server_start_def)
  from udp_server_round_text [OF t this, of me] e obtain s reply where
    s: "udp_server_round (Some (me, l @ [NL])) ?s = Inr (reply, s)" "reply = None \<longleftrightarrow> l = ''exit''" by auto
  let ?xs = "case reply of None \<Rightarrow> [] | Some x \<Rightarrow> [x]"
  have xs: "udp_server_rounds [Some (me, l @ [NL])] ?s = Inr (?xs, s)" using s(1) by (cases reply) simp_all
  from udp_server_rounds_dest [OF this] have "\<forall>(a, t) \<in> set ?xs. a \<noteq> me"
    using assms(9) by (auto simp: udp_server_start_def)
  then have d: "delivered src me ?xs = []" by (rule delivered_none)
  have "stdin (uio ?c) = l @ NL # r" "length (ubuf ?c) = BUFFER_SIZE" using assms by simp_all
  from udp_client_send_line [OF this(1) assms(2-4) this(2)] obtain c where
    c: "udp_client_send ?c = Inr (((0, UDP_PORT), l @ [NL]), l = ''exit'', c)"
      "l \<noteq> ''exit'' \<Longrightarrow> stdout (uio c) = stdout w @ ''Clien: ''" by auto
  let ?as = "if l = ''exit'' then [Opened sock, Closed sock, Ended 0] else [Opened sock]"
    and ?as' = "if l = ''exit'' then [Opened sock', Closed sock', Ended 0] else [Opened sock']"
  have server: "udp_server_main sock' ret_bind [Some (me, l @ [NL])] buf' w'
      = Inr (?as', ?xs, s)"
    using xs s(2) assms(6) by (cases reply) (auto simp: udp_server_main_def udp_server_bind_def)
  have client: "udp_client_main sock (delivered src me ?xs) buf w
      = Inr (?as, [((0, UDP_PORT), l @ [NL])], c)"
    using c(1) assms(5) unfolding d by (simp add: udp_client_main_def udp_client_start_def)
  show ?thesis
  proof (intro exI conjI)
    show "if l = ''exit'' then ?as = [Opened sock, Closed sock, Ended 0] \<and> ?as' = [Opened sock', Closed sock', Ended 0]
        else ?as = [Opened sock] \<and> ?as' = [Opened sock'] \<and> length ?xs = 1 \<and> stdout (uio c) = stdout w @ ''Clien: ''"
      using c(2) s(2) by (cases reply) auto
  qed (fact server client)+
qed

theorem udp_chat_first_line_witness:
  "\<exists>as c as' xs s. udp_server_main 4 0 [Some ((1, 2), ''hi'' @ [NL])] (replicate BUFFER_SIZE NUL) (console ''yes'') = Inr (as', xs, s)
    \<and> udp_client_main 3 (delivered (0, UDP_PORT) (1, 2) xs) (replicate BUFFER_SIZE NUL) (console (''hi'' @ NL # []))
        = Inr (as, [((0, UDP_PORT), ''hi'' @ [NL])], c)
    \<and> (if ''hi'' = ''exit'' then as = [Opened 3, Closed 3, Ended 0] \<and> as' = [Opened 4, Closed 4, Ended 0]
       else as = [Opened 3] \<and> as' = [Opened 4] \<and> length xs = 1
         \<and> stdout (uio c) = stdout (console (''hi'' @ NL # [])) @ ''Clien: '')"
  by (rule udp_chat_first_line) (simp_all add: console_def NL_def NUL_def ZERO_ADDR_def)

end
