(* ===== verification/Kernel_Files.thy ===== *)
theory Kernel_Files
  imports Byte_Source
begin

text \<open>
  The two kernel modules of Module 5 that offer a file: the \<open>/proc\<close> entry of Lab 2
  (\<open>hello.c\<close>) and the character device of Lab 4 (\<open>lab4.c\<close>). The file operations are
  functions of the module's static variables; registration with the kernel is in
  \<open>Kernel_Modules\<close>, the results of \<open>kmalloc\<close> and \<open>try_module_get\<close> are arguments, and copying to and
  from user space succeeds. \<open>size_t\<close> and \<open>int\<close> keep their widths.

  Proved here: the device hands every reader its whole message whatever buffers it uses,
  a message that fits into the \<open>/proc\<close> entry can be read back in
  one call, and in smaller pieces it cannot.
\<close>

section \<open>The character device (Lab 4)\<close>

definition BUF_LEN :: nat where
  "BUF_LEN = 80"

definition EBUSY :: int where
  "EBUSY = 16"

definition EINVAL :: int where
  "EINVAL = 22"

record chardev =
  already_open :: int
  counter :: "32 word"
  msg :: cbuf
  module_refs :: int

definition CDEV_NOT_USED :: int where
  "CDEV_NOT_USED = 0"

definition CDEV_EXCLUSIVE_OPEN :: int where
  "CDEV_EXCLUSIVE_OPEN = 1"

text \<open>The module as it is loaded: its static variables are zero.\<close>

definition chardev_start :: chardev where
  "chardev_start = \<lparr>already_open = CDEV_NOT_USED, counter = 0, msg = replicate BUF_LEN NUL, module_refs = 0\<rparr>"

text \<open>\<open>atomic_cmpxchg\<close>: the old value, and the new one when the old one was as expected.\<close>

definition atomic_cmpxchg :: "int \<Rightarrow> int \<Rightarrow> int \<Rightarrow> int \<times> int" where
  "atomic_cmpxchg v old new = (v, if v = old then new else v)"

definition hello_text :: "32 word \<Rightarrow> string" where
  "hello_text n = ''I already told you '' @ show_int (sint n) @ '' times Hello world!'' @ [NL]"

definition device_open :: "bool \<Rightarrow> chardev \<Rightarrow> (int \<times> chardev) res" where
  "device_open get_ok d =
     (let (old, new) = atomic_cmpxchg (already_open d) CDEV_NOT_USED CDEV_EXCLUSIVE_OPEN;
          d = d\<lparr>already_open := new\<rparr>
      in if old \<noteq> 0 then Inr (- EBUSY, d)
         else bindE (put_str (msg d) (hello_text (counter d))) (\<lambda>b.
           Inr (0, d\<lparr>msg := b, counter := counter d + 1,
             module_refs := module_refs d + (if get_ok then 1 else 0)\<rparr>)))"

definition device_release :: "chardev \<Rightarrow> int \<times> chardev" where
  "device_release d = (0, d\<lparr>already_open := CDEV_NOT_USED, module_refs := module_refs d - 1\<rparr>)"

text \<open>\<open>while (length && *msg_ptr)\<close>: the bytes put into the user's buffer.\<close>

fun copy_out :: "cbuf \<Rightarrow> int \<Rightarrow> nat \<Rightarrow> string res" where
  "copy_out m p 0 = Inr []"
| "copy_out m p (Suc n) =
     bindE (aget m p) (\<lambda>c. if c = NUL then Inr [] else bindE (copy_out m (p + 1) n) (\<lambda>r. Inr (c # r)))"

text \<open>A read at \<open>offset\<close>: the bytes delivered (their number is the result) and the new offset.\<close>

definition device_read :: "chardev \<Rightarrow> int \<Rightarrow> nat \<Rightarrow> (string \<times> int) res" where
  "device_read d offset n =
     bindE (aget (msg d) offset) (\<lambda>c.
     if c = NUL then Inr ([], 0)
     else bindE (copy_out (msg d) offset n) (\<lambda>l. Inr (l, offset + int (length l))))"

definition device_write :: "chardev \<Rightarrow> string \<Rightarrow> int" where
  "device_write d buff = - EINVAL"

section \<open>The proc entry (Lab 2)\<close>

definition MSG_SIZE :: nat where
  "MSG_SIZE = 20"

record procfile =
  plen :: "32 word"
  ptemp :: "32 word"
  pmsg :: "cbuf option"   \<comment> \<open>the block from \<open>kmalloc\<close>, \<open>None\<close> for a null pointer\<close>

text \<open>\<open>create_new_proc_entry\<close>: the entry and its buffer; the result of \<open>kmalloc\<close> is not checked.\<close>

definition create_new_proc_entry :: "cbuf option \<Rightarrow> procfile" where
  "create_new_proc_entry kmalloc = \<lparr>plen = 0, ptemp = 0, pmsg = kmalloc\<rparr>"

text \<open>
  \<open>count\<close> and \<open>temp\<close> are compared and subtracted as \<open>size_t\<close>; the difference goes back into
  an \<open>int\<close>.
\<close>

definition read_proc :: "procfile \<Rightarrow> 64 word \<Rightarrow> (string \<times> procfile) res" where
  "read_proc f n =
     (let n = (if n > scast (ptemp f) then scast (ptemp f) else n);
          f = f\<lparr>ptemp := ucast (scast (ptemp f) - n)\<rparr>
      in case pmsg f of None \<Rightarrow> if n = 0 then Inr ([], f\<lparr>ptemp := plen f\<rparr>) else Inl NullDeref
         | Some m \<Rightarrow> if length m < unat n then Inl OutOfBounds
             else Inr (take (unat n) m, if n = 0 then f\<lparr>ptemp := plen f\<rparr> else f))"

definition write_proc :: "procfile \<Rightarrow> string \<Rightarrow> (nat \<times> procfile) res" where
  "write_proc f buf =
     (case pmsg f of None \<Rightarrow> if buf = [] then Inr (0, f\<lparr>plen := 0, ptemp := 0\<rparr>) else Inl NullDeref
      | Some m \<Rightarrow> if length m < length buf then Inl OutOfBounds
          else Inr (length buf, f\<lparr>pmsg := Some (buf @ drop (length buf) m),
            plen := of_nat (length buf), ptemp := of_nat (length buf)\<rparr>))"

definition proc_rd :: "procfile \<Rightarrow> nat \<Rightarrow> (string \<times> procfile) res" where
  "proc_rd f n = read_proc f (of_nat n)"

section \<open>States of the device\<close>

text \<open>A reader of the open device: the device and the reader's offset.\<close>

definition dev_rd :: "chardev \<times> int \<Rightarrow> nat \<Rightarrow> (string \<times> chardev \<times> int) res" where
  "dev_rd = (\<lambda>(d, off) n. bindE (device_read d off n) (\<lambda>(l, off). Inr (l, d, off)))"

definition dev_text :: "chardev \<Rightarrow> string" where
  "dev_text d = takeWhile (\<lambda>c. c \<noteq> NUL) (msg d)"

definition dev_ok :: "chardev \<times> int \<Rightarrow> bool" where
  "dev_ok = (\<lambda>(d, off). NUL \<in> set (msg d) \<and> 0 \<le> off \<and> off \<le> int (length (dev_text d)))"

definition dev_rest :: "chardev \<times> int \<Rightarrow> string" where
  "dev_rest = (\<lambda>(d, off). drop (nat off) (dev_text d))"

section \<open>Lemmas\<close>

subsection \<open>The device\<close>

lemma hello_text_length: "length (hello_text n) < BUF_LEN"
proof -
  have "in_int (sint n)" using sint_greater_eq [of n] sint_less [of n] by (simp add: c_arith)
  from show_int_length [OF this] show ?thesis by (simp add: hello_text_def BUF_LEN_def)
qed

lemma hello_text_chars: "NUL \<notin> set (hello_text n)"
proof -
  have "NUL \<notin> set (show_nat k)" for k using show_nat_digits [of k] by (auto simp: NUL_def isdigit_def)
  then show ?thesis by (auto simp: hello_text_def show_int_def NUL_def NL_def)
qed

lemma copy_out_text:
  assumes "NUL \<in> set m" and "p \<le> length (takeWhile (\<lambda>c. c \<noteq> NUL) m)"
  shows "copy_out m (int p) n = Inr (take n (drop p (takeWhile (\<lambda>c. c \<noteq> NUL) m)))"
  using assms(2)
proof (induction n arbitrary: p)
  case 0
  then show ?case by simp
next
  case (Suc n)
  let ?t = "takeWhile (\<lambda>c. c \<noteq> NUL) m"
  have l: "length ?t < length m" using assms(1) by (rule length_takeWhile_less) simp
  with Suc.prems have g: "aget m (int p) = Inr (m ! p)" by simp
  show ?case
  proof (cases "p = length ?t")
    case True
    then have "m ! p = NUL" using nth_length_takeWhile [of "\<lambda>c. c \<noteq> NUL" m] l by simp
    with g True show ?thesis by simp
  next
    case False
    with Suc.prems have p: "p < length ?t" by simp
    then have "m ! p = ?t ! p" by (simp add: takeWhile_nth)
    moreover have "?t ! p \<noteq> NUL" using nth_mem [OF p] by (auto dest: set_takeWhileD)
    moreover have "drop p ?t = ?t ! p # drop (Suc p) ?t" using p by (simp add: Cons_nth_drop_Suc)
    ultimately show ?thesis using g Suc.IH [of "Suc p"] p by (simp add: add.commute)
  qed
qed

lemma device_read_text:
  assumes "dev_ok (d, off)"
  shows "device_read d off n = Inr (take n (dev_rest (d, off)),
    if dev_rest (d, off) = [] then 0 else off + int (min n (length (dev_rest (d, off)))))"
proof -
  let ?t = "dev_text d"
  obtain p where off: "off = int p" using assms by (auto simp: dev_ok_def dest: nonneg_int_cases)
  with assms have n: "NUL \<in> set (msg d)" and p: "p \<le> length ?t" by (auto simp: dev_ok_def)
  have l: "length ?t < length (msg d)" unfolding dev_text_def using n by (rule length_takeWhile_less) simp
  with p have g: "aget (msg d) (int p) = Inr (msg d ! p)" by simp
  have c: "copy_out (msg d) (int p) n = Inr (take n (drop p ?t))"
    using copy_out_text [OF n] p by (simp add: dev_text_def)
  show ?thesis
  proof (cases "p = length ?t")
    case True
    then have "msg d ! p = NUL" using nth_length_takeWhile [of "\<lambda>c. c \<noteq> NUL" "msg d"] l by (simp add: dev_text_def)
    with g True off show ?thesis by (simp add: device_read_def dev_rest_def)
  next
    case False
    with p have p: "p < length ?t" by simp
    then have "msg d ! p = ?t ! p" by (simp add: takeWhile_nth dev_text_def)
    moreover have "?t ! p \<noteq> NUL" using nth_mem [OF p] by (auto simp: dev_text_def dest: set_takeWhileD)
    ultimately show ?thesis using g c off p by (simp add: device_read_def dev_rest_def)
  qed
qed

interpretation device: byte_source dev_rd dev_rest dev_ok "\<lambda>(d, off). (d, 0)"
proof unfold_locales
  fix s :: "chardev \<times> int" and n :: nat
  assume ok: "dev_ok s" and r: "dev_rest s \<noteq> []" and n: "0 < n"
  obtain d off where s: "s = (d, off)" by (cases s)
  let ?l = "take n (dev_rest s)" and ?s = "(d, off + int (min n (length (dev_rest s))))"
  have "dev_rd s n = Inr (?l, ?s)" using device_read_text [of d off n] ok r s by (simp add: dev_rd_def)
  moreover have "dev_rest ?s = drop n (dev_rest s)"
    using ok s by (simp add: dev_rest_def dev_ok_def nat_add_distrib min_def add.commute)
  moreover have "dev_ok ?s" using ok s by (auto simp: dev_ok_def dev_rest_def)
  ultimately show "\<exists>l s'. dev_rd s n = Inr (l, s') \<and> l \<noteq> [] \<and> dev_rest s = l @ dev_rest s' \<and> dev_ok s'
      \<and> (case s' of (d, off) \<Rightarrow> (d, 0)) = (case s of (d, off) \<Rightarrow> (d, 0))"
    using r n s by (intro exI [of _ ?l] exI [of _ ?s]) auto
next
  fix s :: "chardev \<times> int" and n :: nat
  assume "dev_ok s" and "dev_rest s = []"
  then show "dev_rd s n = Inr ([], case s of (d, off) \<Rightarrow> (d, 0))"
    using device_read_text by (cases s) (simp add: dev_rd_def)
qed

lemma device_open_free:
  assumes "already_open d = 0" and "length (msg d) = BUF_LEN"
  shows "\<exists>b. device_open g d = Inr (0, d\<lparr>already_open := 1, msg := b, counter := counter d + 1,
      module_refs := module_refs d + (if g then 1 else 0)\<rparr>)
    \<and> length b = BUF_LEN \<and> cstr b = Inr (hello_text (counter d))"
proof -
  obtain b where b: "put_str (msg d) (hello_text (counter d)) = Inr b"
    using hello_text_length [of "counter d"] assms(2) by (simp add: put_str_def)
  show ?thesis
    by (rule exI [of _ b])
      (use b put_str_length [OF b] put_str_cstr [OF b hello_text_chars] assms in
        \<open>simp add: device_open_def atomic_cmpxchg_def CDEV_NOT_USED_def CDEV_EXCLUSIVE_OPEN_def\<close>)
qed

lemma device_open_busy: "already_open d \<noteq> 0 \<Longrightarrow> device_open g d = Inr (- EBUSY, d)"
  by (simp add: device_open_def atomic_cmpxchg_def CDEV_NOT_USED_def)

subsection \<open>The proc entry\<close>

lemma scast_small:
  assumes "t < 2 ^ 31"
  shows "(scast (of_nat t :: 32 word) :: 64 word) = of_nat t"
proof -
  have "sint (of_nat t :: 32 word) = int t"
    using assms by (simp add: signed_of_nat signed_take_bit_int_eq_self)
  then have "(of_int (sint (of_nat t :: 32 word)) :: 64 word) = of_nat t" by simp
  then show ?thesis by (simp only: of_int_sint)
qed

text \<open>A read hands out the beginning of the buffer, at most as much as is counted as left.\<close>

lemma proc_rd_left:
  assumes "pmsg f = Some m" and "ptemp f = of_nat t" and "t \<le> length m" and "t < 2 ^ 31" and "n < 2 ^ 63"
  shows "proc_rd f n = Inr (take (min n t) m, f\<lparr>ptemp := if min n t = 0 then plen f else of_nat (t - min n t)\<rparr>)"
proof -
  have un: "unat (of_nat k :: 64 word) = k" if "k < 2 ^ 63" for k
    using that by (simp add: unat_of_nat)
  have t: "t < 2 ^ 63" using assms(4) by simp
  define k where "k = min n t"
  have k: "k < 2 ^ 63" "k \<le> t" and kn: "k = (if t < n then t else n)" using t by (simp_all add: k_def min_def)
  have "(of_nat t :: 64 word) < of_nat n \<longleftrightarrow> t < n"
    unfolding word_less_nat_alt un [OF t] un [OF assms(5)] ..
  then have mn: "(if of_nat n > (of_nat t :: 64 word) then of_nat t else of_nat n) = (of_nat k :: 64 word)"
    by (simp add: kn)
  have z: "(of_nat k :: 64 word) = 0 \<longleftrightarrow> k = 0"
  proof
    assume "(of_nat k :: 64 word) = 0"
    then have "unat (of_nat k :: 64 word) = 0" by (simp only: unat_0)
    then show "k = 0" unfolding un [OF k(1)] .
  qed simp
  have "(of_nat t :: 64 word) - of_nat k = of_nat (t - k)" using k(2) by (simp add: of_nat_diff)
  moreover have "(ucast (of_nat (t - k) :: 64 word) :: 32 word) = of_nat (t - k)"
  proof -
    have "unat (of_nat (t - k) :: 64 word) = t - k" using t by (intro un) simp
    then show ?thesis using of_nat_unat [of "of_nat (t - k) :: 64 word"] by metis
  qed
  ultimately have d: "(ucast ((of_nat t :: 64 word) - of_nat k) :: 32 word) = of_nat (t - k)" by (simp only:)
  show ?thesis
    unfolding proc_rd_def read_proc_def Let_def assms(2) scast_small [OF assms(4)] mn d k_def [symmetric]
    using assms(1,3) k un [OF k(1)] z by simp
qed

lemma write_proc_ok:
  assumes "pmsg f = Some m" and "length s \<le> length m"
  shows "write_proc f s = Inr (length s, f\<lparr>pmsg := Some (s @ drop (length s) m),
    plen := of_nat (length s), ptemp := of_nat (length s)\<rparr>)"
  using assms by (simp add: write_proc_def)

lemma proc_drain_bytes:
  assumes "pmsg f = Some m" and "m \<noteq> []" and "t < k" and "t \<le> length m" and "t < 2 ^ 31" and "ptemp f = of_nat t"
  shows "read_all proc_rd (replicate k 1) f = Inr (replicate t (hd m), f\<lparr>ptemp := plen f\<rparr>)"
  using assms
proof (induction k arbitrary: t f)
  case 0
  then show ?case by simp
next
  case (Suc k)
  note r = proc_rd_left [OF Suc.prems(1,6,4,5), of 1]
  show ?case
  proof (cases t)
    case 0
    with r show ?thesis by simp
  next
    case (Suc u)
    from Suc r \<open>m \<noteq> []\<close> have r: "proc_rd f 1 = Inr ([hd m], f\<lparr>ptemp := of_nat u\<rparr>)" by (cases m) simp_all
    from Suc.IH [of "f\<lparr>ptemp := of_nat u\<rparr>" u] Suc.prems Suc r show ?thesis by simp
  qed
qed

section \<open>Properties\<close>

text \<open>
  C19: A process that opens the device and reads until nothing comes gets exactly the
  greeting with the number of openings before, whatever buffer sizes it uses; afterwards
  its offset is back at the start.
\<close>

theorem device_reads_message:
  assumes "already_open d = 0" and "length (msg d) = BUF_LEN" and "\<forall>n \<in> set ns. 0 < n"
    and "length (hello_text (counter d)) < length ns"
  shows "\<exists>d'. device_open g d = Inr (0, d') \<and> counter d' = counter d + 1
    \<and> read_all dev_rd ns (d', 0) = Inr (hello_text (counter d), (d', 0))"
proof -
  from device_open_free [OF assms(1,2), of g] obtain d' where
    d': "device_open g d = Inr (0, d')" "counter d' = counter d + 1" "cstr (msg d') = Inr (hello_text (counter d))"
    by auto
  then have ok: "dev_ok (d', 0)" and t: "dev_rest (d', 0) = hello_text (counter d)"
    by (auto simp: dev_ok_def dev_rest_def dev_text_def cstr_def split: if_splits)
  from device.drain_all [OF ok assms(3)] assms(4) t d' show ?thesis by auto
qed

theorem device_reads_message_witness:
  "\<exists>d'. device_open True chardev_start = Inr (0, d') \<and> counter d' = counter chardev_start + 1
    \<and> read_all dev_rd (replicate 60 7) (d', 0) = Inr (hello_text (counter chardev_start), (d', 0))"
proof (rule device_reads_message)
  have "hello_text (counter chardev_start) = ''I already told you 0 times Hello world!'' @ [NL]"
    by code_simp
  then show "length (hello_text (counter chardev_start)) < length (replicate 60 (7 :: nat))" by simp
qed (simp_all add: chardev_start_def CDEV_NOT_USED_def)

text \<open>
  C37: What was written into the proc entry is read back by a reader whose buffer takes it in
  one call, and can be read again; a message of more than 20 bytes overruns the buffer.
\<close>

theorem proc_write_read:
  assumes "pmsg f = Some m" and "length m = MSG_SIZE" and "length s \<le> n" and "n < 2 ^ 63"
  shows "if length s \<le> MSG_SIZE
    then \<exists>f'. write_proc f s = Inr (length s, f') \<and> read_all proc_rd [n, n] f' = Inr (s, f')
    else write_proc f s = Inl OutOfBounds"
proof (cases "length s \<le> MSG_SIZE")
  case True
  let ?f = "f\<lparr>pmsg := Some (s @ drop (length s) m), plen := of_nat (length s), ptemp := of_nat (length s)\<rparr>"
  have w: "write_proc f s = Inr (length s, ?f)" using True assms(1,2) by (simp add: write_proc_ok)
  have l: "length s < 2 ^ 31" using True by (simp add: MSG_SIZE_def)
  have r: "proc_rd ?f n = Inr (s, ?f\<lparr>ptemp := if s = [] then of_nat (length s) else 0\<rparr>)"
    using proc_rd_left [of ?f _ "length s" n] l assms(3,4) by (simp add: min_absorb2)
  have z: "proc_rd (?f\<lparr>ptemp := 0\<rparr>) n = Inr ([], ?f)"
    using proc_rd_left [of "?f\<lparr>ptemp := 0\<rparr>" _ 0 n] assms(4) by simp
  have "read_all proc_rd [n, n] ?f = Inr (s, ?f)" using r z by (cases "s = []") simp_all
  with w True show ?thesis by auto
next
  case False
  with assms(1,2) show ?thesis by (simp add: write_proc_def)
qed

theorem proc_write_read_witness:
  "if length ''hi'' \<le> MSG_SIZE
    then \<exists>f'. write_proc (create_new_proc_entry (Some (replicate 20 NUL))) ''hi'' = Inr (length ''hi'', f')
      \<and> read_all proc_rd [4096, 4096] f' = Inr (''hi'', f')
    else write_proc (create_new_proc_entry (Some (replicate 20 NUL))) ''hi'' = Inl OutOfBounds"
  by (rule proc_write_read [where m = "replicate 20 NUL"]) (simp_all add: create_new_proc_entry_def MSG_SIZE_def)

text \<open>
  A reader that asks for one byte at a time gets the first byte of the message over and
  over, as often as the message has bytes.
\<close>

theorem proc_read_repeats:
  assumes "pmsg f = Some m" and "length m = MSG_SIZE" and "length s \<le> MSG_SIZE" and "s \<noteq> []"
    and "length s < k"
  shows "\<exists>f'. write_proc f s = Inr (length s, f') \<and> read_all proc_rd (replicate k 1) f' = Inr (replicate (length s) (hd s), f')"
proof -
  let ?f = "f\<lparr>pmsg := Some (s @ drop (length s) m), plen := of_nat (length s), ptemp := of_nat (length s)\<rparr>"
  have "write_proc f s = Inr (length s, ?f)" using assms(1-3) by (simp add: write_proc_ok)
  moreover have "read_all proc_rd (replicate k 1) ?f = Inr (replicate (length s) (hd (s @ drop (length s) m)), ?f\<lparr>ptemp := plen ?f\<rparr>)"
    by (rule proc_drain_bytes) (use assms in \<open>simp_all add: MSG_SIZE_def\<close>)
  ultimately show ?thesis using assms(4) by simp
qed

theorem proc_read_repeats_witness:
  "\<exists>f'. write_proc (create_new_proc_entry (Some (replicate 20 NUL))) ''abc'' = Inr (length ''abc'', f')
    \<and> read_all proc_rd (replicate 4 1) f' = Inr (replicate (length ''abc'') (hd ''abc''), f')"
  by (rule proc_read_repeats [where m = "replicate 20 NUL"]) (simp_all add: create_new_proc_entry_def MSG_SIZE_def)

end
