(* ===== verification/Kernel_Events.thy ===== *)
theory Kernel_Events
  imports C_Stdio
begin

text \<open>
  The two kernel modules of Module 5 that react to events: the keyboard lights of Lab 3
  (\<open>lab3.c\<close>), with an attribute file and a timer, and the netlink service of Lab 5
  (\<open>kernalspace.c\<close>) with its client (\<open>userspace.c\<close>). The kernel functions they call are
  arguments: what \<open>sscanf\<close> reads, whether objects can be created, the clock. Messages in
  the kernel's log are kept where they carry data.

  Proved here: the lights alternate between the chosen value and the restored state, the
  module puts everything back when it is unloaded and leaves an object behind when it
  fails to load, and the client prints the kernel's answer.
\<close>

section \<open>Keyboard lights (Lab 3)\<close>

definition RESTORE_LEDS :: int where
  "RESTORE_LEDS = 0xFF"

definition ENOMEM :: int where
  "ENOMEM = 12"

text \<open>
  \<open>led_timer\<close> is the time at which the timer fires, if it is armed; \<open>led_set\<close> are the values
  given to the driver so far.
\<close>

record leds =
  led_value :: int
  kbledstatus :: int
  led_timer :: "64 word option"
  led_set :: "int list"
  example_kobject :: bool

definition leds_start :: leds where
  "leds_start = \<lparr>led_value = 0, kbledstatus = 0, led_timer = None, led_set = [], example_kobject = False\<rparr>"

definition foo_show :: "leds \<Rightarrow> string" where
  "foo_show l = show_int (led_value l) @ [NL]"

text \<open>\<open>parse\<close> is what the kernel's \<open>sscanf\<close> stores for the format \<open>%du\<close>, if anything.\<close>

definition foo_store :: "(string \<Rightarrow> int option) \<Rightarrow> leds \<Rightarrow> string \<Rightarrow> nat \<times> leds" where
  "foo_store parse l buf =
     (length buf, case parse buf of None \<Rightarrow> l | Some v \<Rightarrow> l\<lparr>led_value := v\<rparr>)"

text \<open>\<open>BLINK_DELAY\<close> is a fifth of the clock rate \<open>hz\<close> of the kernel.\<close>

definition BLINK_DELAY :: "nat \<Rightarrow> 64 word" where
  "BLINK_DELAY hz = of_nat (hz div 5)"

definition my_timer_func :: "nat \<Rightarrow> 64 word \<Rightarrow> leds \<Rightarrow> leds" where
  "my_timer_func hz jiffies l =
     (let s = (if kbledstatus l = led_value l then RESTORE_LEDS else led_value l)
      in l\<lparr>kbledstatus := s, led_set := led_set l @ [s], led_timer := Some (jiffies + BLINK_DELAY hz)\<rparr>)"

definition kbleds_init :: "nat \<Rightarrow> 64 word \<Rightarrow> leds \<Rightarrow> int \<times> leds" where
  "kbleds_init hz jiffies l = (0, l\<lparr>led_timer := Some (jiffies + BLINK_DELAY hz)\<rparr>)"

definition kbleds_cleanup :: "leds \<Rightarrow> leds" where
  "kbleds_cleanup l = l\<lparr>led_timer := None, led_set := led_set l @ [RESTORE_LEDS]\<rparr>"

definition led_init :: "bool \<Rightarrow> int \<Rightarrow> nat \<Rightarrow> 64 word \<Rightarrow> leds \<Rightarrow> int \<times> leds" where
  "led_init kobject_ok sysfs_error hz jiffies l =
     (if \<not> kobject_ok then (- ENOMEM, l)
      else let l = l\<lparr>example_kobject := True\<rparr>
           in if sysfs_error \<noteq> 0 then (sysfs_error, l) else kbleds_init hz jiffies l)"

definition exit_module :: "leds \<Rightarrow> leds" where
  "exit_module l = (kbleds_cleanup l)\<lparr>example_kobject := False\<rparr>"

text \<open>The timer at several points in time, with nothing stored in between.\<close>

fun led_ticks :: "nat \<Rightarrow> 64 word list \<Rightarrow> leds \<Rightarrow> leds" where
  "led_ticks hz [] l = l"
| "led_ticks hz (j # js) l = led_ticks hz js (my_timer_func hz j l)"

section \<open>The netlink service (Lab 5)\<close>

record nlmsg =
  nlmsg_pid :: int
  nlmsg_data :: cbuf

definition MAX_PAYLOAD :: nat where
  "MAX_PAYLOAD = 1024"

definition kernel_text :: string where
  "kernel_text = ''Hello dkoazzofk. This message from Kernal :)''"

text \<open>
  The kernel's side. \<open>skb\<close> is the data area of the block \<open>nlmsg_new\<close> returns for the message
  size it was asked for, before it is filled, or \<open>None\<close>. The result is the payload that was
  logged and the reply with the process it goes to.
\<close>

definition hello_nl_recv_msg :: "(nat \<Rightarrow> cbuf option) \<Rightarrow> nlmsg \<Rightarrow> (string \<times> (int \<times> cbuf) option) res" where
  "hello_nl_recv_msg nlmsg_new m =
     (let msg_size = length kernel_text in
      bindE (cstr (nlmsg_data m)) (\<lambda>payload.
      case nlmsg_new msg_size of None \<Rightarrow> Inr (payload, None)
      | Some skb \<Rightarrow> bindE (strncpy skb (kernel_text @ [NUL]) msg_size) (\<lambda>d.
          Inr (payload, Some (nlmsg_pid m, d)))))"

text \<open>The client: the message it sends, in a block of \<open>MAX_PAYLOAD\<close> bytes that was cleared.\<close>

definition client_message :: "int \<Rightarrow> nlmsg res" where
  "client_message pid =
     bindE (put_str (replicate MAX_PAYLOAD NUL) ''Hello'') (\<lambda>b. Inr \<lparr>nlmsg_pid = pid, nlmsg_data = b\<rparr>)"

text \<open>
  \<open>recvmsg\<close> into the same block, which takes as much as it has room for; the header of the
  reply has the port id 0.
\<close>

definition recv_reply :: "nlmsg \<Rightarrow> cbuf \<Rightarrow> nlmsg" where
  "recv_reply m d = \<lparr>nlmsg_pid = 0,
     nlmsg_data = take (length (nlmsg_data m)) d @ drop (length d) (nlmsg_data m)\<rparr>"

text \<open>
  The client's \<open>main\<close>: what it prints and what the kernel logged, or \<open>None\<close> when no answer comes
  to this process and it waits for ever.
\<close>

definition netlink_main :: "(nat \<Rightarrow> cbuf option) \<Rightarrow> int \<Rightarrow> (string \<times> string) option res" where
  "netlink_main nlmsg_new pid =
     bindE (client_message pid) (\<lambda>m.
     bindE (hello_nl_recv_msg nlmsg_new m) (\<lambda>(payload, reply).
     case reply of None \<Rightarrow> Inr None
     | Some (to, d) \<Rightarrow> if to \<noteq> pid then Inr None
         else bindE (cstr (nlmsg_data (recv_reply m d))) (\<lambda>s.
           Inr (Some (''Sending message to kernel'' @ [NL] @ ''Waiting for message from kernel'' @ [NL]
             @ ''Received message payload: '' @ s @ [NL], payload)))))"

text \<open>The values set by a run of the timer.\<close>

fun blink :: "nat \<Rightarrow> int \<Rightarrow> bool \<Rightarrow> int list" where
  "blink 0 v on = []"
| "blink (Suc n) v on = (if on then RESTORE_LEDS else v) # blink n v (\<not> on)"

section \<open>Lemmas\<close>

lemma led_ticks_value [simp]: "led_value (led_ticks hz js l) = led_value l"
  by (induction js arbitrary: l) (simp_all add: my_timer_func_def Let_def)

lemma led_ticks_set:
  assumes "led_value l \<noteq> RESTORE_LEDS"
  shows "led_set (led_ticks hz js l) = led_set l @ blink (length js) (led_value l) (kbledstatus l = led_value l)"
  using assms by (induction js arbitrary: l) (auto simp: my_timer_func_def Let_def)

lemma blink_nth: "i < n \<Longrightarrow> blink n v on ! i = (if even i = on then RESTORE_LEDS else v)"
proof (induction n arbitrary: i on)
  case (Suc n)
  then show ?case by (cases i) auto
qed simp

lemma blink_length [simp]: "length (blink n v on) = n"
  by (induction n arbitrary: on) simp_all

lemma hello_payload: "NUL \<notin> set kernel_text" "NUL \<notin> set ''Hello''"
  by (simp_all add: kernel_text_def NUL_def)

section \<open>Properties\<close>

text \<open>
  After a value other than \<open>0xFF\<close> was stored, the attribute shows it and the timer sets the
  lights alternately to this value and back, starting with the value, and arms itself again.
\<close>

theorem leds_alternate:
  assumes "parse buf = Some v" and "v \<noteq> RESTORE_LEDS" and "kbledstatus l \<noteq> v"
  shows "foo_show (snd (foo_store parse l buf)) = show_int v @ [NL]
    \<and> (\<forall>hz js. \<exists>vs. led_set (led_ticks hz js (snd (foo_store parse l buf))) = led_set l @ vs
        \<and> length vs = length js
        \<and> (\<forall>i < length js. vs ! i = (if even i then v else RESTORE_LEDS))
        \<and> (js \<noteq> [] \<longrightarrow> led_timer (led_ticks hz js (snd (foo_store parse l buf))) = Some (last js + BLINK_DELAY hz)))"
proof -
  let ?l = "snd (foo_store parse l buf)"
  have l: "led_value ?l = v" "kbledstatus ?l = kbledstatus l" "led_set ?l = led_set l"
    using assms(1) by (simp_all add: foo_store_def)
  have t: "led_timer (led_ticks hz js k) = Some (last js + BLINK_DELAY hz)" if "js \<noteq> []" for hz js k
    using that by (induction js arbitrary: k) (auto simp: my_timer_func_def Let_def)
  have "led_set (led_ticks hz js ?l) = led_set l @ blink (length js) v False" for hz js
    using led_ticks_set [of ?l hz js] l assms(2,3) by simp
  then show ?thesis using l t by (auto simp: foo_show_def blink_nth)
qed

theorem leds_alternate_witness:
  "foo_show (snd (foo_store (\<lambda>s. fst (scan_int s)) leds_start ''5'')) = show_int 5 @ [NL]
    \<and> (\<forall>hz js. \<exists>vs. led_set (led_ticks hz js (snd (foo_store (\<lambda>s. fst (scan_int s)) leds_start ''5''))) = led_set leds_start @ vs
        \<and> length vs = length js
        \<and> (\<forall>i < length js. vs ! i = (if even i then 5 else RESTORE_LEDS))
        \<and> (js \<noteq> [] \<longrightarrow> led_timer (led_ticks hz js (snd (foo_store (\<lambda>s. fst (scan_int s)) leds_start ''5''))) =
              Some (last js + BLINK_DELAY hz)))"
proof (rule leds_alternate)
  show "fst (scan_int ''5'') = Some 5" by code_simp
qed (simp_all add: RESTORE_LEDS_def leds_start_def)

text \<open>
  Loading the module and unloading it leaves no timer, no object and the lights restored;
  but when the attribute file cannot be created, loading fails and leaves the object behind.
\<close>

theorem leds_load_unload:
  assumes "example_kobject l = False"
  shows "fst (led_init True 0 hz j l) = 0 \<and> led_timer (snd (led_init True 0 hz j l)) = Some (j + BLINK_DELAY hz)
    \<and> (let u = exit_module (led_ticks hz js (snd (led_init True 0 hz j l)))
       in led_timer u = None \<and> example_kobject u = False \<and> last (led_set u) = RESTORE_LEDS)
    \<and> led_init False e hz j l = (- ENOMEM, l)
    \<and> (e \<noteq> 0 \<longrightarrow> fst (led_init True e hz j l) = e \<and> example_kobject (snd (led_init True e hz j l)))"
  by (simp add: led_init_def kbleds_init_def exit_module_def kbleds_cleanup_def Let_def)

theorem leds_load_unload_witness:
  "fst (led_init True 0 1000 7 leds_start) = 0 \<and> led_timer (snd (led_init True 0 1000 7 leds_start)) = Some (7 + BLINK_DELAY 1000)
    \<and> (let u = exit_module (led_ticks 1000 [207] (snd (led_init True 0 1000 7 leds_start)))
       in led_timer u = None \<and> example_kobject u = False \<and> last (led_set u) = RESTORE_LEDS)
    \<and> led_init False (-17) 1000 7 leds_start = (- ENOMEM, leds_start)
    \<and> (-17 \<noteq> (0 :: int) \<longrightarrow> fst (led_init True (-17) 1000 7 leds_start) = -17
        \<and> example_kobject (snd (led_init True (-17) 1000 7 leds_start)))"
  by (rule leds_load_unload) (simp add: leds_start_def)

text \<open>
  Whatever the new block holds before, the client prints the kernel's text in full and the
  kernel logs the client's greeting; without memory for the answer the client waits for ever.
\<close>

theorem netlink_answer:
  assumes "\<And>n b. nlmsg_new n = Some b \<Longrightarrow> length b = n"
  shows "netlink_main nlmsg_new pid = Inr (if nlmsg_new (length kernel_text) = None then None
    else Some (''Sending message to kernel'' @ [NL] @ ''Waiting for message from kernel'' @ [NL]
      @ ''Received message payload: '' @ kernel_text @ [NL], ''Hello''))"
proof -
  let ?n = "length kernel_text"
  let ?b = "''Hello'' @ NUL # drop 6 (replicate MAX_PAYLOAD NUL)"
  have c: "client_message pid = Inr \<lparr>nlmsg_pid = pid, nlmsg_data = ?b\<rparr>"
    by (simp add: client_message_def put_str_def MAX_PAYLOAD_def)
  have h: "cstr ?b = Inr ''Hello''"
    using takeWhile_until [OF hello_payload(2)] by (simp add: cstr_def)
  show ?thesis
  proof (cases "nlmsg_new ?n")
    case None
    with c h show ?thesis by (simp add: netlink_main_def hello_nl_recv_msg_def)
  next
    case (Some skb)
    with assms have "length skb = ?n" by simp
    moreover have "takeWhile (\<lambda>c. c \<noteq> NUL) (kernel_text @ [NUL]) = kernel_text"
      using takeWhile_until [OF hello_payload(1), of "[]"] by simp
    ultimately have s: "strncpy skb (kernel_text @ [NUL]) ?n = Inr kernel_text" by (simp add: strncpy_def)
    have n: "?n = 44" by (simp add: kernel_text_def)
    have "drop ?n ?b = replicate 980 NUL" by (simp add: n MAX_PAYLOAD_def drop_Cons' eval_nat_numeral)
    then have r: "recv_reply \<lparr>nlmsg_pid = pid, nlmsg_data = ?b\<rparr> kernel_text =
        \<lparr>nlmsg_pid = 0, nlmsg_data = kernel_text @ replicate 980 NUL\<rparr>"
      by (simp add: recv_reply_def n MAX_PAYLOAD_def)
    have "replicate 980 NUL = NUL # replicate 979 NUL" by (simp add: replicate_Suc [symmetric])
    then have "cstr (kernel_text @ replicate 980 NUL) = Inr kernel_text"
      using takeWhile_until [OF hello_payload(1), of "replicate 979 NUL"] by (simp add: cstr_def)
    with Some c h s r show ?thesis by (simp add: netlink_main_def hello_nl_recv_msg_def)
  qed
qed

theorem netlink_answer_witness:
  "netlink_main (\<lambda>n. Some (replicate n NL)) 4711 = Inr (if Some (replicate (length kernel_text) NL) = None then None
    else Some (''Sending message to kernel'' @ [NL] @ ''Waiting for message from kernel'' @ [NL]
      @ ''Received message payload: '' @ kernel_text @ [NL], ''Hello''))"
  by (rule netlink_answer [where nlmsg_new = "\<lambda>n. Some (replicate n NL)"]) auto

end
