(* ===== verification/Kernel_Modules.thy ===== *)
theory Kernel_Modules
  imports Kernel_Files Kernel_Events Descriptors "HOL-Library.Multiset"
begin

text \<open>
  How the kernel modules of Module 5 are loaded and unloaded (\<open>hello.c\<close> of Labs 1 and 2, \<open>lab4.c\<close> of
  Lab 4, \<open>kernalspace.c\<close> of Lab 5) and the start of the client of Lab 5. What a module gets from
  the kernel is a resource; the results of the kernel's functions are arguments. Loading and unloading the
  module of Lab 3 is in \<open>Kernel_Events\<close>, because it does not keep the contract stated here; what it
  looks at before is here.

  Proved here: the contract \<open>kernel_module\<close> of a module and, for the modules that keep it, that any
  number of attempts to load and unload them leaves nothing behind.
\<close>

section \<open>Resources\<close>

datatype resource = CharDev int | DevClass | DevNode int | ProcEntry | Block | NetSocket

datatype kernel_act = Acquire resource | Release resource | Log string

fun holds_step :: "resource multiset \<Rightarrow> kernel_act \<Rightarrow> resource multiset" where
  "holds_step M (Acquire r) = add_mset r M"
| "holds_step M (Release r) = M - {#r#}"
| "holds_step M (Log t) = M"

definition held_after :: "resource multiset \<Rightarrow> kernel_act list \<Rightarrow> resource multiset" where
  "held_after M as = foldl holds_step M as"

section \<open>The modules\<close>

text \<open>Lab 1.\<close>

definition hello_init_1 :: "kernel_act list \<times> int" where
  "hello_init_1 = ([Log (''Hello world!'' @ [NL])], 0)"

definition hello_cleanup :: "kernel_act list" where
  "hello_cleanup = [Log (''Cleaning up module.'' @ [NL])]"

text \<open>Lab 2: neither result is checked.\<close>

definition proc_init :: "bool \<Rightarrow> bool \<Rightarrow> kernel_act list \<times> int" where
  "proc_init create_ok kmalloc_ok =
     ((if create_ok then [Acquire ProcEntry] else []) @ (if kmalloc_ok then [Acquire Block] else []), 0)"

definition proc_cleanup :: "kernel_act list" where
  "proc_cleanup = [Release ProcEntry, Release Block]"

text \<open>Lab 4: the results of \<open>class_create\<close> and \<open>device_create\<close> are not checked.\<close>

definition chardev_init :: "int \<Rightarrow> bool \<Rightarrow> bool \<Rightarrow> kernel_act list \<times> int" where
  "chardev_init major class_ok device_ok =
     (if major < 0 then ([Log (''Registering char device failed with '' @ show_int major @ [NL])], major)
      else ([Acquire (CharDev major), Log (''I was assigned major number '' @ show_int major @ ''.'' @ [NL])]
          @ (if class_ok then [Acquire DevClass] else []) @ (if device_ok then [Acquire (DevNode major)] else [])
          @ [Log (''Device created on /dev/chardev'' @ [NL])], 0))"

definition chardev_exit :: "int \<Rightarrow> kernel_act list" where
  "chardev_exit major = [Release (DevNode major), Release DevClass, Release (CharDev major)]"

text \<open>Lab 5.\<close>

definition hello_init_5 :: "bool \<Rightarrow> kernel_act list \<times> int" where
  "hello_init_5 create_ok =
     (if create_ok then ([Log (''Entering: hello_init'' @ [NL]), Acquire NetSocket], 0)
      else ([Log (''Entering: hello_init'' @ [NL]), Log (''Error creating socket.'' @ [NL])], - 10))"

definition hello_exit :: "kernel_act list" where
  "hello_exit = [Log (''exiting hello module'' @ [NL]), Release NetSocket]"

text \<open>
  The client of Lab 5 around its exchange with the kernel; the results of \<open>bind\<close> and of \<open>malloc\<close> are not
  checked, and a null pointer is filled with zeros.
\<close>

definition netlink_client :: "int \<Rightarrow> bool \<Rightarrow> (nat \<Rightarrow> cbuf option) \<Rightarrow> int \<Rightarrow> (net_act list \<times> (string \<times> string) option) res" where
  "netlink_client sock malloc_ok nlmsg_new pid =
     (if sock < 0 then Inr ([], None)
      else if \<not> malloc_ok then Inl NullDeref
      else bindE (netlink_main nlmsg_new pid) (\<lambda>r. Inr (case r of
          None \<Rightarrow> ([Opened sock], None)
        | Some x \<Rightarrow> ([Opened sock, Closed sock], Some x))))"

section \<open>The consoles of Lab 3\<close>

text \<open>
  What the module of Lab 3 looks at before it starts its timer: the table of consoles, in which a
  null pointer ends the list, and the driver of the console in the foreground. A terminal is its address
  and the address of its driver's name.
\<close>

record console_data =
  vc_num :: int
  port_tty :: "(nat \<times> nat) option"

definition hex_digit :: "nat \<Rightarrow> char" where
  "hex_digit d = (if d < 10 then char_of (48 + d) else char_of (87 + d))"

fun show_hex :: "nat \<Rightarrow> string" where
  "show_hex n = (if n < 16 then [hex_digit n] else show_hex (n div 16) @ [hex_digit (n mod 16)])"

fun scan_consoles :: "nat \<Rightarrow> nat \<Rightarrow> console_data option list \<Rightarrow> kernel_act list" where
  "scan_consoles max_nr i (Some c # cs) =
     Log (''poet_atkm: console['' @ show_nat i @ ''/'' @ show_nat max_nr @ ''] #'' @ show_int (vc_num c) @ '', tty ''
       @ show_hex (case port_tty c of None \<Rightarrow> 0 | Some (a, _) \<Rightarrow> a) @ [NL]) # scan_consoles max_nr (Suc i) cs"
| "scan_consoles max_nr i _ = []"

definition kbleds_load :: "console_data option list \<Rightarrow> nat \<Rightarrow> nat \<Rightarrow> 64 word \<Rightarrow> leds \<Rightarrow> (kernel_act list \<times> int \<times> leds) res" where
  "kbleds_load vc_cons fg_console hz jiffies l =
     (if length vc_cons \<le> fg_console then Inl OutOfBounds
      else case vc_cons ! fg_console of None \<Rightarrow> Inl NullDeref
        | Some c \<Rightarrow> (case port_tty c of None \<Rightarrow> Inl NullDeref
            | Some (_, driver_name) \<Rightarrow> let (n, l) = kbleds_init hz jiffies l in
                Inr ([Log (''kbleds: loading'' @ [NL]), Log (''kbleds: fgconsole is '' @ show_hex fg_console @ [NL])]
                  @ scan_consoles (length vc_cons) 0 vc_cons
                  @ [Log (''kbleds: finished scanning consoles'' @ [NL]),
                     Log (''kbleds: tty driver name '' @ show_hex (driver_name mod 2 ^ 32) @ [NL])], n, l)))"

section \<open>The contract of a module\<close>

text \<open>
  \<open>load e\<close> is what the module does when it is loaded and the status it returns, \<open>unload e\<close> what it does
  when it is unloaded, in the circumstances \<open>e\<close>. The kernel unloads only a module that was loaded.
\<close>

definition attempt :: "('e \<Rightarrow> kernel_act list \<times> int) \<Rightarrow> ('e \<Rightarrow> kernel_act list) \<Rightarrow> 'e \<Rightarrow> kernel_act list" where
  "attempt load unload e = (let (as, status) = load e in if status = 0 then as @ unload e else as)"

locale kernel_module =
  fixes load :: "'e \<Rightarrow> kernel_act list \<times> int" and unload :: "'e \<Rightarrow> kernel_act list"
  assumes unloaded: "load e = (as, 0) \<Longrightarrow> held_after {#} (as @ unload e) = {#}"
    and refused: "load e = (as, n) \<Longrightarrow> n \<noteq> 0 \<Longrightarrow> held_after {#} as = {#}"
begin

lemma attempt_clean: "held_after {#} (attempt load unload e) = {#}"
  using unloaded refused by (cases "load e") (auto simp: attempt_def)

lemma attempts_clean: "held_after {#} (concat (map (attempt load unload) es)) = {#}"
proof (induction es)
  case (Cons e es)
  then show ?case using attempt_clean [of e] by (simp add: held_after_def)
qed (simp add: held_after_def)

end

section \<open>Lemmas\<close>

interpretation lab1: kernel_module "\<lambda>_ :: unit. hello_init_1" "\<lambda>_. hello_cleanup"
  by unfold_locales (auto simp: hello_init_1_def hello_cleanup_def held_after_def)

interpretation lab2: kernel_module "\<lambda>(create_ok, kmalloc_ok). proc_init create_ok kmalloc_ok" "\<lambda>_. proc_cleanup"
  by unfold_locales (auto simp: proc_init_def proc_cleanup_def held_after_def split: if_splits)

interpretation lab4: kernel_module "\<lambda>(major, class_ok, device_ok). chardev_init major class_ok device_ok" "\<lambda>(major, _). chardev_exit major"
  by unfold_locales (auto simp: chardev_init_def chardev_exit_def held_after_def split: if_splits)

interpretation lab5: kernel_module hello_init_5 "\<lambda>_. hello_exit"
  by unfold_locales (auto simp: hello_init_5_def hello_exit_def held_after_def split: if_splits)

text \<open>One line for every console in front of the first null pointer.\<close>

lemma scan_consoles_length: "length (scan_consoles max_nr i cs) = length (takeWhile (\<lambda>c. c \<noteq> None) cs)"
  by (induction max_nr i cs rule: scan_consoles.induct) simp_all

section \<open>Properties\<close>

text \<open>
  The modules of Labs 1, 2, 4 and 5 leave nothing behind: after any number of attempts to load and
  unload one of them, successful or not and whatever the kernel refuses, the kernel holds nothing of it.
\<close>

theorem modules_leave_nothing:
  "held_after {#} (concat (map (attempt (\<lambda>_. hello_init_1) (\<lambda>_. hello_cleanup)) (us :: unit list))) = {#}
   \<and> held_after {#} (concat (map (attempt (\<lambda>(c, k). proc_init c k) (\<lambda>_. proc_cleanup)) ps)) = {#}
   \<and> held_after {#} (concat (map (attempt (\<lambda>(major, c, d). chardev_init major c d) (\<lambda>(major, _). chardev_exit major)) ms)) = {#}
   \<and> held_after {#} (concat (map (attempt hello_init_5 (\<lambda>_. hello_exit)) bs)) = {#}"
  using lab1.attempts_clean lab2.attempts_clean lab4.attempts_clean lab5.attempts_clean by blast

text \<open>
  The module of Lab 3 is loaded into a working kernel only: without a terminal in the foreground it
  dereferences a null pointer; with one it starts the timer and has logged every console there is.
\<close>

theorem leds_need_console:
  assumes "fg < length vc_cons"
  shows "kbleds_load vc_cons fg hz j l =
      (if \<exists>c t. vc_cons ! fg = Some c \<and> port_tty c = Some t
       then Inr (fst (projr (kbleds_load vc_cons fg hz j l)), kbleds_init hz j l) else Inl NullDeref)
    \<and> (\<forall>as r. kbleds_load vc_cons fg hz j l = Inr (as, r) \<longrightarrow>
         length as = 4 + length (takeWhile (\<lambda>c. c \<noteq> None) vc_cons))"
  using assms scan_consoles_length
  by (auto simp: kbleds_load_def split_beta split: option.splits)

end
