(* ===== verification/Device_Users.thy ===== *)
theory Device_Users
  imports Kernel_Files
begin

text \<open>
  The character device of Module 5, Lab 4, used by any number of processes at once. Each process runs
  \<open>device_open\<close> and \<open>device_release\<close> of \<open>lab4.c\<close> call by call, so that other processes run between the
  compare-and-exchange, the \<open>sprintf\<close> and \<open>try_module_get\<close>, and between \<open>atomic_set\<close> and \<open>module_put\<close>.
  \<open>try_module_get\<close> may fail, and its result is ignored.

  Proved here: without interference the calls are \<open>device_open\<close> and \<open>device_release\<close>; with any interference
  one process at most is past the exchange, no other process changes the greeting it
  has been given, and the reference count is short by one for every reference that was not got.
\<close>

section \<open>The processes\<close>

text \<open>
  The call a process makes next; \<open>Held\<close>: the device is open. A process remembers the number
  in its greeting, and whether it got its reference to the module.
\<close>

datatype device_pc = Closed | Counts | Prints "32 word" | Gets "32 word" | Held "32 word" bool | Puts bool

text \<open>\<open>unpaid\<close> counts the calls of \<open>module_put\<close> for references that were never got.\<close>

record dev_users =
  dev :: chardev
  at :: "nat \<Rightarrow> device_pc"
  unpaid :: nat

definition dev_users_start :: dev_users where
  "dev_users_start = \<lparr>dev = chardev_start, at = (\<lambda>p. Closed), unpaid = 0\<rparr>"

text \<open>The next call of process \<open>p\<close>; \<open>ok\<close> is the result of \<open>try_module_get\<close>.\<close>

definition dev_move :: "nat \<Rightarrow> bool \<Rightarrow> dev_users \<Rightarrow> dev_users res" where
  "dev_move p ok s =
     (let d = dev s in
      case at s p of
        Closed \<Rightarrow>
          let (old, new) = atomic_cmpxchg (already_open d) CDEV_NOT_USED CDEV_EXCLUSIVE_OPEN
          in Inr (s\<lparr>dev := d\<lparr>already_open := new\<rparr>, at := (at s)(p := if old \<noteq> 0 then Closed else Counts)\<rparr>)
      | Counts \<Rightarrow> Inr (s\<lparr>dev := d\<lparr>counter := counter d + 1\<rparr>, at := (at s)(p := Prints (counter d))\<rparr>)
      | Prints n \<Rightarrow> bindE (put_str (msg d) (hello_text n)) (\<lambda>b. Inr (s\<lparr>dev := d\<lparr>msg := b\<rparr>, at := (at s)(p := Gets n)\<rparr>))
      | Gets n \<Rightarrow> Inr (s\<lparr>dev := d\<lparr>module_refs := module_refs d + (if ok then 1 else 0)\<rparr>, at := (at s)(p := Held n ok)\<rparr>)
      | Held n got \<Rightarrow> Inr (s\<lparr>dev := d\<lparr>already_open := CDEV_NOT_USED\<rparr>, at := (at s)(p := Puts got)\<rparr>)
      | Puts got \<Rightarrow> Inr (s\<lparr>dev := d\<lparr>module_refs := module_refs d - 1\<rparr>, at := (at s)(p := Closed),
                          unpaid := unpaid s + (if got then 0 else 1)\<rparr>))"

text \<open>Any interleaving of any number of processes.\<close>

inductive dev_reach :: "dev_users \<Rightarrow> bool" where
  dev_begin: "dev_reach dev_users_start"
| dev_next: "dev_reach s \<Longrightarrow> dev_move p ok s = Inr t \<Longrightarrow> dev_reach t"

text \<open>A run under a schedule.\<close>

fun dev_exec :: "(nat \<times> bool) list \<Rightarrow> dev_users \<Rightarrow> dev_users res" where
  "dev_exec [] s = Inr s"
| "dev_exec ((p, ok) # es) s = bindE (dev_move p ok s) (dev_exec es)"

section \<open>What holds between the calls\<close>

definition past_exchange :: "device_pc \<Rightarrow> bool" where
  "past_exchange c = (case c of Closed \<Rightarrow> False | Puts _ \<Rightarrow> False | _ \<Rightarrow> True)"

definition has_ref :: "device_pc \<Rightarrow> bool" where
  "has_ref c = (case c of Held _ got \<Rightarrow> got | Puts got \<Rightarrow> got | _ \<Rightarrow> False)"

definition ref_holders :: "(nat \<Rightarrow> device_pc) \<Rightarrow> nat set" where
  "ref_holders f = {p. has_ref (f p)}"

definition greeted :: "device_pc \<Rightarrow> 32 word option" where
  "greeted c = (case c of Gets n \<Rightarrow> Some n | Held n _ \<Rightarrow> Some n | _ \<Rightarrow> None)"

definition dev_users_inv :: "dev_users \<Rightarrow> bool" where
  "dev_users_inv s = (length (msg (dev s)) = BUF_LEN
     \<and> (already_open (dev s) = 0 \<or> already_open (dev s) = 1)
     \<and> (already_open (dev s) \<noteq> 0 \<longleftrightarrow> (\<exists>p. past_exchange (at s p)))
     \<and> (\<forall>p q. past_exchange (at s p) \<longrightarrow> past_exchange (at s q) \<longrightarrow> p = q)
     \<and> (\<forall>p n. greeted (at s p) = Some n \<longrightarrow> cstr (msg (dev s)) = Inr (hello_text n))
     \<and> finite (ref_holders (at s))
     \<and> module_refs (dev s) = int (card (ref_holders (at s))) - int (unpaid s))"

section \<open>Lemmas\<close>

lemma pc_simps [simp]:
  "past_exchange Counts" "past_exchange (Prints n)" "past_exchange (Gets n)" "past_exchange (Held n g)"
  "\<not> past_exchange Closed" "\<not> past_exchange (Puts g)"
  "has_ref (Held n g) = g" "has_ref (Puts g) = g"
  "\<not> has_ref Closed" "\<not> has_ref Counts" "\<not> has_ref (Prints n)" "\<not> has_ref (Gets n)"
  "greeted (Gets n) = Some n" "greeted (Held n g) = Some n"
  "greeted Closed = None" "greeted Counts = None" "greeted (Prints n) = None" "greeted (Puts g) = None"
  by (simp_all add: past_exchange_def has_ref_def greeted_def)

lemma greeted_past: "greeted c = Some n \<Longrightarrow> past_exchange c"
  by (cases c) simp_all

text \<open>The processes with a reference, when one process moves.\<close>

lemma refs_upd:
  "ref_holders (f(p := c)) = (if has_ref c then insert p (ref_holders f) else ref_holders f - {p})"
  by (auto simp: ref_holders_def)

lemma card_refs_upd:
  assumes "finite (ref_holders f)"
  shows "finite (ref_holders (f(p := c)))"
    and "int (card (ref_holders (f(p := c))))
      = int (card (ref_holders f)) + (if has_ref c then 1 else 0) - (if has_ref (f p) then 1 else 0)"
proof -
  show "finite (ref_holders (f(p := c)))" using assms by (simp add: refs_upd)
  have p: "p \<in> ref_holders f \<longleftrightarrow> has_ref (f p)" by (simp add: ref_holders_def)
  have "0 < card (ref_holders f)" if "has_ref (f p)" using assms p that by (auto simp: card_gt_0_iff)
  then show "int (card (ref_holders (f(p := c))))
      = int (card (ref_holders f)) + (if has_ref c then 1 else 0) - (if has_ref (f p) then 1 else 0)"
    using assms p unfolding refs_upd by (auto simp: card_insert_if card_Diff_singleton_if of_nat_diff)
qed

text \<open>No call goes wrong: the greeting fits.\<close>

lemma dev_move_returns:
  assumes "dev_users_inv s"
  shows "\<exists>t. dev_move p ok s = Inr t"
proof -
  have "\<exists>b. put_str (msg (dev s)) (hello_text n) = Inr b" for n
    using hello_text_length [of n] assms by (simp add: put_str_def dev_users_inv_def)
  then show ?thesis
    by (cases "at s p") (auto simp: dev_move_def atomic_cmpxchg_def Let_def)
qed

lemma dev_move_inv:
  assumes inv: "dev_users_inv s" and m: "dev_move p ok s = Inr t"
  shows "dev_users_inv t"
proof -
  note refs = card_refs_upd [of "at s" p]
  have here: "(\<exists>q. past_exchange (at s q)) \<or> \<not> past_exchange (at s p)" by blast
  have one: "past_exchange (at s q) \<Longrightarrow> past_exchange (at s p) \<Longrightarrow> q = p" for q
    using inv by (auto simp: dev_users_inv_def)
  show ?thesis
  proof (cases "at s p")
    case Closed
    show ?thesis
    proof (cases "already_open (dev s) = 0")
      case True
      with m Closed have "t = s\<lparr>dev := (dev s)\<lparr>already_open := 1\<rparr>, at := (at s)(p := Counts)\<rparr>"
        by (simp add: dev_move_def atomic_cmpxchg_def CDEV_NOT_USED_def CDEV_EXCLUSIVE_OPEN_def Let_def)
      with inv True Closed refs [of Counts] show ?thesis by (auto simp: dev_users_inv_def dest: greeted_past)
    next
      case False
      with m Closed have "t = s"
        by (auto simp: dev_move_def atomic_cmpxchg_def CDEV_NOT_USED_def Let_def fun_upd_idem)
      with inv show ?thesis by simp
    qed
  next
    case Counts
    with m have "t = s\<lparr>dev := (dev s)\<lparr>counter := counter (dev s) + 1\<rparr>, at := (at s)(p := Prints (counter (dev s)))\<rparr>"
      by (simp add: dev_move_def Let_def)
    with inv one here Counts refs [of "Prints (counter (dev s))"] show ?thesis by (auto simp: dev_users_inv_def)
  next
    case (Prints n)
    with m obtain b where b: "put_str (msg (dev s)) (hello_text n) = Inr b"
      and t: "t = s\<lparr>dev := (dev s)\<lparr>msg := b\<rparr>, at := (at s)(p := Gets n)\<rparr>"
      by (auto simp: dev_move_def Let_def bindE_eq_Inr)
    note greeting = put_str_length [OF b] put_str_cstr [OF b hello_text_chars]
    have "q = p" if "greeted (at s q) = Some k" for q k using one [OF greeted_past [OF that]] Prints by simp
    with t greeting inv one here Prints refs [of "Gets n"] show ?thesis by (auto simp: dev_users_inv_def)
  next
    case (Gets n)
    with m have "t = s\<lparr>dev := (dev s)\<lparr>module_refs := module_refs (dev s) + (if ok then 1 else 0)\<rparr>, at := (at s)(p := Held n ok)\<rparr>"
      by (simp add: dev_move_def Let_def)
    moreover have "cstr (msg (dev s)) = Inr (hello_text n)" using inv Gets pc_simps(13) unfolding dev_users_inv_def by metis
    ultimately show ?thesis using inv one here Gets refs [of "Held n ok"] by (auto simp: dev_users_inv_def)
  next
    case (Held n g)
    with m have "t = s\<lparr>dev := (dev s)\<lparr>already_open := 0\<rparr>, at := (at s)(p := Puts g)\<rparr>"
      by (simp add: dev_move_def Let_def CDEV_NOT_USED_def)
    with inv one here Held refs [of "Puts g"] show ?thesis by (auto simp: dev_users_inv_def)
  next
    case (Puts g)
    with m have "t = s\<lparr>dev := (dev s)\<lparr>module_refs := module_refs (dev s) - 1\<rparr>, at := (at s)(p := Closed),
        unpaid := unpaid s + (if g then 0 else 1)\<rparr>"
      by (simp add: dev_move_def Let_def)
    moreover have "past_exchange (at s q) \<Longrightarrow> q \<noteq> p" for q using Puts by auto
    then have "(\<exists>q. q \<noteq> p \<and> past_exchange (at s q)) \<longleftrightarrow> (\<exists>q. past_exchange (at s q))" by blast
    moreover have "(\<exists>q. past_exchange (((at s)(p := Closed)) q)) \<longleftrightarrow> (\<exists>q. q \<noteq> p \<and> past_exchange (at s q))" by auto
    ultimately show ?thesis using inv Puts refs [of Closed]
      unfolding dev_users_inv_def by (simp del: fun_upd_apply) (auto dest: greeted_past)
  qed
qed

lemma dev_reach_inv: "dev_reach s \<Longrightarrow> dev_users_inv s"
proof (induction rule: dev_reach.induct)
  case dev_begin
  show ?case by (simp add: dev_users_inv_def dev_users_start_def chardev_start_def CDEV_NOT_USED_def ref_holders_def)
qed (rule dev_move_inv)

lemma dev_exec_reach: "dev_reach s \<Longrightarrow> dev_exec es s = Inr t \<Longrightarrow> dev_reach t"
  by (induction es s rule: dev_exec.induct) (auto simp: bindE_eq_Inr intro: dev_next)

text \<open>The calls of one process, without interference, are the two functions of the module.\<close>

lemma dev_exec_open:
  assumes "at s p = Closed" and "device_open ok (dev s) = Inr (0, d)"
  shows "dev_exec (replicate 4 (p, ok)) s = Inr (s\<lparr>dev := d, at := (at s)(p := Held (counter (dev s)) ok)\<rparr>)"
  using assms
  by (auto simp: device_open_def dev_move_def atomic_cmpxchg_def EBUSY_def bindE_eq_Inr Let_def numeral_eq_Suc split: if_splits)

lemma dev_exec_busy:
  assumes "at s p = Closed" and "device_open ok (dev s) = Inr (- EBUSY, d)"
  shows "dev_exec [(p, ok)] s = Inr (s\<lparr>dev := d\<rparr>)"
  using assms
  by (auto simp: device_open_def dev_move_def atomic_cmpxchg_def EBUSY_def bindE_eq_Inr Let_def fun_upd_idem split: if_splits)

lemma dev_exec_release:
  assumes "at s p = Held n True"
  shows "dev_exec [(p, ok), (p, ok)] s = Inr (s\<lparr>dev := snd (device_release (dev s)), at := (at s)(p := Closed)\<rparr>)"
  using assms by (simp add: device_release_def dev_move_def Let_def)

section \<open>Properties\<close>

text \<open>
  C20: However the calls of the processes that open and release the device are interleaved, at most one process
  is between the exchange that lets it in and the reset of the flag; the flag says whether there is one; a
  process that has the device open finds in it the greeting with the number it has drawn, so no
  other has overwritten it; no call overruns the buffer; and the module's reference count is the number of processes
  that have got a reference and not returned it, less one for every release after a failed
  \<open>try_module_get\<close>, which the code does not notice.
\<close>

theorem device_exclusive:
  assumes "dev_reach s"
  shows "(\<forall>p q. past_exchange (at s p) \<and> past_exchange (at s q) \<longrightarrow> p = q)
    \<and> (already_open (dev s) \<noteq> 0 \<longleftrightarrow> (\<exists>p. past_exchange (at s p)))
    \<and> (\<forall>p n got. at s p = Held n got \<longrightarrow> cstr (msg (dev s)) = Inr (hello_text n))
    \<and> (\<forall>p ok. \<exists>t. dev_move p ok s = Inr t)
    \<and> module_refs (dev s) = int (card (ref_holders (at s))) - int (unpaid s)"
proof -
  note inv = dev_reach_inv [OF assms]
  have "cstr (msg (dev s)) = Inr (hello_text n)" if "at s p = Held n got" for p n got
    using inv that pc_simps(14) unfolding dev_users_inv_def by metis
  with inv dev_move_returns [OF inv] show ?thesis unfolding dev_users_inv_def by blast
qed

text \<open>
  Process 2 is refused while process 1 prints; later 2 is let in while 1, which got no reference, has not
  called \<open>module_put\<close> yet, and opens the device before that call: the count is 0 with the device open.
\<close>

theorem device_exclusive_witness:
  "\<exists>s. dev_reach s \<and> at s 2 = Held 1 True \<and> unpaid s = 1
    \<and> (\<forall>p q. past_exchange (at s p) \<and> past_exchange (at s q) \<longrightarrow> p = q)
    \<and> cstr (msg (dev s)) = Inr (hello_text 1) \<and> module_refs (dev s) = 0"
proof -
  let ?es = "[(1, True), (2, True), (1, True), (2, True), (1, True), (1, False), (1, True), (2, True), (2, True), (2, True), (2, True), (1, True)]"
  obtain b0 where b0: "put_str (replicate BUF_LEN NUL) (hello_text 0) = Inr b0"
    using hello_text_length [of 0] by (simp add: put_str_def)
  obtain b1 where b1: "put_str b0 (hello_text 1) = Inr b1"
    using hello_text_length [of 1] put_str_length [OF b0] by (simp add: put_str_def)
  have "\<exists>s. dev_exec ?es dev_users_start = Inr s \<and> at s 2 = Held 1 True \<and> ref_holders (at s) = {2} \<and> unpaid s = 1"
    by (simp add: dev_users_start_def chardev_start_def dev_move_def atomic_cmpxchg_def CDEV_NOT_USED_def CDEV_EXCLUSIVE_OPEN_def
        b0 b1 refs_upd) (simp add: ref_holders_def)
  then obtain s where s: "dev_exec ?es dev_users_start = Inr s" "at s 2 = Held 1 True" "ref_holders (at s) = {2}" "unpaid s = 1"
    by blast
  from dev_exec_reach [OF dev_begin s(1)] have r: "dev_reach s" .
  note e = device_exclusive [OF r]
  from e s(2) have "cstr (msg (dev s)) = Inr (hello_text 1)" by blast
  with e r s(2-4) show ?thesis by (intro exI [of _ s]) simp
qed

end
