(* ===== verification/Spec2Isabelle.thy ===== *)
theory Spec2Isabelle
  imports Contact_Tree Contact_List Contact_Array Contact_Library PQueue Chmod Subnet Calculators
    Raw_Echo Taxi_Program Processes Phone_Book Signal_Files Chat_Sysv Chat_Posix Sem_Start Shm_Programs
    Tcp_Task16 Udp_Programs Kernel_Modules Device_Users
begin

text \<open>
  A verification of the exercise programs of the repository: independent C programs in
  numbered directories, grouped into modules. Every program is modelled from its source;
  two programs that keep the same data with different data structures are compared here.

  \<^bold>\<open>Conventions.\<close> A model returns \<open>Inr x\<close> where the program has a defined behaviour and
  \<open>Inl fault\<close> where C gives it none (theory \<open>C_Prelude\<close>). Error returns and messages of the
  programs are ordinary results. A variable the program reads before it is set, a file
  system, the values of \<open>rand\<close>, the ids the kernel gives out and whether \<open>malloc\<close> succeeds
  are arguments of the model. Integers are \<open>int\<close> with a range check where they can
  overflow, and words of their width where the program works on bits. Character arrays
  are lists of their exact length; the model of the C library is in \<open>C_Stdio\<close>.

  \<^bold>\<open>Loops.\<close> Loops over an index are functions with a termination proof. The menus of the
  contact books run until the user leaves; \<open>rounds\<close> gives them fuel and each round its own
  uninitialised locals and results of calls, the theorems hold for every amount of fuel, and
  \<open>rounds_fuel_mono\<close> says that more fuel does not change a result (\<open>do_while\<close> is the same for
  bodies that need no such values). The loops that follow the pointers of the linked list get one unit of fuel more
  than addresses were ever handed out; the lemmas \<open>dll_advance\<close>, \<open>last_node_dseg\<close> and
  \<open>printNode_dseg\<close> show that this is enough for every list the program builds. Programs
  of several processes are step relations.

  \<^bold>\<open>The theories.\<close>
  \<^item> \<open>C_Prelude\<close>, \<open>C_Stdio\<close>: results, ranges, arrays, loops with an invariant (locale
    \<open>loop_invariant\<close>); strings, decimal numbers, \<open>scanf\<close>, \<open>fgets\<close>, \<open>printf\<close>.
  \<^item> \<open>Contact\<close>: the structs \<open>Social\<close> and \<open>Contact\<close> and the dialogues that fill and edit a
    contact, shared by the contact books of Module 2. The locale \<open>text_field\<close> is
    interpreted for each of the five text fields.
  \<^item> \<open>Contact_Store\<close>: what an ordered contact book promises, as the locale \<open>contact_store\<close>
    over an abstract ordered list of contacts, with what its users may rely on.
  \<^item> \<open>Contact_Tree\<close> (Module 2, Task 4.3, \<open>main.c\<close>): the search tree, all handlers and the
    menu. The tree is a \<open>contact_store\<close>; the menu keeps it ordered.
  \<^item> \<open>Contact_List\<close> (Module 2, Task 4.1, \<open>main.c\<close>): the doubly linked list in an explicit heap, all handlers and the menu. The list is a
    \<open>contact_store\<close>; the menu keeps both chains consistent and loses no memory.
  \<^item> \<open>Library_Functions\<close> (Module 2, Task 6.1, \<open>linkedList.c\<close>, and Task 6.2, \<open>contactList.c\<close>): the six
    functions of each library, and that they compute what those of Task 4.1 compute;
    \<open>Contact_Library\<close>: the two programs, with the library linked and opened at run time.
  \<^item> \<open>Contact_Array\<close> (Module 2, Task 2.1, \<open>main.c\<close>): the array book.
  \<^item> \<open>PQueue\<close> (Module 2, Task 4.2): the priority queue, as the locale \<open>bounded_queue\<close>.
  \<^item> \<open>Chmod\<close> (Module 2, Task 3.1): the file shell with \<open>ls\<close>, \<open>touch\<close> and \<open>chmod\<close>.
  \<^item> \<open>Subnet\<close> (Module 2, Task 3.2): addresses, masks and the packet counter.
  \<^item> \<open>C_Float\<close>, \<open>Calculators\<close> (Module 2, Tasks 2.2, 2.3 and 6.3): floating-point numbers as a
    parameter; the calculators with a variable number of arguments.
  \<^item> \<open>Processes\<close> (Module 3, Tasks 1, 2 and 4): the squares, the shell with its helper programs,
    the number in a pipe.
  \<^item> \<open>Phone_Book\<close> (Module 3, Task 3): the phone book with its file.
  \<^item> \<open>File_Words\<close>: the words of a file, read into an array of 128 characters and printed.
  \<^item> \<open>Signals\<close> (Module 3, Task 5): parent and child with signals, pipe, file and the parent's failing calls;
    \<open>Signal_Files\<close>: its start, and when the child's array is overrun.
  \<^item> \<open>Mail_Queue\<close>, \<open>Chat_Sysv\<close>, \<open>Chat_Posix\<close> (Module 3, Tasks 6 and 7): message queues of both
    kinds as the locale \<open>mailbox\<close>, and the chats over them.
  \<^item> \<open>Semaphores\<close> (Module 3, Tasks 8 to 11): readers and writers of a file; a criterion for
    mutual exclusion (locale \<open>locked_program\<close>), and where the programs stop for good;
    \<open>Sem_Start\<close>: the starts, also with semaphores an earlier run has left.
  \<^item> \<open>Shared_Memory\<close>, \<open>Shm_Programs\<close> (Module 3, Tasks 12 and 13): parent and child on a shared
    segment, access by access; the programs from the creation of the segment to its removal.
  \<^item> \<open>Descriptors\<close>: what the network programs do with descriptors, and the locale \<open>careful_setup\<close>
    for their starts.
  \<^item> \<open>Tcp_Calc\<close>, \<open>Tcp_Client\<close>, \<open>Tcp_File\<close> (Module 3, Tasks 15, 18 and 16): the calculators and the
    file transfer over TCP, servers and clients.
  \<^item> \<open>Tcp_Programs\<close>, \<open>Tcp_Task16\<close>: the programs of Tasks 15 and 18, and those of Task 16, from
    their sockets to their ends; the client with its two threads in any order.
  \<^item> \<open>Udp_Chat\<close>, \<open>Udp_Programs\<close> (Module 3, Tasks 14 and 17): the chat over UDP and the sniffer,
    round by round and as whole programs.
  \<^item> \<open>Byte_Source\<close>: what it means that repeated reads deliver a text, as the locale
    \<open>byte_source\<close>; the device of Lab 4 and the file of Task 16 are such sources.
  \<^item> \<open>Kernel_Files\<close> (Module 5, Labs 2 and 4): the \<open>/proc\<close> entry and the character device.
  \<^item> \<open>Device_Users\<close> (Module 5, Lab 4): opening and releasing the device by many processes, call by call.
  \<^item> \<open>Kernel_Events\<close> (Module 5, Labs 3 and 5): the keyboard lights and the netlink service.
  \<^item> \<open>Kernel_Modules\<close> (Module 5, Labs 1 to 5): loading and unloading, as the locale
    \<open>kernel_module\<close> over the resources a module takes from the kernel.
  \<^item> \<open>Raw_Udp\<close> (Additional Tasks, Task 1, \<open>client.c\<close> and \<open>server.c\<close>): packets with their
    checksums byte by byte, the table of clients, the server's round.
  \<^item> \<open>Raw_Echo\<close>: the client's round, the loops and both programs from the socket to its closing,
    and the echo of a line over both.
  \<^item> \<open>Taxi\<close> (Additional Tasks, Task 2, \<open>structs.h\<close>, \<open>cli.c\<close>, \<open>main.c\<close>): dispatcher and drivers
    as communicating processes; \<open>Taxi_Program\<close>: the command line as a program over them.

  \<^bold>\<open>What is shown.\<close> For each component: an invariant that every operation keeps, the
  effect of every operation on an abstract state (ordered lists, multisets, finite maps,
  bits of a mode, texts), agreement of the parts that talk to each other (what one side
  writes the other reads), and, where the program goes wrong, exactly when.

  \<^bold>\<open>What is not modelled.\<close> Configuration files, packages and documents (Modules 1 and 4);
  output on \<open>stderr\<close>; the contents of files other than \<open>number.txt\<close>, \<open>phonebook.txt\<close>, \<open>file.bin\<close>
  and the transferred files. Failing calls are modelled where a program looks at
  their results, but for calls on semaphores, pipes and message queues that were set up already. The chats of
  Tasks 6 and 7 start with new queues; the taxi service and the shared segment also start with
  what an earlier run has left, and so do the semaphores of Tasks 10 and 11.
\<close>

section \<open>Two contact books that agree\<close>

text \<open>
  C1: The search tree of Task 4.3 and the linked list of Task 4.1 are interchangeable: every
  session of additions of new ids and removals of stored ids that fits into memory succeeds
  in both, leaves the same contacts in the same order in both, and every later search gives
  the same answer in both.
\<close>

theorem books_agree:
  assumes "spec_run ops [] = Some cs" and "length ops \<le> mem"
  shows "\<exists>t h p. run_ops ins_t del_t ops TNull = Inr t
    \<and> run_ops ins_l del_l ops (hp (init_l mem), head (init_l mem)) = Inr (h, p)
    \<and> inorder t = cs \<and> contacts_l (h, p) = cs \<and> (\<forall>i. look_t i t = look_l i (h, p))"
proof -
  let ?s = "(hp (init_l mem), head (init_l mem))"
  have tree: "search_tree TNull" "spec_run ops (inorder TNull) = Some cs" using assms(1) by simp_all
  have s: "dll (hp (init_l mem)) (head (init_l mem)) []" by (simp add: init_l_def dll_def)
  then have list: "list_ok ?s" "room_l (length ops) ?s" "spec_run ops (contacts_l ?s) = Some cs"
    using assms contacts_dll [OF s] by (auto simp: list_ok_def room_l_def init_l_def)
  from tree_store.run_refines [OF tree(1) TrueI tree(2)] obtain t where
    t: "run_ops ins_t del_t ops TNull = Inr t" "search_tree t" "inorder t = cs" by blast
  from list_store.run_refines [OF list] obtain h p where
    l: "run_ops ins_l del_l ops ?s = Inr (h, p)" "list_ok (h, p)" "contacts_l (h, p) = cs" by auto
  have "look_t i t = look_l i (h, p)" for i
    using tree_store.look_find [OF t(2), of i] list_store.look_find [OF l(2), of i] t(3) l(3) by simp
  with t l show ?thesis by blast
qed

theorem books_agree_witness:
  "\<exists>t h p. run_ops ins_t del_t [Add (blank_contact\<lparr>con_id := 4\<rparr>), Add blank_contact, Remove 4] TNull = Inr t
    \<and> run_ops ins_l del_l [Add (blank_contact\<lparr>con_id := 4\<rparr>), Add blank_contact, Remove 4]
        (hp (init_l 3), head (init_l 3)) = Inr (h, p)
    \<and> inorder t = [blank_contact] \<and> contacts_l (h, p) = [blank_contact] \<and> (\<forall>i. look_t i t = look_l i (h, p))"
proof (rule books_agree)
  show "spec_run [Add (blank_contact\<lparr>con_id := 4\<rparr>), Add blank_contact, Remove 4] [] = Some [blank_contact]"
    by (simp add: add_sorted_def drop_id_def) (simp add: blank_contact_def)
qed simp

end
